theory Spec2Isabelle
  imports Main "HOL-Library.Extended_Nat" "HOL-Library.Product_Lexorder"
begin

section \<open>Grid model\<close>

text \<open>
  A node object of the source is the cell \<open>grid[row][col]\<close> that \<open>createNode\<close> builds with
  exactly these coordinates, so a node is identified with its position \<open>(row, col)\<close>; object
  identity (\<open>===\<close>, \<open>includes\<close>, \<open>Set\<close> membership) is equality of positions. The fields of
  \<open>NodeData\<close> other than the coordinates form the record below; \<open>Infinity\<close> is \<open>\<infinity>\<close> of
  \<open>enat\<close>, \<open>null\<close> is \<open>None\<close>.
\<close>

type_synonym pos = "nat \<times> nat"

record NodeData =
  isStart :: bool
  isFinish :: bool
  distance :: enat
  isVisited :: bool
  isWall :: bool
  previousNode :: "pos option"
  totalDistance :: enat
  heuristicDistance :: enat

text \<open>
  The grid \<open>NodeData[][]\<close>: \<open>rows\<close> is \<open>grid.length\<close>, \<open>cols\<close> is \<open>grid[0].length\<close>,
  \<open>cells\<close> holds the mutable node fields. Every algorithm mutates nodes in place; the
  model passes the grid through and returns it.
\<close>

record grid =
  rows :: nat
  cols :: nat
  cells :: "pos \<Rightarrow> NodeData"

definition in_grid :: "grid \<Rightarrow> pos \<Rightarrow> bool" where
  "in_grid g p = (fst p < rows g \<and> snd p < cols g)"

definition setDistance :: "pos \<Rightarrow> enat \<Rightarrow> grid \<Rightarrow> grid" where
  "setDistance p d g = g\<lparr>cells := (cells g)(p := (cells g p)\<lparr>distance := d\<rparr>)\<rparr>"

definition setPreviousNode :: "pos \<Rightarrow> pos option \<Rightarrow> grid \<Rightarrow> grid" where
  "setPreviousNode p q g = g\<lparr>cells := (cells g)(p := (cells g p)\<lparr>previousNode := q\<rparr>)\<rparr>"

definition setIsVisited :: "pos \<Rightarrow> bool \<Rightarrow> grid \<Rightarrow> grid" where
  "setIsVisited p b g = g\<lparr>cells := (cells g)(p := (cells g p)\<lparr>isVisited := b\<rparr>)\<rparr>"

definition setHeuristicDistance :: "pos \<Rightarrow> enat \<Rightarrow> grid \<Rightarrow> grid" where
  "setHeuristicDistance p d g = g\<lparr>cells := (cells g)(p := (cells g p)\<lparr>heuristicDistance := d\<rparr>)\<rparr>"

definition setTotalDistance :: "pos \<Rightarrow> enat \<Rightarrow> grid \<Rightarrow> grid" where
  "setTotalDistance p d g = g\<lparr>cells := (cells g)(p := (cells g p)\<lparr>totalDistance := d\<rparr>)\<rparr>"

text \<open>\<open>getInitialGrid\<close> with \<open>createNode\<close>, followed by the copy of the wall flags; the
  constants \<open>GRID_ROWS\<close> and \<open>GRID_COLS\<close> are parameters.\<close>

definition createNode :: "pos \<Rightarrow> pos \<Rightarrow> pos \<Rightarrow> NodeData" where
  "createNode p startPos finishPos =
     \<lparr>isStart = (p = startPos), isFinish = (p = finishPos), distance = \<infinity>,
      isVisited = False, isWall = False, previousNode = None,
      totalDistance = \<infinity>, heuristicDistance = \<infinity>\<rparr>"

definition getInitialGrid :: "nat \<Rightarrow> nat \<Rightarrow> pos \<Rightarrow> pos \<Rightarrow> grid" where
  "getInitialGrid r c startPos finishPos =
     \<lparr>rows = r, cols = c, cells = (\<lambda>p. createNode p startPos finishPos)\<rparr>"

definition withWalls :: "pos list \<Rightarrow> grid \<Rightarrow> grid" where
  "withWalls ws g = g\<lparr>cells := (\<lambda>p. if p \<in> set ws then (cells g p)\<lparr>isWall := True\<rparr> else cells g p)\<rparr>"

text \<open>What every strategy returns, together with the grid as the run leaves it.\<close>

record run =
  final :: grid
  visitedNodesInOrder :: "pos list"
  nodesInShortestPathOrder :: "pos list"

definition getManhattanDistance :: "pos \<Rightarrow> pos \<Rightarrow> nat" where
  "getManhattanDistance a b =
     (if fst a \<le> fst b then fst b - fst a else fst a - fst b) +
     (if snd a \<le> snd b then snd b - snd a else snd a - snd b)"

text \<open>The four candidate neighbours in the order the source pushes them: up, down, left,
  right.\<close>

fun adjacentCells :: "grid \<Rightarrow> pos \<Rightarrow> pos list" where
  "adjacentCells g (row, col) =
     (if row > 0 then [(row - 1, col)] else []) @
     (if row < rows g - 1 then [(row + 1, col)] else []) @
     (if col > 0 then [(row, col - 1)] else []) @
     (if col < cols g - 1 then [(row, col + 1)] else [])"

text \<open>\<open>getUnvisitedNeighbors\<close> (the same text in dijkstra.ts, astar and greedyBfs.ts).\<close>

definition getUnvisitedNeighbors :: "pos \<Rightarrow> grid \<Rightarrow> pos list" where
  "getUnvisitedNeighbors node g =
     filter (\<lambda>neighbor. \<not> isVisited (cells g neighbor)) (adjacentCells g node)"

text \<open>\<open>getNodesInShortestPathOrder\<close>: the loop \<open>while (currentNode !== null)\<close> runs forever
  on a cyclic chain of \<open>previousNode\<close> links; not returning is \<open>None\<close>.\<close>

partial_function (option) walkPrevious :: "grid \<Rightarrow> pos option \<Rightarrow> pos list \<Rightarrow> pos list option" where
  "walkPrevious g currentNode acc =
     (case currentNode of
        None \<Rightarrow> Some acc
      | Some n \<Rightarrow> walkPrevious g (previousNode (cells g n)) (n # acc))"

declare walkPrevious.simps [code]

definition getNodesInShortestPathOrder :: "grid \<Rightarrow> pos \<Rightarrow> pos list option" where
  "getNodesInShortestPathOrder g finishNode = walkPrevious g (Some finishNode) []"

section \<open>Dijkstra\<close>

text \<open>\<open>Array.prototype.sort\<close> is stable; \<open>sort_key\<close> is the stable insertion sort.\<close>

definition sortNodesByDistance :: "grid \<Rightarrow> pos list \<Rightarrow> pos list" where
  "sortNodesByDistance g unvisitedNodes = sort_key (\<lambda>n. distance (cells g n)) unvisitedNodes"

fun dijkstra_relax :: "pos \<Rightarrow> pos \<Rightarrow> grid \<times> pos list \<Rightarrow> grid \<times> pos list" where
  "dijkstra_relax node neighbor (g, openSet) =
     (let newDistance = distance (cells g node) + 1 in
      if newDistance < distance (cells g neighbor)
      then (setPreviousNode neighbor (Some node) (setDistance neighbor newDistance g),
            if neighbor \<in> set openSet then openSet else openSet @ [neighbor])
      else (g, openSet))"

definition dijkstra_updateUnvisitedNeighbors :: "pos \<Rightarrow> grid \<Rightarrow> pos list \<Rightarrow> grid \<times> pos list" where
  "dijkstra_updateUnvisitedNeighbors node g openSet =
     fold (dijkstra_relax node) (getUnvisitedNeighbors node g) (g, openSet)"

text \<open>The main loop of \<open>dijkstra\<close>. The array is sorted in place and its first element
  shifted off on every round.\<close>

function dijkstra_loop :: "pos \<Rightarrow> grid \<Rightarrow> pos list \<Rightarrow> pos list \<Rightarrow> run option" where
  "dijkstra_loop finishNode g openSet visited =
     (case sortNodesByDistance g openSet of
        [] \<Rightarrow> Some \<lparr>final = g, visitedNodesInOrder = visited, nodesInShortestPathOrder = []\<rparr>
      | closestNode # rest \<Rightarrow>
          if isWall (cells g closestNode) then dijkstra_loop finishNode g rest visited
          else if distance (cells g closestNode) = \<infinity>
          then Some \<lparr>final = g, visitedNodesInOrder = visited, nodesInShortestPathOrder = []\<rparr>
          else if isVisited (cells g closestNode) then dijkstra_loop finishNode g rest visited
          else
            let g1 = setIsVisited closestNode True g;
                visited1 = visited @ [closestNode]
            in if closestNode = finishNode
               then map_option
                      (\<lambda>path. \<lparr>final = g1, visitedNodesInOrder = visited1,
                                nodesInShortestPathOrder = path\<rparr>)
                      (getNodesInShortestPathOrder g1 finishNode)
               else (case dijkstra_updateUnvisitedNeighbors closestNode g1 rest of
                       (g2, openSet2) \<Rightarrow> dijkstra_loop finishNode g2 openSet2 visited1))"
  by pat_completeness auto


definition dijkstra :: "grid \<Rightarrow> pos \<Rightarrow> pos \<Rightarrow> run option" where
  "dijkstra g startNode finishNode =
     dijkstra_loop finishNode (setDistance startNode 0 g) [startNode] []"

section \<open>A*\<close>

text \<open>The comparator orders by \<open>totalDistance\<close> and, among equal totals, by
  \<open>heuristicDistance\<close>: the lexicographic order on the pair.\<close>

definition sortNodesByTotalDistance :: "grid \<Rightarrow> pos list \<Rightarrow> pos list" where
  "sortNodesByTotalDistance g nodes =
     sort_key (\<lambda>n. (totalDistance (cells g n), heuristicDistance (cells g n))) nodes"

fun astar_relax :: "pos \<Rightarrow> pos \<Rightarrow> pos \<Rightarrow> grid \<times> pos list \<Rightarrow> grid \<times> pos list" where
  "astar_relax finishNode node neighbor (g, openSet) =
     (let newDistance = distance (cells g node) + 1 in
      if newDistance < distance (cells g neighbor)
      then
        let g1 = setDistance neighbor newDistance g;
            g2 = setHeuristicDistance neighbor (enat (getManhattanDistance neighbor finishNode)) g1;
            g3 = setTotalDistance neighbor
                   (distance (cells g2 neighbor) + heuristicDistance (cells g2 neighbor)) g2;
            g4 = setPreviousNode neighbor (Some node) g3
        in (g4, if neighbor \<in> set openSet then openSet else openSet @ [neighbor])
      else (g, openSet))"

definition astar_updateUnvisitedNeighbors ::
  "pos \<Rightarrow> pos \<Rightarrow> grid \<Rightarrow> pos list \<Rightarrow> grid \<times> pos list" where
  "astar_updateUnvisitedNeighbors node finishNode g openSet =
     fold (astar_relax finishNode node) (getUnvisitedNeighbors node g) (g, openSet)"

function astar_loop :: "pos \<Rightarrow> grid \<Rightarrow> pos list \<Rightarrow> pos list \<Rightarrow> run option" where
  "astar_loop finishNode g openSet visited =
     (case sortNodesByTotalDistance g openSet of
        [] \<Rightarrow> Some \<lparr>final = g, visitedNodesInOrder = visited, nodesInShortestPathOrder = []\<rparr>
      | closestNode # rest \<Rightarrow>
          if isWall (cells g closestNode) then astar_loop finishNode g rest visited
          else if isVisited (cells g closestNode) then astar_loop finishNode g rest visited
          else
            let g1 = setIsVisited closestNode True g;
                visited1 = visited @ [closestNode]
            in if closestNode = finishNode
               then map_option
                      (\<lambda>path. \<lparr>final = g1, visitedNodesInOrder = visited1,
                                nodesInShortestPathOrder = path\<rparr>)
                      (getNodesInShortestPathOrder g1 finishNode)
               else (case astar_updateUnvisitedNeighbors closestNode finishNode g1 rest of
                       (g2, openSet2) \<Rightarrow> astar_loop finishNode g2 openSet2 visited1))"
  by pat_completeness auto

definition astar :: "grid \<Rightarrow> pos \<Rightarrow> pos \<Rightarrow> run option" where
  "astar g startNode finishNode =
     (let g1 = setDistance startNode 0 g;
          g2 = setHeuristicDistance startNode (enat (getManhattanDistance startNode finishNode)) g1;
          g3 = setTotalDistance startNode
                 (distance (cells g2 startNode) + heuristicDistance (cells g2 startNode)) g2
      in astar_loop finishNode g3 [startNode] [])"

section \<open>Greedy best-first\<close>

definition sortNodesByHeuristic :: "grid \<Rightarrow> pos list \<Rightarrow> pos list" where
  "sortNodesByHeuristic g nodes = sort_key (\<lambda>n. heuristicDistance (cells g n)) nodes"

fun greedy_relax :: "pos \<Rightarrow> pos \<Rightarrow> pos \<Rightarrow> grid \<times> pos list \<Rightarrow> grid \<times> pos list" where
  "greedy_relax finishNode node neighbor (g, openSet) =
     (if distance (cells g neighbor) = \<infinity>
      then
        let g1 = setDistance neighbor (distance (cells g node) + 1) g;
            g2 = setHeuristicDistance neighbor (enat (getManhattanDistance neighbor finishNode)) g1;
            g3 = setPreviousNode neighbor (Some node) g2
        in (g3, openSet @ [neighbor])
      else (g, openSet))"

definition greedy_updateUnvisitedNeighbors ::
  "pos \<Rightarrow> pos \<Rightarrow> grid \<Rightarrow> pos list \<Rightarrow> grid \<times> pos list" where
  "greedy_updateUnvisitedNeighbors node finishNode g openSet =
     fold (greedy_relax finishNode node) (getUnvisitedNeighbors node g) (g, openSet)"

function greedy_loop :: "pos \<Rightarrow> grid \<Rightarrow> pos list \<Rightarrow> pos list \<Rightarrow> run option" where
  "greedy_loop finishNode g openSet visited =
     (case sortNodesByHeuristic g openSet of
        [] \<Rightarrow> Some \<lparr>final = g, visitedNodesInOrder = visited, nodesInShortestPathOrder = []\<rparr>
      | closestNode # rest \<Rightarrow>
          if isWall (cells g closestNode) then greedy_loop finishNode g rest visited
          else if isVisited (cells g closestNode) then greedy_loop finishNode g rest visited
          else
            let g1 = setIsVisited closestNode True g;
                visited1 = visited @ [closestNode]
            in if closestNode = finishNode
               then map_option
                      (\<lambda>path. \<lparr>final = g1, visitedNodesInOrder = visited1,
                                nodesInShortestPathOrder = path\<rparr>)
                      (getNodesInShortestPathOrder g1 finishNode)
               else (case greedy_updateUnvisitedNeighbors closestNode finishNode g1 rest of
                       (g2, openSet2) \<Rightarrow> greedy_loop finishNode g2 openSet2 visited1))"
  by pat_completeness auto

definition greedyBfs :: "grid \<Rightarrow> pos \<Rightarrow> pos \<Rightarrow> run option" where
  "greedyBfs g startNode finishNode =
     (let g1 = setDistance startNode 0 g;
          g2 = setHeuristicDistance startNode (enat (getManhattanDistance startNode finishNode)) g1
      in greedy_loop finishNode g2 [startNode] [])"

section \<open>Bidirectional swarm\<close>

text \<open>
  Each side keeps an open array and three \<open>Map\<close>s keyed by \<open>getNodeId\<close>, the string
  \<open>row-col\<close>, which is injective on positions: the maps are keyed by the position. The
  record groups the four per-side variables (\<open>startOpenSet\<close>, \<open>visitedByStart\<close>,
  \<open>gScoreStart\<close>, \<open>fScoreStart\<close> and their finish-side twins).
\<close>

record frontier =
  openSet :: "pos list"
  parents :: "pos \<rightharpoonup> pos"
  gScore :: "pos \<rightharpoonup> enat"
  fScore :: "pos \<rightharpoonup> enat"

text \<open>\<open>map.get(id) ?? Infinity\<close>\<close>

definition score :: "(pos \<rightharpoonup> enat) \<Rightarrow> pos \<Rightarrow> enat" where
  "score m p = (case m p of None \<Rightarrow> \<infinity> | Some v \<Rightarrow> v)"

definition sortNodes :: "pos list \<Rightarrow> (pos \<rightharpoonup> enat) \<Rightarrow> pos list" where
  "sortNodes nodes fScoreMap = sort_key (score fScoreMap) nodes"

definition updateNeighbor :: "grid \<Rightarrow> pos \<Rightarrow> pos \<Rightarrow> frontier \<Rightarrow> pos \<Rightarrow> frontier" where
  "updateNeighbor g neighbor current fr targetNode =
     (if isWall (cells g neighbor) then fr
      else
        let tentativeG = score (gScore fr) current + 1 in
        if tentativeG < score (gScore fr) neighbor
        then fr\<lparr>parents := (parents fr)(neighbor \<mapsto> current),
                gScore := (gScore fr)(neighbor \<mapsto> tentativeG),
                fScore := (fScore fr)(neighbor \<mapsto>
                            tentativeG + enat (getManhattanDistance neighbor targetNode)),
                openSet := (if neighbor \<in> set (openSet fr) then openSet fr
                            else openSet fr @ [neighbor])\<rparr>
        else fr)"

text \<open>The first loop of \<open>reconstructBidirectionalPathRevisited\<close>; the caller adds the start
  node in front.\<close>

partial_function (option) backtrackToStart ::
  "(pos \<rightharpoonup> pos) \<Rightarrow> pos \<Rightarrow> pos \<Rightarrow> pos list \<Rightarrow> pos list option" where
  "backtrackToStart startParents startNode cur path =
     (if cur \<noteq> startNode
      then (case startParents cur of
              None \<Rightarrow> Some (cur # path)
            | Some parent \<Rightarrow> backtrackToStart startParents startNode parent (cur # path))
      else Some path)"

declare backtrackToStart.simps [code]

text \<open>The second loop, with the final \<open>if (cur === finishNode) path.push(finishNode)\<close>.\<close>

partial_function (option) forwardToFinish ::
  "(pos \<rightharpoonup> pos) \<Rightarrow> pos \<Rightarrow> pos option \<Rightarrow> pos list \<Rightarrow> pos list option" where
  "forwardToFinish finishParents finishNode cur path =
     (case cur of
        None \<Rightarrow> Some path
      | Some c \<Rightarrow>
          if c \<noteq> finishNode
          then forwardToFinish finishParents finishNode (finishParents c) (path @ [c])
          else Some (path @ [finishNode]))"

declare forwardToFinish.simps [code]

definition reconstructBidirectionalPathRevisited ::
  "pos \<Rightarrow> (pos \<rightharpoonup> pos) \<Rightarrow> (pos \<rightharpoonup> pos) \<Rightarrow> pos \<Rightarrow> pos \<Rightarrow> pos list option" where
  "reconstructBidirectionalPathRevisited meetingNode startParents finishParents startNode finishNode =
     Option.bind (backtrackToStart startParents startNode meetingNode [])
       (\<lambda>path. forwardToFinish finishParents finishNode (finishParents meetingNode)
                  (startNode # path))"

text \<open>
  One half of the loop body (the two halves of the source are the same text with the
  sides exchanged): sort this side's open array, shift its first node, mark it, test
  whether the other side has a \<open>gScore\<close> for it, and otherwise update its neighbours.
  The second component is the meeting node when the intersection test succeeds.
\<close>

definition expandSide ::
  "grid \<Rightarrow> pos list \<Rightarrow> frontier \<Rightarrow> frontier \<Rightarrow> pos \<Rightarrow> (grid \<times> pos list \<times> frontier) \<times> pos option" where
  "expandSide g visited own other targetNode =
     (let sorted = sortNodes (openSet own) (fScore own);
          current = hd sorted;
          own1 = own\<lparr>openSet := tl sorted\<rparr>
      in if \<not> isWall (cells g current)
         then
           let g1 = (if \<not> isVisited (cells g current) then setIsVisited current True g else g);
               visited1 = (if \<not> isVisited (cells g current) then visited @ [current] else visited)
           in if gScore other current \<noteq> None
              then ((g1, visited1, own1), Some current)
              else ((g1, visited1,
                     fold (\<lambda>neighbor fr. updateNeighbor g1 neighbor current fr targetNode)
                       (adjacentCells g1 current) own1), None)
         else ((g, visited, own1), None))"

partial_function (option) swarm_loop ::
  "pos \<Rightarrow> pos \<Rightarrow> grid \<Rightarrow> pos list \<Rightarrow> frontier \<Rightarrow> frontier \<Rightarrow> run option" where
  "swarm_loop startNode finishNode g visited S F =
     (if openSet S \<noteq> [] \<and> openSet F \<noteq> []
      then
        (case expandSide g visited S F finishNode of
           ((g1, visited1, S1), Some meetingNode) \<Rightarrow>
             map_option
               (\<lambda>path. \<lparr>final = g1, visitedNodesInOrder = visited1,
                         nodesInShortestPathOrder = path\<rparr>)
               (reconstructBidirectionalPathRevisited meetingNode (parents S1) (parents F)
                  startNode finishNode)
         | ((g1, visited1, S1), None) \<Rightarrow>
             (case expandSide g1 visited1 F S1 startNode of
                ((g2, visited2, F1), Some meetingNode) \<Rightarrow>
                  map_option
                    (\<lambda>path. \<lparr>final = g2, visitedNodesInOrder = visited2,
                              nodesInShortestPathOrder = path\<rparr>)
                    (reconstructBidirectionalPathRevisited meetingNode (parents S1) (parents F1)
                       startNode finishNode)
              | ((g2, visited2, F1), None) \<Rightarrow>
                  swarm_loop startNode finishNode g2 visited2 S1 F1))
      else Some \<lparr>final = g, visitedNodesInOrder = visited, nodesInShortestPathOrder = []\<rparr>)"

declare swarm_loop.simps [code]

definition bidirectionalSwarm :: "grid \<Rightarrow> pos \<Rightarrow> pos \<Rightarrow> run option" where
  "bidirectionalSwarm g startNode finishNode =
     swarm_loop startNode finishNode g []
       \<lparr>openSet = [startNode], parents = [startNode \<mapsto> startNode],
        gScore = [startNode \<mapsto> 0],
        fScore = [startNode \<mapsto> enat (getManhattanDistance startNode finishNode)]\<rparr>
       \<lparr>openSet = [finishNode], parents = [finishNode \<mapsto> finishNode],
        gScore = [finishNode \<mapsto> 0],
        fScore = [finishNode \<mapsto> enat (getManhattanDistance finishNode startNode)]\<rparr>"

section \<open>BMSSP\<close>

text \<open>\<open>getNeighbors\<close> of the BMSSP module: the adjacent cells that are not walls.\<close>

definition getNeighbors :: "pos \<Rightarrow> grid \<Rightarrow> pos list" where
  "getNeighbors node g = filter (\<lambda>n. \<not> isWall (cells g n)) (adjacentCells g node)"

text \<open>A JavaScript \<open>Set\<close> of nodes keeps insertion order and no duplicates: a list with
  \<open>set_add\<close> for \<open>add\<close>, \<open>newSet\<close> for \<open>new Set(S)\<close>, \<open>length\<close> for \<open>size\<close>.\<close>

definition set_add :: "pos \<Rightarrow> pos list \<Rightarrow> pos list" where
  "set_add x xs = (if x \<in> set xs then xs else xs @ [x])"

definition newSet :: "pos list \<Rightarrow> pos list" where
  "newSet S = fold set_add S []"

subsection \<open>MinHeap\<close>

type_synonym heap = "(pos \<times> enat) list"

function bubbleUp_loop :: "pos \<times> enat \<Rightarrow> heap \<Rightarrow> nat \<Rightarrow> heap" where
  "bubbleUp_loop element elements n =
     (if n > 0
      then
        let parentIdx = (n + 1) div 2 - 1;
            parent = elements ! parentIdx
        in if snd element \<ge> snd parent then elements
           else bubbleUp_loop element (elements[parentIdx := element, n := parent]) parentIdx
      else elements)"
  by pat_completeness auto

definition bubbleUp :: "heap \<Rightarrow> nat \<Rightarrow> heap" where
  "bubbleUp elements n = bubbleUp_loop (elements ! n) elements n"

function bubbleDown_loop :: "pos \<times> enat \<Rightarrow> heap \<Rightarrow> nat \<Rightarrow> heap" where
  "bubbleDown_loop element elements n =
     (let len = length elements;
          child2N = (n + 1) * 2;
          child1N = child2N - 1;
          swap1 = (if child1N < len \<and> snd (elements ! child1N) < snd element
                   then Some child1N else None);
          swap2 = (if child2N < len \<and>
                      snd (elements ! child2N) <
                        (case swap1 of None \<Rightarrow> snd element | Some _ \<Rightarrow> snd (elements ! child1N))
                   then Some child2N else swap1)
      in case swap2 of
           None \<Rightarrow> elements
         | Some swap \<Rightarrow> bubbleDown_loop element (elements[n := elements ! swap, swap := element]) swap)"
  by pat_completeness auto

definition bubbleDown :: "heap \<Rightarrow> nat \<Rightarrow> heap" where
  "bubbleDown elements n = bubbleDown_loop (elements ! n) elements n"

definition heap_push :: "heap \<Rightarrow> pos \<Rightarrow> enat \<Rightarrow> heap" where
  "heap_push elements node d = bubbleUp (elements @ [(node, d)]) (length elements)"

definition heap_pop :: "heap \<Rightarrow> (pos \<times> enat) option \<times> heap" where
  "heap_pop elements =
     (if elements = [] then (None, elements)
      else
        let minElem = hd elements;
            endElem = last elements;
            elements1 = butlast elements
        in if elements1 \<noteq> [] then (Some minElem, bubbleDown (elements1[0 := endElem]) 0)
           else (Some minElem, elements1))"

definition heap_contains :: "heap \<Rightarrow> pos \<Rightarrow> bool" where
  "heap_contains elements node = list_ex (\<lambda>e. fst e = node) elements"

fun findIndex :: "('a \<Rightarrow> bool) \<Rightarrow> 'a list \<Rightarrow> nat option" where
  "findIndex P [] = None"
| "findIndex P (x # xs) = (if P x then Some 0 else map_option Suc (findIndex P xs))"

definition heap_decreaseKey :: "heap \<Rightarrow> pos \<Rightarrow> enat \<Rightarrow> heap" where
  "heap_decreaseKey elements node d =
     (case findIndex (\<lambda>e. fst e = node) elements of
        None \<Rightarrow> elements
      | Some idx \<Rightarrow>
          if d < snd (elements ! idx)
          then bubbleUp (elements[idx := (fst (elements ! idx), d)]) idx
          else elements)"

subsection \<open>StructureD\<close>

record structureD =
  items :: "(pos \<times> enat) list"
  d_M :: nat
  d_B :: enat

definition D_initialize :: "nat \<Rightarrow> enat \<Rightarrow> structureD" where
  "D_initialize M B = \<lparr>items = [], d_M = M, d_B = B\<rparr>"

function binaryInsertionIndex :: "(pos \<times> enat) list \<Rightarrow> enat \<Rightarrow> nat \<Rightarrow> nat \<Rightarrow> nat" where
  "binaryInsertionIndex its val low high =
     (if low < high
      then
        let mid = (low + high) div 2
        in if snd (its ! mid) < val then binaryInsertionIndex its val (mid + 1) high
           else binaryInsertionIndex its val low mid
      else low)"
  by pat_completeness auto

definition D_insert :: "structureD \<Rightarrow> pos \<Rightarrow> enat \<Rightarrow> structureD" where
  "D_insert D node val =
     (let spliceIn = (\<lambda>its.
            let low = binaryInsertionIndex its val 0 (length its)
            in take low its @ [(node, val)] @ drop low its)
      in case findIndex (\<lambda>i. fst i = node) (items D) of
           Some existingIdx \<Rightarrow>
             if snd (items D ! existingIdx) > val
             then D\<lparr>items := spliceIn (take existingIdx (items D) @ drop (Suc existingIdx) (items D))\<rparr>
             else D
         | None \<Rightarrow> D\<lparr>items := spliceIn (items D)\<rparr>)"

definition D_pull :: "structureD \<Rightarrow> (enat \<times> pos list) \<times> structureD" where
  "D_pull D =
     (if items D = [] then ((d_B D, []), D)
      else
        let count = min (length (items D)) (d_M D);
            subset = take count (items D);
            rest = drop count (items D);
            Bi = (if rest = [] then d_B D else snd (hd rest))
        in ((Bi, map fst subset), D\<lparr>items := rest\<rparr>))"

definition D_batchPrepend :: "structureD \<Rightarrow> (pos \<times> enat) list \<Rightarrow> structureD" where
  "D_batchPrepend D its = fold (\<lambda>item D'. D_insert D' (fst item) (snd item)) its D"

definition D_isEmpty :: "structureD \<Rightarrow> bool" where
  "D_isEmpty D = (items D = [])"

subsection \<open>The module-scoped state\<close>

text \<open>The module variables \<open>gridRef\<close> and \<open>visitedNodesInOrder\<close> are threaded through every
  procedure; \<open>k_param\<close> and \<open>t_param\<close>, constant during a run, are arguments.\<close>

record ctx =
  gridRef :: grid
  visitedList :: "pos list"

definition relaxTo :: "pos \<Rightarrow> pos \<Rightarrow> grid \<Rightarrow> grid" where
  "relaxTo u v g = setPreviousNode v (Some u) (setDistance v (distance (cells g u) + 1) g)"

definition markVisited :: "pos \<Rightarrow> ctx \<Rightarrow> ctx" where
  "markVisited node c =
     (if \<not> isVisited (cells (gridRef c) node)
      then \<lparr>gridRef = setIsVisited node True (gridRef c), visitedList = visitedList c @ [node]\<rparr>
      else c)"

subsection \<open>Algorithm 1: FindPivots\<close>

fun findPivots_relax :: "enat \<Rightarrow> pos \<Rightarrow> pos \<Rightarrow> ctx \<times> pos list \<Rightarrow> ctx \<times> pos list" where
  "findPivots_relax B u v (c, W_curr) =
     (let g = gridRef c in
      if distance (cells g u) + 1 \<le> distance (cells g v)
      then
        let g1 = relaxTo u v g;
            trace1 = (if \<not> isVisited (cells g1 v) then visitedList c @ [v] else visitedList c);
            W_curr1 = (if distance (cells g1 v) < B then set_add v W_curr else W_curr)
        in (\<lparr>gridRef = g1, visitedList = trace1\<rparr>, W_curr1)
      else (c, W_curr))"

definition findPivots_scan :: "enat \<Rightarrow> pos \<Rightarrow> ctx \<times> pos list \<Rightarrow> ctx \<times> pos list" where
  "findPivots_scan B u s = fold (findPivots_relax B u) (getNeighbors u (gridRef (fst s))) s"

definition mergeInto :: "pos \<Rightarrow> pos list \<times> pos list \<Rightarrow> pos list \<times> pos list" where
  "mergeInto node s =
     (case s of (W, W_list) \<Rightarrow>
        if node \<notin> set W then (W @ [node], W_list @ [node]) else (W, W_list))"

fun findPivots_loop ::
  "nat \<Rightarrow> nat \<Rightarrow> enat \<Rightarrow> pos list \<Rightarrow> ctx \<Rightarrow> pos list \<Rightarrow> pos list \<Rightarrow> pos list \<Rightarrow> ctx \<times> pos list" where
  "findPivots_loop 0 k B S c W W_prev W_list = (c, W_list)"
| "findPivots_loop (Suc i) k B S c W W_prev W_list =
     (case fold (findPivots_scan B) W_prev (c, []) of
        (c1, W_curr) \<Rightarrow>
          (case fold mergeInto W_curr (W, W_list) of
             (W1, W_list1) \<Rightarrow>
               if length W1 > k * length S then (c1, W_list1)
               else if W_curr = [] then (c1, W_list1)
               else findPivots_loop i k B S c1 W1 W_curr W_list1))"

text \<open>The result is \<open>{P: S, W: W_list}\<close> on every path.\<close>

definition findPivots :: "nat \<Rightarrow> enat \<Rightarrow> pos list \<Rightarrow> ctx \<Rightarrow> (pos list \<times> pos list) \<times> ctx" where
  "findPivots k B S c =
     (case findPivots_loop k k B S c (newSet S) (newSet S) S of
        (c1, W_list) \<Rightarrow> ((S, W_list), c1))"

subsection \<open>Algorithm 2: BaseCase\<close>

fun baseCase_relax :: "enat \<Rightarrow> pos \<Rightarrow> pos \<Rightarrow> ctx \<times> heap \<Rightarrow> ctx \<times> heap" where
  "baseCase_relax B u v (c, h) =
     (let g = gridRef c in
      if distance (cells g u) + 1 \<le> distance (cells g v) \<and> distance (cells g u) + 1 < B
      then
        let g1 = relaxTo u v g;
            c1 = \<lparr>gridRef = g1, visitedList = visitedList c @ [v]\<rparr>
        in (c1, if heap_contains h v then heap_decreaseKey h v (distance (cells g1 v))
                else heap_push h v (distance (cells g1 v)))
      else (c, h))"

partial_function (option) baseCase_loop ::
  "nat \<Rightarrow> enat \<Rightarrow> ctx \<Rightarrow> heap \<Rightarrow> pos list \<Rightarrow> (ctx \<times> pos list) option" where
  "baseCase_loop k B c h U0 =
     (if h \<noteq> [] \<and> length U0 < k + 1
      then
        (case heap_pop h of
           (None, h1) \<Rightarrow> Some (c, U0)
         | (Some (u, d), h1) \<Rightarrow>
             if d \<ge> B then Some (c, U0)
             else
               (let U1 = set_add u U0;
                    c1 = markVisited u c
                in case fold (baseCase_relax B u) (getNeighbors u (gridRef c1)) (c1, h1) of
                     (c2, h2) \<Rightarrow> baseCase_loop k B c2 h2 U1))
      else Some (c, U0))"

declare baseCase_loop.simps [code]

definition maxFiniteDistance :: "grid \<Rightarrow> pos list \<Rightarrow> enat" where
  "maxFiniteDistance g U0 =
     fold (\<lambda>node maxDist.
             if distance (cells g node) > maxDist \<and> distance (cells g node) \<noteq> \<infinity>
             then distance (cells g node) else maxDist) U0 0"

definition baseCase_result :: "nat \<Rightarrow> enat \<Rightarrow> grid \<Rightarrow> pos list \<Rightarrow> enat \<times> pos list" where
  "baseCase_result k B g U0 =
     (if length U0 \<le> k then (B, U0)
      else
        let maxDist = maxFiniteDistance g U0
        in (maxDist, filter (\<lambda>n. distance (cells g n) < maxDist) U0))"

definition baseCase :: "nat \<Rightarrow> enat \<Rightarrow> pos list \<Rightarrow> ctx \<Rightarrow> ((enat \<times> pos list) \<times> ctx) option" where
  "baseCase k B S c =
     Option.bind
       (baseCase_loop k B c
          (fold (\<lambda>node h. heap_push h node (distance (cells (gridRef c) node))) S [])
          (newSet S))
       (\<lambda>r. Some (baseCase_result k B (gridRef (fst r)) (snd r), fst r))"

subsection \<open>Algorithm 3: BMSSPRecursive\<close>

fun bmssp_relax ::
  "enat \<Rightarrow> enat \<Rightarrow> enat \<Rightarrow> pos \<Rightarrow> pos \<Rightarrow> ctx \<times> structureD \<times> (pos \<times> enat) list
     \<Rightarrow> ctx \<times> structureD \<times> (pos \<times> enat) list" where
  "bmssp_relax B Bi B_prime_i u v (c, D, K) =
     (let g = gridRef c in
      if distance (cells g u) + 1 \<le> distance (cells g v)
      then
        let g1 = relaxTo u v g;
            c1 = c\<lparr>gridRef := g1\<rparr>;
            newDist = distance (cells g1 v)
        in if newDist \<ge> Bi \<and> newDist < B then (c1, D_insert D v newDist, K)
           else if newDist \<ge> B_prime_i \<and> newDist < Bi then (c1, D, K @ [(v, newDist)])
           else (c1, D, K)
      else (c, D, K))"

definition bmssp_scan ::
  "enat \<Rightarrow> enat \<Rightarrow> enat \<Rightarrow> pos \<Rightarrow> ctx \<times> structureD \<times> (pos \<times> enat) list
     \<Rightarrow> ctx \<times> structureD \<times> (pos \<times> enat) list" where
  "bmssp_scan B Bi B_prime_i u s =
     fold (bmssp_relax B Bi B_prime_i u) (getNeighbors u (gridRef (fst s))) s"

definition addAndMark :: "pos \<Rightarrow> ctx \<times> pos list \<Rightarrow> ctx \<times> pos list" where
  "addAndMark node s = (markVisited node (fst s), set_add node (snd s))"

text \<open>One round of the \<open>while\<close> loop after \<open>D.pull()\<close> and the recursive call have returned.\<close>

definition bmssp_round ::
  "enat \<Rightarrow> enat \<Rightarrow> pos list \<Rightarrow> enat \<Rightarrow> pos list \<Rightarrow> ctx \<Rightarrow> structureD \<Rightarrow> pos list
     \<Rightarrow> ctx \<times> structureD \<times> pos list \<times> enat" where
  "bmssp_round B Bi Si B_prime_i Ui c D U =
     (case fold addAndMark Ui (c, U) of
        (c1, U1) \<Rightarrow>
          (case fold (bmssp_scan B Bi B_prime_i) Ui (c1, D, []) of
             (c2, D2, K) \<Rightarrow>
               let prependList =
                     K @ map (\<lambda>x. (x, distance (cells (gridRef c2) x)))
                           (filter (\<lambda>x. distance (cells (gridRef c2) x) \<ge> B_prime_i \<and>
                                        distance (cells (gridRef c2) x) < Bi) Si)
               in (c2, D_batchPrepend D2 prependList, U1, min B_prime_i B)))"

partial_function (option) bmssp_while ::
  "(enat \<Rightarrow> pos list \<Rightarrow> ctx \<Rightarrow> ((enat \<times> pos list) \<times> ctx) option) \<Rightarrow> nat \<Rightarrow> enat \<Rightarrow>
     ctx \<Rightarrow> structureD \<Rightarrow> pos list \<Rightarrow> enat \<Rightarrow> (ctx \<times> pos list \<times> enat) option" where
  "bmssp_while rec sizeLimit B c D U B_prime =
     (if length U < sizeLimit \<and> \<not> D_isEmpty D
      then
        (case D_pull D of
           ((Bi, Si), D1) \<Rightarrow>
             Option.bind (rec Bi Si c)
               (\<lambda>r. case bmssp_round B Bi Si (fst (fst r)) (snd (fst r)) (snd r) D1 U of
                       (c2, D2, U2, B_prime2) \<Rightarrow> bmssp_while rec sizeLimit B c2 D2 U2 B_prime2))
      else Some (c, U, B_prime))"

declare bmssp_while.simps [code]

definition addWitness :: "enat \<Rightarrow> pos \<Rightarrow> ctx \<times> pos list \<Rightarrow> ctx \<times> pos list" where
  "addWitness B_prime x s =
     (if distance (cells (gridRef (fst s)) x) < B_prime then addAndMark x s else s)"

definition minDistance :: "grid \<Rightarrow> pos list \<Rightarrow> enat" where
  "minDistance g P =
     fold (\<lambda>x B_prime. if distance (cells g x) < B_prime then distance (cells g x) else B_prime) P \<infinity>"

fun bmsspRecursive ::
  "nat \<Rightarrow> nat \<Rightarrow> nat \<Rightarrow> enat \<Rightarrow> pos list \<Rightarrow> ctx \<Rightarrow> ((enat \<times> pos list) \<times> ctx) option" where
  "bmsspRecursive k t 0 B S c = baseCase k B S c"
| "bmsspRecursive k t (Suc l) B S c =
     (case findPivots k B S c of
        ((P, W), c1) \<Rightarrow>
          let D0 = D_initialize (2 ^ (l * t)) B;
              D1 = fold (\<lambda>x D. D_insert D x (distance (cells (gridRef c1) x))) P D0;
              B_prime0 = (if P = [] then B else minDistance (gridRef c1) P);
              sizeLimit = k * 2 ^ (Suc l * t)
          in Option.bind
               (bmssp_while (\<lambda>Bi Si c'. bmsspRecursive k t l Bi Si c') sizeLimit B c1 D1 [] B_prime0)
               (\<lambda>r. case r of
                       (c2, U, B_prime) \<Rightarrow>
                         (case fold (addWitness B_prime) W (c2, U) of
                            (c3, U3) \<Rightarrow> Some ((B_prime, U3), c3))))"

text \<open>
  \<open>bmssp\<close>. The source derives \<open>k_param\<close>, \<open>t_param\<close> and the depth \<open>l\<close> from the number of
  nodes in floating point (\<open>Math.log2\<close>, \<open>Math.pow\<close> with exponents 1/3 and 2/3); they
  are arguments here. For two nodes \<open>Math.log2\<close> is exactly 1, which gives
  \<open>k_param = 2\<close>, \<open>t_param = 2\<close>, \<open>l = 1\<close>.
\<close>

definition resetNode :: "NodeData \<Rightarrow> NodeData" where
  "resetNode n = n\<lparr>distance := \<infinity>, isVisited := False, previousNode := None\<rparr>"

definition resetAll :: "grid \<Rightarrow> grid" where
  "resetAll g = g\<lparr>cells := (\<lambda>p. if in_grid g p then resetNode (cells g p) else cells g p)\<rparr>"

definition bmssp :: "nat \<Rightarrow> nat \<Rightarrow> nat \<Rightarrow> grid \<Rightarrow> pos \<Rightarrow> pos \<Rightarrow> run option" where
  "bmssp k_param t_param l g startNode finishNode =
     Option.bind
       (bmsspRecursive k_param t_param l \<infinity> [startNode]
          \<lparr>gridRef = setDistance startNode 0 (resetAll g), visitedList = []\<rparr>)
       (\<lambda>r. let c = snd r in
             if distance (cells (gridRef c) finishNode) \<noteq> \<infinity>
             then map_option
                    (\<lambda>path. \<lparr>final = gridRef c, visitedNodesInOrder = visitedList c,
                              nodesInShortestPathOrder = path\<rparr>)
                    (walkPrevious (gridRef c) (Some finishNode) [])
             else Some \<lparr>final = gridRef c, visitedNodesInOrder = visitedList c,
                        nodesInShortestPathOrder = []\<rparr>)"

section \<open>Measures for the main loops\<close>

text \<open>The cells that a loop started with the open array \<open>openSet\<close> can ever touch lie in a
  box that contains the grid and the open array; the unvisited cells of the box shrink
  with every node that is closed.\<close>

definition reach_box :: "grid \<Rightarrow> pos list \<Rightarrow> pos set" where
  "reach_box g os =
     {p. fst p \<le> Max (insert (rows g) (fst ` set os)) \<and>
         snd p \<le> Max (insert (cols g) (snd ` set os))}"

definition unvisited_in :: "grid \<Rightarrow> pos list \<Rightarrow> nat" where
  "unvisited_in g os = card {p \<in> reach_box g os. \<not> isVisited (cells g p)}"

section \<open>Reading off a result\<close>

definition pathOf :: "run option \<Rightarrow> pos list option" where
  "pathOf r = map_option nodesInShortestPathOrder r"

definition visitedOf :: "run option \<Rightarrow> pos list option" where
  "visitedOf r = map_option visitedNodesInOrder r"

text \<open>The scenario of the adjacent start and finish: the run returns, its path has exactly
  two nodes and its visitation trace at most two.\<close>

definition scenario_ok :: "run option \<Rightarrow> bool" where
  "scenario_ok r =
     (case r of
        None \<Rightarrow> False
      | Some x \<Rightarrow> length (nodesInShortestPathOrder x) = 2 \<and> length (visitedNodesInOrder x) \<le> 2)"

text \<open>The finite distances found among the nodes of a list.\<close>

definition finiteDistances :: "grid \<Rightarrow> pos list \<Rightarrow> enat set" where
  "finiteDistances g U0 = {d. \<exists>n \<in> set U0. d = distance (cells g n) \<and> d \<noteq> \<infinity>}"

text \<open>The second grid differs from the first in \<open>isVisited\<close> flags at most.\<close>

definition only_visited_changed :: "grid \<Rightarrow> grid \<Rightarrow> bool" where
  "only_visited_changed g g' =
     (rows g' = rows g \<and> cols g' = cols g \<and>
      (\<forall>p. cells g' p = (cells g p)\<lparr>isVisited := isVisited (cells g' p)\<rparr>))"

section \<open>Concrete states\<close>

text \<open>The grid of two rows and two columns in the state BaseCase is in after it has closed
  the start and the cell below it: both neighbours of the start at distance 1, the far
  corner reached from \<open>(1, 0)\<close> at distance 2.\<close>

definition reparent_state :: ctx where
  "reparent_state =
     \<lparr>gridRef = setPreviousNode (1, 1) (Some (1, 0)) (setDistance (1, 1) 2
                  (setPreviousNode (0, 1) (Some (0, 0)) (setDistance (0, 1) 1
                  (setPreviousNode (1, 0) (Some (0, 0)) (setDistance (1, 0) 1
                  (setDistance (0, 0) 0 (getInitialGrid 2 2 (0, 0) (1, 1)))))))),
      visitedList = []\<rparr>"

text \<open>One row, two columns; the left cell at distance 0, the right one at distance 1.\<close>

definition two_cells :: grid where
  "two_cells = setDistance (0, 1) 1 (setDistance (0, 0) 0 (getInitialGrid 1 2 (0, 0) (0, 1)))"

section \<open>Notions used by the proofs\<close>

text \<open>How a loop of the Dijkstra family leaves: the open array is empty, or (Dijkstra only)
  its first node is at infinite distance, or the finish node is closed.\<close>

definition exit_empty :: "grid \<Rightarrow> pos list \<Rightarrow> run \<Rightarrow> bool" where
  "exit_empty g vis r = (r = \<lparr>final = g, visitedNodesInOrder = vis, nodesInShortestPathOrder = []\<rparr>)"

definition exit_found :: "pos \<Rightarrow> grid \<Rightarrow> pos list \<Rightarrow> pos \<Rightarrow> run \<Rightarrow> bool" where
  "exit_found f g vis c r =
     (c = f \<and> \<not> isWall (cells g c) \<and> \<not> isVisited (cells g c) \<and>
      (\<exists>path. getNodesInShortestPathOrder (setIsVisited c True g) f = Some path \<and>
         r = \<lparr>final = setIsVisited c True g, visitedNodesInOrder = vis @ [c],
               nodesInShortestPathOrder = path\<rparr>))"

definition dijkstra_exit :: "pos \<times> grid \<times> pos list \<times> pos list \<Rightarrow> run \<Rightarrow> bool" where
  "dijkstra_exit st r =
     (case st of (f, g, os, vis) \<Rightarrow>
        (case sortNodesByDistance g os of
           [] \<Rightarrow> exit_empty g vis r
         | c # rest \<Rightarrow>
             \<not> isWall (cells g c) \<and>
             (if distance (cells g c) = \<infinity> then exit_empty g vis r
              else exit_found f g vis c r)))"

definition astar_exit :: "pos \<times> grid \<times> pos list \<times> pos list \<Rightarrow> run \<Rightarrow> bool" where
  "astar_exit st r =
     (case st of (f, g, os, vis) \<Rightarrow>
        (case sortNodesByTotalDistance g os of
           [] \<Rightarrow> exit_empty g vis r
         | c # rest \<Rightarrow> exit_found f g vis c r))"

definition greedy_exit :: "pos \<times> grid \<times> pos list \<times> pos list \<Rightarrow> run \<Rightarrow> bool" where
  "greedy_exit st r =
     (case st of (f, g, os, vis) \<Rightarrow>
        (case sortNodesByHeuristic g os of
           [] \<Rightarrow> exit_empty g vis r
         | c # rest \<Rightarrow> exit_found f g vis c r))"

text \<open>
  An elementary change of the grid. A relaxation takes a neighbour \<open>v\<close> of \<open>u\<close> (as the
  enumeration \<open>nb\<close> yields it) whose recorded distance is not below the tentative one,
  records the tentative distance and \<open>u\<close> as predecessor, and may rewrite the heuristic
  fields of \<open>v\<close>; closing marks a node of finite distance as visited.
\<close>

inductive grid_step :: "(grid \<Rightarrow> pos \<Rightarrow> pos list) \<Rightarrow> grid \<Rightarrow> grid \<Rightarrow> bool"
  for nb :: "grid \<Rightarrow> pos \<Rightarrow> pos list" where
  relax: "\<lbrakk>v \<in> set (nb g u); distance (cells g u) + 1 \<le> distance (cells g v);
           distance n = distance (cells g u) + 1; previousNode n = Some u;
           isVisited n = isVisited (cells g v); isWall n = isWall (cells g v)\<rbrakk>
          \<Longrightarrow> grid_step nb g (g\<lparr>cells := (cells g)(v := n)\<rparr>)"
| close: "distance (cells g n) \<noteq> \<infinity> \<Longrightarrow> grid_step nb g (setIsVisited n True g)"

definition nonWallNeighbors :: "grid \<Rightarrow> pos \<Rightarrow> pos list" where
  "nonWallNeighbors g u = getNeighbors u g"

abbreviation stepsB :: "grid \<Rightarrow> grid \<Rightarrow> bool" where
  "stepsB \<equiv> (grid_step nonWallNeighbors)\<^sup>*\<^sup>*"

text \<open>Every node of the set has a finite distance.\<close>

definition finiteAt :: "grid \<Rightarrow> pos set \<Rightarrow> bool" where
  "finiteAt g X = (\<forall>n\<in>X. distance (cells g n) \<noteq> \<infinity>)"

text \<open>The arguments of one round of a loop of the Dijkstra family: finish node, grid, open
  array, visitation trace. Between two rounds the wall flags are the same, and a wall is
  neither marked visited nor appended to the trace.\<close>

type_synonym loop_state = "pos \<times> grid \<times> pos list \<times> pos list"

definition walls_kept :: "loop_state \<Rightarrow> loop_state \<Rightarrow> bool" where
  "walls_kept x y =
     (\<forall>p. isWall (cells (fst (snd y)) p) = isWall (cells (fst (snd x)) p) \<and>
          (isWall (cells (fst (snd x)) p) \<longrightarrow>
             isVisited (cells (fst (snd y)) p) = isVisited (cells (fst (snd x)) p) \<and>
             (p \<in> set (snd (snd (snd y))) \<longrightarrow> p \<in> set (snd (snd (snd x))))))"

text \<open>A field of a node in the grid as a run leaves it.\<close>

definition fieldAfter :: "(NodeData \<Rightarrow> 'a) \<Rightarrow> pos \<Rightarrow> run option \<Rightarrow> 'a option" where
  "fieldAfter fld p r = map_option (\<lambda>x. fld (cells (final x) p)) r"

text \<open>One row, three columns, a wall in the middle.\<close>

definition walled_corridor :: grid where
  "walled_corridor = withWalls [(0, 1)] (getInitialGrid 1 3 (0, 0) (0, 2))"

text \<open>Two cells are 4-adjacent: they differ by one step in one coordinate.\<close>

definition adjacent4 :: "pos \<Rightarrow> pos \<Rightarrow> bool" where
  "adjacent4 a b = (getManhattanDistance a b = 1)"

section \<open>Predecessor chains\<close>

text \<open>Following \<open>previousNode\<close> links \<open>k\<close> times from a node; \<open>None\<close> when a link is null
  before that.\<close>

fun followPrev :: "grid \<Rightarrow> nat \<Rightarrow> pos \<Rightarrow> pos option" where
  "followPrev g 0 v = Some v"
| "followPrev g (Suc k) v =
     (case previousNode (cells g v) of None \<Rightarrow> None | Some u \<Rightarrow> followPrev g k u)"

text \<open>Some number of links, at most \<open>n\<close>, leads from \<open>v\<close> to \<open>s\<close>.\<close>

definition reachesWithin :: "grid \<Rightarrow> pos \<Rightarrow> pos \<Rightarrow> nat \<Rightarrow> bool" where
  "reachesWithin g s v n = list_ex (\<lambda>k. followPrev g k v = Some s) [0..<Suc n]"

text \<open>Every visited node is linked to \<open>s\<close> within the number of cells of the grid, and the
  loop that walks the links from it returns.\<close>

definition rooted :: "grid \<Rightarrow> pos \<Rightarrow> bool" where
  "rooted g s =
     (\<forall>v. isVisited (cells g v) \<longrightarrow>
          reachesWithin g s v (rows g * cols g) \<and> walkPrevious g (Some v) [] \<noteq> None)"

text \<open>The caller's reset: every node at infinite distance, unvisited, without
  predecessor.\<close>

definition fresh :: "grid \<Rightarrow> bool" where
  "fresh g =
     (\<forall>p. distance (cells g p) = \<infinity> \<and> \<not> isVisited (cells g p) \<and> previousNode (cells g p) = None)"

text \<open>The invariant of the links: the source is at distance 0 without predecessor; every
  other node of finite distance lies in the grid and has a predecessor at a smaller
  distance; every visited node has a finite distance.\<close>

definition chain_inv :: "grid \<Rightarrow> pos \<Rightarrow> bool" where
  "chain_inv g s =
     (distance (cells g s) = 0 \<and> previousNode (cells g s) = None \<and> in_grid g s \<and>
      (\<forall>v. distance (cells g v) \<noteq> \<infinity> \<and> v \<noteq> s \<longrightarrow>
           in_grid g v \<and>
           (\<exists>u. previousNode (cells g v) = Some u \<and>
                distance (cells g u) + 1 \<le> distance (cells g v))) \<and>
      (\<forall>v. isVisited (cells g v) \<longrightarrow> distance (cells g v) \<noteq> \<infinity>))"

text \<open>A visited node that is not linked to \<open>s\<close> within the number of cells.\<close>

definition unrooted :: "pos \<Rightarrow> pos \<Rightarrow> grid \<Rightarrow> bool" where
  "unrooted s v g = (isVisited (cells g v) \<and> \<not> reachesWithin g s v (rows g * cols g))"

definition afterRun :: "(grid \<Rightarrow> bool) \<Rightarrow> run option \<Rightarrow> bool" where
  "afterRun P r = (case r of None \<Rightarrow> False | Some x \<Rightarrow> P (final x))"

abbreviation stepsA :: "grid \<Rightarrow> grid \<Rightarrow> bool" where
  "stepsA \<equiv> (grid_step adjacentCells)\<^sup>*\<^sup>*"


text \<open>The state in which each of the three loops is entered: the assignments to the start
  node that precede \<open>while (openSet.length > 0)\<close>, the open array \<open>[startNode]\<close> and the
  empty visitation trace.\<close>

definition dijkstra_entry :: "grid \<Rightarrow> pos \<Rightarrow> pos \<Rightarrow> loop_state" where
  "dijkstra_entry g startNode finishNode = (finishNode, setDistance startNode 0 g, [startNode], [])"

definition astar_entry :: "grid \<Rightarrow> pos \<Rightarrow> pos \<Rightarrow> loop_state" where
  "astar_entry g startNode finishNode =
     (let g1 = setDistance startNode 0 g;
          g2 = setHeuristicDistance startNode (enat (getManhattanDistance startNode finishNode)) g1;
          g3 = setTotalDistance startNode
                 (distance (cells g2 startNode) + heuristicDistance (cells g2 startNode)) g2
      in (finishNode, g3, [startNode], []))"

definition greedy_entry :: "grid \<Rightarrow> pos \<Rightarrow> pos \<Rightarrow> loop_state" where
  "greedy_entry g startNode finishNode =
     (let g1 = setDistance startNode 0 g;
          g2 = setHeuristicDistance startNode (enat (getManhattanDistance startNode finishNode)) g1
      in (finishNode, g2, [startNode], []))"

text \<open>The grid on which the recursion of \<open>bmssp\<close> is entered.\<close>

definition bmssp_entry :: "grid \<Rightarrow> pos \<Rightarrow> grid" where
  "bmssp_entry g startNode = setDistance startNode 0 (resetAll g)"

section \<open>Shortest walks\<close>

text \<open>The cells in which the walks of \<open>n\<close> steps from \<open>s\<close> end, every step leading to a
  4-adjacent cell that is not a wall.\<close>

primrec walkEnds :: "grid \<Rightarrow> pos \<Rightarrow> nat \<Rightarrow> pos list" where
  "walkEnds g s 0 = [s]"
| "walkEnds g s (Suc n) = concat (map (\<lambda>u. getNeighbors u g) (walkEnds g s n))"

text \<open>The invariant of a search that closes nodes in the order of a key and relaxes the
  unvisited neighbours of the node it closes. \<open>P\<close> holds the pairs of a closed node and a
  neighbour that is still to be relaxed.\<close>

definition search_inv :: "grid \<Rightarrow> pos \<Rightarrow> pos list \<Rightarrow> (pos \<times> pos) set \<Rightarrow> bool" where
  "search_inv g s os P =
     (distance (cells g s) = 0 \<and> \<not> isWall (cells g s) \<and> previousNode (cells g s) = None \<and>
      (\<forall>x. distance (cells g x) \<noteq> \<infinity> \<and> \<not> isVisited (cells g x) \<and> \<not> isWall (cells g x)
           \<longrightarrow> x \<in> set os) \<and>
      (\<forall>v n. distance (cells g v) = enat n \<and> \<not> isWall (cells g v) \<longrightarrow> v \<in> set (walkEnds g s n)) \<and>
      (\<forall>v. v \<noteq> s \<and> distance (cells g v) \<noteq> \<infinity> \<longrightarrow>
           (\<exists>u. previousNode (cells g v) = Some u \<and> isVisited (cells g u) \<and>
                distance (cells g v) = distance (cells g u) + 1)) \<and>
      (\<forall>u. isVisited (cells g u) \<longrightarrow>
           \<not> isWall (cells g u) \<and> distance (cells g u) \<noteq> \<infinity> \<and>
           (\<forall>n. u \<in> set (walkEnds g s n) \<longrightarrow> distance (cells g u) \<le> enat n)) \<and>
      (\<forall>u x. isVisited (cells g u) \<and> x \<in> set (adjacentCells g u) \<and> \<not> isWall (cells g x) \<and>
             (u, x) \<notin> P \<longrightarrow> distance (cells g x) \<le> distance (cells g u) + 1) \<and>
      (\<forall>w\<in>set os. distance (cells g w) \<noteq> \<infinity>))"

text \<open>What one relaxation of the neighbour \<open>v\<close> of \<open>c\<close> does to the grid and the open
  array, in \<open>dijkstra\<close> and in \<open>astar\<close>.\<close>

definition relax_spec :: "pos \<Rightarrow> pos \<Rightarrow> grid \<times> pos list \<Rightarrow> grid \<times> pos list \<Rightarrow> bool" where
  "relax_spec c v s s' =
     (if distance (cells (fst s) c) + 1 < distance (cells (fst s) v)
      then rows (fst s') = rows (fst s) \<and> cols (fst s') = cols (fst s) \<and>
           (\<forall>p. p \<noteq> v \<longrightarrow> cells (fst s') p = cells (fst s) p) \<and>
           distance (cells (fst s') v) = distance (cells (fst s) c) + 1 \<and>
           previousNode (cells (fst s') v) = Some c \<and>
           isVisited (cells (fst s') v) = isVisited (cells (fst s) v) \<and>
           isWall (cells (fst s') v) = isWall (cells (fst s) v) \<and>
           set (snd s') = insert v (set (snd s))
      else s' = s)"

text \<open>In \<open>astar\<close> every node of finite distance carries its total and heuristic.\<close>

definition totals_ok :: "pos \<Rightarrow> grid \<Rightarrow> bool" where
  "totals_ok f g =
     (\<forall>w. distance (cells g w) \<noteq> \<infinity> \<longrightarrow>
          totalDistance (cells g w) = distance (cells g w) + enat (getManhattanDistance w f))"

text \<open>The path of a run is a shortest walk: it is empty when no walk leads from \<open>s\<close> to
  \<open>f\<close>, and otherwise has one node more than the least number of steps of such a walk.\<close>

definition shortest_path_run :: "grid \<Rightarrow> pos \<Rightarrow> pos \<Rightarrow> run option \<Rightarrow> bool" where
  "shortest_path_run g s f ro =
     (case ro of None \<Rightarrow> False
      | Some r \<Rightarrow>
          (nodesInShortestPathOrder r = [] \<and> (\<forall>n. f \<notin> set (walkEnds g s n))) \<or>
          (\<exists>L. length (nodesInShortestPathOrder r) = Suc L \<and> f \<in> set (walkEnds g s L) \<and>
               (\<forall>n. f \<in> set (walkEnds g s n) \<longrightarrow> L \<le> n)))"


text \<open>The invariant at the head of a round of the main loop of \<open>dijkstra\<close> or \<open>astar\<close> run
  on \<open>g0\<close>: the search invariant with no relaxation pending, the finish node not yet
  closed, and the shape and walls of \<open>g0\<close>.\<close>

definition search_state :: "grid \<Rightarrow> pos \<Rightarrow> loop_state \<Rightarrow> bool" where
  "search_state g0 s st =
     (case st of (f, g, os, vis) \<Rightarrow>
        search_inv g s os {} \<and> \<not> isVisited (cells g f) \<and>
        rows g = rows g0 \<and> cols g = cols g0 \<and>
        (\<forall>p. isWall (cells g p) = isWall (cells g0 p)))"

text \<open>Two rows, three columns, a wall between start and finish in the upper row.\<close>

definition detour :: grid where
  "detour = withWalls [(0, 1)] (getInitialGrid 2 3 (0, 0) (0, 2))"

section \<open>Measures for the loop of BaseCase\<close>

text \<open>The distance labels of a grid, and three quantities of a labelling on a finite set
  of cells \<open>R\<close>: the number of cells at infinite distance, the sum of the finite distances,
  and the weight of a heap, in which a node counts the more the smaller its distance is.\<close>

definition labels :: "grid \<Rightarrow> pos \<Rightarrow> enat" where
  "labels g p = distance (cells g p)"

definition finPart :: "enat \<Rightarrow> nat" where
  "finPart x = (case x of enat n \<Rightarrow> n | \<infinity> \<Rightarrow> 0)"

definition infCount :: "(pos \<Rightarrow> enat) \<Rightarrow> pos set \<Rightarrow> nat" where
  "infCount l R = card {p \<in> R. l p = \<infinity>}"

definition finSum :: "(pos \<Rightarrow> enat) \<Rightarrow> pos set \<Rightarrow> nat" where
  "finSum l R = (\<Sum>p\<in>R. finPart (l p))"

definition maxFin :: "(pos \<Rightarrow> enat) \<Rightarrow> pos set \<Rightarrow> nat" where
  "maxFin l R = Max (insert 0 ((\<lambda>p. finPart (l p)) ` R))"

definition nodeWeight :: "(pos \<Rightarrow> enat) \<Rightarrow> pos set \<Rightarrow> pos \<Rightarrow> nat" where
  "nodeWeight l R p = 5 ^ (maxFin l R - finPart (l p))"

definition heapWeight :: "(pos \<Rightarrow> enat) \<Rightarrow> pos set \<Rightarrow> heap \<Rightarrow> nat" where
  "heapWeight l R h = sum_list (map (\<lambda>e. nodeWeight l R (fst e)) h)"
section \<open>Termination of the loops\<close>

declare not_infinity_eq [iff del] split_paired_All [simp del] split_paired_Ex [simp del]

lemmas setters = setDistance_def setPreviousNode_def setIsVisited_def setHeuristicDistance_def
  setTotalDistance_def

lemma finite_reach_box: "finite (reach_box g os)"
proof -
  have "reach_box g os \<subseteq> {..Max (insert (rows g) (fst ` set os))} \<times> {..Max (insert (cols g) (snd ` set os))}"
    by (auto simp: reach_box_def)
  then show ?thesis by (rule finite_subset) simp
qed

lemma reach_box_member: "p \<in> set os \<Longrightarrow> p \<in> reach_box g os"
  by (simp add: reach_box_def)

lemma reach_box_iff:
  "p \<in> reach_box g os \<longleftrightarrow>
     (fst p \<le> rows g \<or> (\<exists>q\<in>set os. fst p \<le> fst q)) \<and>
     (snd p \<le> cols g \<or> (\<exists>q\<in>set os. snd p \<le> snd q))"
  by (auto simp: reach_box_def Max_ge_iff)

lemma adjacentCells_bound:
  "q \<in> set (adjacentCells g c) \<Longrightarrow>
     (fst q \<le> fst c \<or> fst q \<le> rows g) \<and> (snd q \<le> snd c \<or> snd q \<le> cols g)"
  by (cases c) (auto split: if_splits)

lemma reach_box_adjacent:
  assumes "c \<in> reach_box g os" shows "set (adjacentCells g c) \<subseteq> reach_box g os"
proof
  fix q assume "q \<in> set (adjacentCells g c)"
  from adjacentCells_bound[OF this] assms show "q \<in> reach_box g os"
    unfolding reach_box_iff by (meson order_trans)
qed

lemma reach_box_mono:
  assumes "rows g' = rows g" "cols g' = cols g" "set os' \<subseteq> reach_box g os"
  shows "reach_box g' os' \<subseteq> reach_box g os"
proof
  fix p assume p: "p \<in> reach_box g' os'"
  have a: "fst p \<le> rows g \<or> (\<exists>q\<in>set os. fst p \<le> fst q)"
  proof (cases "fst p \<le> rows g")
    case False
    with p assms obtain q where q: "q \<in> set os'" "fst p \<le> fst q" unfolding reach_box_iff by auto
    with assms(3) have "q \<in> reach_box g os" by auto
    with q False show ?thesis unfolding reach_box_iff by (meson order_trans)
  qed simp
  have b: "snd p \<le> cols g \<or> (\<exists>q\<in>set os. snd p \<le> snd q)"
  proof (cases "snd p \<le> cols g")
    case False
    with p assms obtain q where q: "q \<in> set os'" "snd p \<le> snd q" unfolding reach_box_iff by auto
    with assms(3) have "q \<in> reach_box g os" by auto
    with q False show ?thesis unfolding reach_box_iff by (meson order_trans)
  qed simp
  from a b show "p \<in> reach_box g os" unfolding reach_box_iff by simp
qed

lemma unvisited_in_continue:
  assumes "set rest \<subseteq> set os"
  shows "unvisited_in g rest \<le> unvisited_in g os"
proof -
  have "set rest \<subseteq> reach_box g os" using assms reach_box_member[of _ os g] by blast
  then have "reach_box g rest \<subseteq> reach_box g os" by (intro reach_box_mono) simp_all
  then show ?thesis unfolding unvisited_in_def
    by (intro card_mono) (auto simp: finite_reach_box)
qed

lemma unvisited_in_expand:
  assumes c: "c \<in> set os" "\<not> isVisited (cells g c)"
    and shape: "rows g' = rows g" "cols g' = cols g"
    and vis: "\<And>p. isVisited (cells g' p) = (p = c \<or> isVisited (cells g p))"
    and os': "set os' \<subseteq> set os \<union> set (adjacentCells g c)"
  shows "unvisited_in g' os' < unvisited_in g os"
proof -
  have cb: "c \<in> reach_box g os" using c(1) by (rule reach_box_member)
  have "set os' \<subseteq> reach_box g os"
    using os' reach_box_adjacent[OF cb] reach_box_member[of _ os g] by blast
  then have sub: "reach_box g' os' \<subseteq> reach_box g os" using shape by (intro reach_box_mono)
  have "{p \<in> reach_box g' os'. \<not> isVisited (cells g' p)} \<subset> {p \<in> reach_box g os. \<not> isVisited (cells g p)}"
    using sub cb c(2) vis by auto
  then show ?thesis unfolding unvisited_in_def
    by (intro psubset_card_mono) (simp_all add: finite_reach_box)
qed

lemma sort_head_set:
  assumes "sort_key f xs = c # rest"
  shows "c \<in> set xs" "set rest \<subseteq> set xs" "length rest < length xs"
proof -
  have "set (sort_key f xs) = set xs" "length (sort_key f xs) = length xs" by simp_all
  with assms show "c \<in> set xs" "set rest \<subseteq> set xs" "length rest < length xs" by auto
qed

lemma getUnvisitedNeighbors_subset:
  "set (getUnvisitedNeighbors c (setIsVisited c True g)) \<subseteq> set (adjacentCells g c)"
  by (cases c) (auto simp: getUnvisitedNeighbors_def setters)

text \<open>What each relaxation leaves alone: the shape of the grid, the wall and visited
  flags; and the open array only gains the relaxed neighbour.\<close>

lemma dijkstra_relax_shape:
  "rows (fst (dijkstra_relax u v s)) = rows (fst s)"
  "cols (fst (dijkstra_relax u v s)) = cols (fst s)"
  "isVisited (cells (fst (dijkstra_relax u v s)) p) = isVisited (cells (fst s) p)"
  "isWall (cells (fst (dijkstra_relax u v s)) p) = isWall (cells (fst s) p)"
  "set (snd (dijkstra_relax u v s)) \<subseteq> insert v (set (snd s))"
  by (cases s; auto simp: setters Let_def)+

lemma astar_relax_shape:
  "rows (fst (astar_relax f u v s)) = rows (fst s)"
  "cols (fst (astar_relax f u v s)) = cols (fst s)"
  "isVisited (cells (fst (astar_relax f u v s)) p) = isVisited (cells (fst s) p)"
  "isWall (cells (fst (astar_relax f u v s)) p) = isWall (cells (fst s) p)"
  "set (snd (astar_relax f u v s)) \<subseteq> insert v (set (snd s))"
  by (cases s; auto simp: setters Let_def)+

lemma greedy_relax_shape:
  "rows (fst (greedy_relax f u v s)) = rows (fst s)"
  "cols (fst (greedy_relax f u v s)) = cols (fst s)"
  "isVisited (cells (fst (greedy_relax f u v s)) p) = isVisited (cells (fst s) p)"
  "isWall (cells (fst (greedy_relax f u v s)) p) = isWall (cells (fst s) p)"
  "set (snd (greedy_relax f u v s)) \<subseteq> insert v (set (snd s))"
  by (cases s; auto simp: setters Let_def)+

lemma fold_shape:
  assumes "\<And>v s. rows (fst (step v s)) = rows (fst s)"
    and "\<And>v s. cols (fst (step v s)) = cols (fst s)"
    and "\<And>v s p. isVisited (cells (fst (step v s)) p) = isVisited (cells (fst s) p)"
    and "\<And>v s p. isWall (cells (fst (step v s)) p) = isWall (cells (fst s) p)"
    and "\<And>v s. set (snd (step v s)) \<subseteq> insert v (set (snd s))"
  shows "rows (fst (fold step vs s)) = rows (fst s)"
    and "cols (fst (fold step vs s)) = cols (fst s)"
    and "isVisited (cells (fst (fold step vs s)) p) = isVisited (cells (fst s) p)"
    and "isWall (cells (fst (fold step vs s)) p) = isWall (cells (fst s) p)"
    and "set (snd (fold step vs s)) \<subseteq> set vs \<union> set (snd s)"
proof -
  show "rows (fst (fold step vs s)) = rows (fst s)"
    by (induction vs arbitrary: s) (simp_all add: assms)
  show "cols (fst (fold step vs s)) = cols (fst s)"
    by (induction vs arbitrary: s) (simp_all add: assms)
  show "isVisited (cells (fst (fold step vs s)) p) = isVisited (cells (fst s) p)"
    by (induction vs arbitrary: s) (simp_all add: assms)
  show "isWall (cells (fst (fold step vs s)) p) = isWall (cells (fst s) p)"
    by (induction vs arbitrary: s) (simp_all add: assms)
  show "set (snd (fold step vs s)) \<subseteq> set vs \<union> set (snd s)"
  proof (induction vs arbitrary: s)
    case (Cons v vs)
    show ?case using Cons[of "step v s"] assms(5)[of v s] by auto
  qed simp
qed

lemmas dijkstra_fold_shape = fold_shape[of "dijkstra_relax u" for u, OF dijkstra_relax_shape]
lemmas astar_fold_shape = fold_shape[of "astar_relax f u" for f u, OF astar_relax_shape]
lemmas greedy_fold_shape = fold_shape[of "greedy_relax f u" for f u, OF greedy_relax_shape]

lemma loop_expand_decreases:
  assumes sorted: "sort_key key os = c # rest"
    and unv: "\<not> isVisited (cells g c)"
    and res: "(g2, os2) = fold step (getUnvisitedNeighbors c (setIsVisited c True g)) (setIsVisited c True g, rest)"
    and step: "\<And>v s. rows (fst (step v s)) = rows (fst s)"
      "\<And>v s. cols (fst (step v s)) = cols (fst s)"
      "\<And>v s p. isVisited (cells (fst (step v s)) p) = isVisited (cells (fst s) p)"
      "\<And>v s p. isWall (cells (fst (step v s)) p) = isWall (cells (fst s) p)"
      "\<And>v s. set (snd (step v s)) \<subseteq> insert v (set (snd s))"
  shows "unvisited_in g2 os2 < unvisited_in g os"
proof -
  note fs = fold_shape[of step, OF step]
  from sorted have hd: "c \<in> set os" "set rest \<subseteq> set os"
    using sort_head_set[of key os c rest] by auto
  let ?g1 = "setIsVisited c True g"
  have g2: "g2 = fst (fold step (getUnvisitedNeighbors c ?g1) (?g1, rest))"
    and os2: "os2 = snd (fold step (getUnvisitedNeighbors c ?g1) (?g1, rest))"
    using res[symmetric] by simp_all
  show ?thesis
  proof (rule unvisited_in_expand[OF hd(1) unv])
    show "rows g2 = rows g" "cols g2 = cols g"
      by (simp_all add: g2 fs setters)
    show "isVisited (cells g2 p) = (p = c \<or> isVisited (cells g p))" for p
      by (simp add: g2 fs setters)
    show "set os2 \<subseteq> set os \<union> set (adjacentCells g c)"
      using fs(5)[of "getUnvisitedNeighbors c ?g1" "(?g1, rest)"] hd(2)
        getUnvisitedNeighbors_subset[of c g]
      by (auto simp: os2)
  qed
qed

termination dijkstra_loop
proof (relation "(\<lambda>(f, g, os, vis). unvisited_in g os) <*mlex*> measure (\<lambda>(f, g, os, vis). length os)",
       goal_cases)
  case 1 show ?case by (simp add: wf_mlex)
next
  case (2 f g os vis c rest)
  then show ?case
    using sort_head_set[of "\<lambda>n. distance (cells g n)" os c rest]
    by (auto simp: sortNodesByDistance_def intro!: mlex_leq unvisited_in_continue)
next
  case (3 f g os vis c rest)
  then show ?case
    using sort_head_set[of "\<lambda>n. distance (cells g n)" os c rest]
    by (auto simp: sortNodesByDistance_def intro!: mlex_leq unvisited_in_continue)
next
  case (4 f g os vis c rest g1 vis1 g2 os2)
  have "unvisited_in g2 os2 < unvisited_in g os"
    using 4(1,4,8) unfolding sortNodesByDistance_def dijkstra_updateUnvisitedNeighbors_def 4(5)
    by (rule loop_expand_decreases) (rule dijkstra_relax_shape)+
  then show ?case by (auto intro: mlex_less)
qed

termination astar_loop
proof (relation "(\<lambda>(f, g, os, vis). unvisited_in g os) <*mlex*> measure (\<lambda>(f, g, os, vis). length os)",
       goal_cases)
  case 1 show ?case by (simp add: wf_mlex)
next
  case (2 f g os vis c rest)
  then show ?case
    using sort_head_set[of "\<lambda>n. (totalDistance (cells g n), heuristicDistance (cells g n))" os c rest]
    by (auto simp: sortNodesByTotalDistance_def intro!: mlex_leq unvisited_in_continue)
next
  case (3 f g os vis c rest)
  then show ?case
    using sort_head_set[of "\<lambda>n. (totalDistance (cells g n), heuristicDistance (cells g n))" os c rest]
    by (auto simp: sortNodesByTotalDistance_def intro!: mlex_leq unvisited_in_continue)
next
  case (4 f g os vis c rest g1 vis1 g2 os2)
  have "unvisited_in g2 os2 < unvisited_in g os"
    using 4(1,3,7) unfolding sortNodesByTotalDistance_def astar_updateUnvisitedNeighbors_def 4(4)
    by (rule loop_expand_decreases) (rule astar_relax_shape)+
  then show ?case by (auto intro: mlex_less)
qed

termination greedy_loop
proof (relation "(\<lambda>(f, g, os, vis). unvisited_in g os) <*mlex*> measure (\<lambda>(f, g, os, vis). length os)",
       goal_cases)
  case 1 show ?case by (simp add: wf_mlex)
next
  case (2 f g os vis c rest)
  then show ?case
    using sort_head_set[of "\<lambda>n. heuristicDistance (cells g n)" os c rest]
    by (auto simp: sortNodesByHeuristic_def intro!: mlex_leq unvisited_in_continue)
next
  case (3 f g os vis c rest)
  then show ?case
    using sort_head_set[of "\<lambda>n. heuristicDistance (cells g n)" os c rest]
    by (auto simp: sortNodesByHeuristic_def intro!: mlex_leq unvisited_in_continue)
next
  case (4 f g os vis c rest g1 vis1 g2 os2)
  have "unvisited_in g2 os2 < unvisited_in g os"
    using 4(1,3,7) unfolding sortNodesByHeuristic_def greedy_updateUnvisitedNeighbors_def 4(4)
    by (rule loop_expand_decreases) (rule greedy_relax_shape)+
  then show ?case by (auto intro: mlex_less)
qed

termination bubbleUp_loop
  by (relation "measure (\<lambda>(e, es, n). n)") auto

termination bubbleDown_loop
  by (relation "measure (\<lambda>(e, es, n). length es - n)") (auto split: if_splits)

termination binaryInsertionIndex
  by (relation "measure (\<lambda>(its, val, low, high). high - low)") auto

declare dijkstra_loop.simps [simp del] astar_loop.simps [simp del] greedy_loop.simps [simp del]
  bubbleUp_loop.simps [simp del] bubbleDown_loop.simps [simp del]
  binaryInsertionIndex.simps [simp del]

section \<open>The grid of one row and two columns\<close>

text \<open>
  C6, as stated: on the wall-free grid of one row and two columns, with the start at
  column 0 and the finish at column 1, every one of the five strategies returns a path
  of exactly two nodes and a visitation trace of at most two nodes. This fails: the
  bidirectional swarm returns three path nodes and BMSSP a trace of four entries.
\<close>

theorem C6_counterexample:
  "\<not> (scenario_ok (dijkstra (getInitialGrid 1 2 (0, 0) (0, 1)) (0, 0) (0, 1)) \<and>
      scenario_ok (astar (getInitialGrid 1 2 (0, 0) (0, 1)) (0, 0) (0, 1)) \<and>
      scenario_ok (greedyBfs (getInitialGrid 1 2 (0, 0) (0, 1)) (0, 0) (0, 1)) \<and>
      scenario_ok (bidirectionalSwarm (getInitialGrid 1 2 (0, 0) (0, 1)) (0, 0) (0, 1)) \<and>
      scenario_ok (bmssp 2 2 1 (getInitialGrid 1 2 (0, 0) (0, 1)) (0, 0) (0, 1)))"
proof -
  have "\<not> scenario_ok (bmssp 2 2 1 (getInitialGrid 1 2 (0, 0) (0, 1)) (0, 0) (0, 1))"
    by code_simp
  then show ?thesis by blast
qed

text \<open>
  C6, amended: on that grid Dijkstra, A*, greedy best-first and BMSSP return the path
  start, finish of exactly two nodes; Dijkstra, A*, greedy best-first and the
  bidirectional swarm return a trace of exactly the two nodes; the trace of BMSSP has
  four entries over the two nodes (finish, start, finish, finish), because FindPivots
  and BaseCase append a node to the trace whenever they relax it.
\<close>

theorem C6_adjacent_scenario:
  "pathOf (dijkstra (getInitialGrid 1 2 (0, 0) (0, 1)) (0, 0) (0, 1)) = Some [(0, 0), (0, 1)] \<and>
   visitedOf (dijkstra (getInitialGrid 1 2 (0, 0) (0, 1)) (0, 0) (0, 1)) = Some [(0, 0), (0, 1)] \<and>
   pathOf (astar (getInitialGrid 1 2 (0, 0) (0, 1)) (0, 0) (0, 1)) = Some [(0, 0), (0, 1)] \<and>
   visitedOf (astar (getInitialGrid 1 2 (0, 0) (0, 1)) (0, 0) (0, 1)) = Some [(0, 0), (0, 1)] \<and>
   pathOf (greedyBfs (getInitialGrid 1 2 (0, 0) (0, 1)) (0, 0) (0, 1)) = Some [(0, 0), (0, 1)] \<and>
   visitedOf (greedyBfs (getInitialGrid 1 2 (0, 0) (0, 1)) (0, 0) (0, 1)) = Some [(0, 0), (0, 1)] \<and>
   visitedOf (bidirectionalSwarm (getInitialGrid 1 2 (0, 0) (0, 1)) (0, 0) (0, 1)) = Some [(0, 0), (0, 1)] \<and>
   pathOf (bmssp 2 2 1 (getInitialGrid 1 2 (0, 0) (0, 1)) (0, 0) (0, 1)) = Some [(0, 0), (0, 1)] \<and>
   visitedOf (bmssp 2 2 1 (getInitialGrid 1 2 (0, 0) (0, 1)) (0, 0) (0, 1)) =
     Some [(0, 1), (0, 0), (0, 1), (0, 1)]"
  by code_simp

section \<open>BaseCase\<close>

lemma finite_finiteDistances: "finite (finiteDistances g U0)"
proof -
  have "finiteDistances g U0 \<subseteq> (\<lambda>n. distance (cells g n)) ` set U0"
    by (auto simp: finiteDistances_def)
  then show ?thesis by (rule finite_subset) simp
qed

lemma finiteDistances_Cons:
  "finiteDistances g (x # xs) =
     (if distance (cells g x) \<noteq> \<infinity> then insert (distance (cells g x)) (finiteDistances g xs)
      else finiteDistances g xs)"
  by (auto simp: finiteDistances_def)

lemma maxFinite_fold:
  "fold (\<lambda>node maxDist.
             if distance (cells g node) > maxDist \<and> distance (cells g node) \<noteq> \<infinity>
             then distance (cells g node) else maxDist) U0 m
   = Max (insert m (finiteDistances g U0))"
proof (induction U0 arbitrary: m)
  case Nil
  show ?case by (simp add: finiteDistances_def)
next
  case (Cons x xs)
  note [simp del] = not_infinity_eq
  have fin: "finite (finiteDistances g xs)" by (rule finite_finiteDistances)
  show ?case
  proof (cases "distance (cells g x) \<noteq> \<infinity>")
    case False
    then show ?thesis using Cons.IH[of m] by (simp add: finiteDistances_Cons)
  next
    case True
    show ?thesis
    proof (cases "distance (cells g x) > m")
      case gt: True
      have "Max (insert m (insert (distance (cells g x)) (finiteDistances g xs)))
            = max m (Max (insert (distance (cells g x)) (finiteDistances g xs)))"
        using fin by simp
      also have "\<dots> = Max (insert (distance (cells g x)) (finiteDistances g xs))"
        using gt fin by (simp add: max_def) (meson Max_ge finite_insert insertI1 less_le_not_le order_trans)
      finally show ?thesis using True gt by (simp add: Cons.IH finiteDistances_Cons)
    next
      case le: False
      have "insert m (insert (distance (cells g x)) (finiteDistances g xs))
            = insert (distance (cells g x)) (insert m (finiteDistances g xs))" by auto
      then have "Max (insert m (insert (distance (cells g x)) (finiteDistances g xs)))
            = max (distance (cells g x)) (Max (insert m (finiteDistances g xs)))"
        using fin by simp
      also have "\<dots> = Max (insert m (finiteDistances g xs))"
        using le fin by (simp add: max_def) (meson Max_ge finite_insert insertI1 not_le_imp_less order_trans)
      finally show ?thesis using True le by (simp add: Cons.IH finiteDistances_Cons)
    qed
  qed
qed

lemma maxFiniteDistance_eq:
  "maxFiniteDistance g U0 = Max (insert 0 (finiteDistances g U0))"
  unfolding maxFiniteDistance_def by (rule maxFinite_fold)

lemma distinct_set_add: "distinct xs \<Longrightarrow> distinct (set_add x xs)"
  by (simp add: set_add_def)

lemma set_set_add: "set (set_add x xs) = insert x (set xs)"
  by (auto simp: set_add_def)

lemma distinct_fold_set_add: "distinct xs \<Longrightarrow> distinct (fold set_add S xs)"
  by (induction S arbitrary: xs) (simp_all add: distinct_set_add)

lemma set_fold_set_add: "set (fold set_add S xs) = set S \<union> set xs"
  by (induction S arbitrary: xs) (auto simp: set_set_add)

lemma distinct_newSet: "distinct (newSet S)"
  by (simp add: newSet_def distinct_fold_set_add)

lemma set_newSet: "set (newSet S) = set S"
  by (simp add: newSet_def set_fold_set_add)

lemmas baseCase_loop_induct = baseCase_loop.raw_induct[rotated 1, consumes 1, case_names step]

lemma baseCase_loop_closed:
  assumes "baseCase_loop k B c h U0 = Some r"
  shows "(distinct U0 \<longrightarrow> distinct (snd r)) \<and> set U0 \<subseteq> set (snd r)"
  using assms
proof (induction k B c h U0 r rule: baseCase_loop_induct)
  case (step loop k B c h U0 r)
  note 1 = step
  show ?case
  proof (cases "h \<noteq> [] \<and> length U0 < k + 1")
    case False
    with 1(2) show ?thesis by auto
  next
    case True
    show ?thesis
    proof (cases "heap_pop h")
      case (Pair m h1)
      show ?thesis
      proof (cases m)
        case None
        with 1(2) True Pair show ?thesis by auto
      next
        case (Some e)
        obtain u d where e: "e = (u, d)" by (cases e)
        show ?thesis
        proof (cases "B \<le> d")
          case True
          with 1(2) \<open>h \<noteq> [] \<and> length U0 < k + 1\<close> Pair Some e show ?thesis by auto
        next
          case False
          obtain c2 h2 where f: "fold (baseCase_relax B u) (getNeighbors u (gridRef (markVisited u c))) (markVisited u c, h1) = (c2, h2)"
            by (cases "fold (baseCase_relax B u) (getNeighbors u (gridRef (markVisited u c))) (markVisited u c, h1)")
          from 1(2) True Pair Some e False f
          have "loop k B c2 h2 (set_add u U0) = Some r" by (simp add: Let_def)
          from 1(1)[OF this] show ?thesis
            by (auto simp: distinct_set_add set_set_add)
        qed
      qed
    qed
  qed
qed

text \<open>What \<open>baseCase\<close> returns when it returns.\<close>

lemma baseCase_result_shape:
  assumes "baseCase k B S c = Some ((boundary, U), c')"
  shows "\<exists>U0. baseCase_loop k B c
                (fold (\<lambda>node h. heap_push h node (distance (cells (gridRef c) node))) S [])
                (newSet S) = Some (c', U0) \<and>
              distinct U0 \<and> set S \<subseteq> set U0 \<and>
              (if card (set U0) \<le> k then boundary = B \<and> U = U0
               else boundary = Max (insert 0 (finiteDistances (gridRef c') U0)) \<and>
                    U = filter (\<lambda>n. distance (cells (gridRef c') n) < boundary) U0)"
proof -
  from assms obtain r where r:
    "baseCase_loop k B c (fold (\<lambda>node h. heap_push h node (distance (cells (gridRef c) node))) S [])
       (newSet S) = Some r"
    and res: "baseCase_result k B (gridRef (fst r)) (snd r) = (boundary, U)" "fst r = c'"
    by (auto simp: baseCase_def split: Option.bind_splits)
  obtain U0 where r': "r = (c', U0)" using res(2) by (cases r) auto
  from baseCase_loop_closed[OF r] have d: "distinct U0" "set S \<subseteq> set U0"
    by (auto simp: r' distinct_newSet set_newSet)
  then have card: "card (set U0) = length U0" by (simp add: distinct_card)
  show ?thesis
    using r res(1) d card unfolding r'
    by (intro exI[of _ U0]) (auto simp: baseCase_result_def maxFiniteDistance_eq Let_def split: if_splits)
qed



section \<open>The bidirectional swarm writes only the visited flag\<close>

lemma only_visited_changed_refl: "only_visited_changed g g"
  by (simp add: only_visited_changed_def)

lemma only_visited_changed_trans:
  "only_visited_changed g g1 \<Longrightarrow> only_visited_changed g1 g2 \<Longrightarrow> only_visited_changed g g2"
  unfolding only_visited_changed_def
  by (metis (no_types, lifting) NodeData.update_convs(4) NodeData.surjective)

lemma only_visited_changed_set:
  "only_visited_changed g (setIsVisited p b g)"
  by (simp add: only_visited_changed_def setIsVisited_def)

lemma expandSide_frame:
  assumes "expandSide g visited own other target = ((g1, visited1, own1), m)"
  shows "only_visited_changed g g1"
  using assms
  by (auto simp: expandSide_def Let_def only_visited_changed_refl only_visited_changed_set
      split: if_splits)

lemmas swarm_loop_induct = swarm_loop.raw_induct[rotated 1, consumes 1, case_names step]

lemma swarm_loop_frame:
  assumes "swarm_loop s f g visited S F = Some r"
  shows "only_visited_changed g (final r)"
  using assms
proof (induction s f g visited S F r rule: swarm_loop_induct)
  case (step loop s f g visited S F r)
  show ?case
  proof (cases "openSet S \<noteq> [] \<and> openSet F \<noteq> []")
    case False
    with step(2) show ?thesis by (auto simp: only_visited_changed_refl)
  next
    case True
    obtain g1 visited1 S1 m1 where e1: "expandSide g visited S F f = ((g1, visited1, S1), m1)"
      by (metis prod_cases3 surj_pair)
    have f1: "only_visited_changed g g1" by (rule expandSide_frame[OF e1])
    show ?thesis
    proof (cases m1)
      case (Some meet)
      with step(2) True e1 have "final r = g1" by auto
      with f1 show ?thesis by simp
    next
      case None
      obtain g2 visited2 F1 m2 where e2: "expandSide g1 visited1 F S1 s = ((g2, visited2, F1), m2)"
        by (metis prod_cases3 surj_pair)
      have f2: "only_visited_changed g g2"
        using f1 expandSide_frame[OF e2] by (rule only_visited_changed_trans)
      show ?thesis
      proof (cases m2)
        case (Some meet)
        with step(2) True e1 None e2 have "final r = g2" by auto
        with f2 show ?thesis by simp
      next
        case n2: None
        with step(2) True e1 None e2 have "loop s f g2 visited2 S1 F1 = Some r" by simp
        from step(1)[OF this] f2 show ?thesis by (rule only_visited_changed_trans[rotated])
      qed
    qed
  qed
qed

text \<open>
  C10: whenever \<open>bidirectionalSwarm\<close> returns, every node of the grid has the distance,
  total distance, heuristic distance and predecessor it had before the call (and the same
  wall, start and finish flags): the only node field the run writes is \<open>isVisited\<close>; the
  scores and parent links live in the per-run maps.
\<close>

theorem C10_bidirectionalSwarm_frame:
  assumes "bidirectionalSwarm g startNode finishNode = Some r"
  shows "rows (final r) = rows g \<and> cols (final r) = cols g \<and>
         (\<forall>p. distance (cells (final r) p) = distance (cells g p) \<and>
              totalDistance (cells (final r) p) = totalDistance (cells g p) \<and>
              heuristicDistance (cells (final r) p) = heuristicDistance (cells g p) \<and>
              previousNode (cells (final r) p) = previousNode (cells g p) \<and>
              isWall (cells (final r) p) = isWall (cells g p) \<and>
              isStart (cells (final r) p) = isStart (cells g p) \<and>
              isFinish (cells (final r) p) = isFinish (cells g p))"
proof -
  have "only_visited_changed g (final r)"
    using assms unfolding bidirectionalSwarm_def by (rule swarm_loop_frame)
  then have *: "rows (final r) = rows g" "cols (final r) = cols g"
    "\<And>p. cells (final r) p = (cells g p)\<lparr>isVisited := isVisited (cells (final r) p)\<rparr>"
    unfolding only_visited_changed_def by blast+
  show ?thesis
  proof (intro conjI allI)
    fix p
    note e = *(3)[of p]
    show "distance (cells (final r) p) = distance (cells g p)" by (subst e) simp
    show "totalDistance (cells (final r) p) = totalDistance (cells g p)" by (subst e) simp
    show "heuristicDistance (cells (final r) p) = heuristicDistance (cells g p)" by (subst e) simp
    show "previousNode (cells (final r) p) = previousNode (cells g p)" by (subst e) simp
    show "isWall (cells (final r) p) = isWall (cells g p)" by (subst e) simp
    show "isStart (cells (final r) p) = isStart (cells g p)" by (subst e) simp
    show "isFinish (cells (final r) p) = isFinish (cells g p)" by (subst e) simp
  qed (simp_all add: *)
qed


theorem C10_bidirectionalSwarm_frame_witness:
  "\<exists>r. bidirectionalSwarm (getInitialGrid 1 2 (0, 0) (0, 1)) (0, 0) (0, 1) = Some r \<and>
       distance (cells (final r) (0, 1)) = \<infinity> \<and>
       totalDistance (cells (final r) (0, 1)) = \<infinity> \<and>
       heuristicDistance (cells (final r) (0, 1)) = \<infinity> \<and>
       previousNode (cells (final r) (0, 1)) = None"
proof -
  have "visitedOf (bidirectionalSwarm (getInitialGrid 1 2 (0, 0) (0, 1)) (0, 0) (0, 1))
          = Some [(0, 0), (0, 1)]"
    by code_simp
  then obtain r where run:
    "bidirectionalSwarm (getInitialGrid 1 2 (0, 0) (0, 1)) (0, 0) (0, 1) = Some r"
    by (auto simp: visitedOf_def)
  from C10_bidirectionalSwarm_frame[OF run] show ?thesis
    using run by (simp add: getInitialGrid_def createNode_def)
qed

section \<open>When a relaxation re-parents\<close>


text \<open>
  C4, as stated: in every strategy a relaxation step reassigns \<open>previousNode\<close> only when the
  tentative distance is strictly smaller than the recorded one. BaseCase of BMSSP
  relaxes with \<open>\<le>\<close>: in the state above the far corner, recorded at distance 2 with
  predecessor \<open>(1, 0)\<close>, is given the predecessor \<open>(0, 1)\<close> by a tentative distance of 2.
\<close>

theorem C4_counterexample:
  "previousNode (cells (gridRef reparent_state) (1, 1)) = Some (1, 0) \<and>
   previousNode (cells (gridRef (fst (baseCase_relax \<infinity> (0, 1) (1, 1) (reparent_state, [])))) (1, 1))
     = Some (0, 1) \<and>
   \<not> distance (cells (gridRef reparent_state) (0, 1)) + 1
       < distance (cells (gridRef reparent_state) (1, 1))"
  by code_simp

lemma greedy_relax_finite:
  assumes "distance (cells (fst s) u) \<noteq> \<infinity>" "\<forall>n\<in>set (snd s). distance (cells (fst s) n) \<noteq> \<infinity>"
  shows "distance (cells (fst (greedy_relax f u v s)) u) \<noteq> \<infinity> \<and>
         (\<forall>n\<in>set (snd (greedy_relax f u v s)). distance (cells (fst (greedy_relax f u v s)) n) \<noteq> \<infinity>)"
  using assms by (cases s) (auto simp: setters Let_def plus_eq_infty_iff_enat)

lemma greedy_fold_finite:
  assumes "distance (cells (fst s) u) \<noteq> \<infinity>" "\<forall>n\<in>set (snd s). distance (cells (fst s) n) \<noteq> \<infinity>"
  shows "\<forall>n\<in>set (snd (fold (greedy_relax f u) vs s)).
           distance (cells (fst (fold (greedy_relax f u) vs s)) n) \<noteq> \<infinity>"
  using assms
proof (induction vs arbitrary: s)
  case Nil then show ?case by simp
next
  case (Cons v vs)
  from greedy_relax_finite[OF Cons.prems, of f v] Cons.IH[of "greedy_relax f u v s"]
  show ?case by simp
qed

lemma greedy_loop_rel_finite:
  assumes "greedy_loop_rel y z"
    and "\<forall>n\<in>set (fst (snd (snd z))). distance (cells (fst (snd z)) n) \<noteq> \<infinity>"
  shows "\<forall>n\<in>set (fst (snd (snd y))). distance (cells (fst (snd y)) n) \<noteq> \<infinity>"
  using assms
proof (cases rule: greedy_loop_rel.cases)
  case (1 f g os vis c rest)
  with assms(2) sort_head_set[of "\<lambda>n. heuristicDistance (cells g n)" os c rest]
  show ?thesis by (auto simp: sortNodesByHeuristic_def)
next
  case (2 f g os vis c rest)
  with assms(2) sort_head_set[of "\<lambda>n. heuristicDistance (cells g n)" os c rest]
  show ?thesis by (auto simp: sortNodesByHeuristic_def)
next
  case (3 f g os vis c rest g1 vis1 g2 os2)
  from 3 assms(2) sort_head_set[of "\<lambda>n. heuristicDistance (cells g n)" os c rest]
  have fin: "distance (cells g c) \<noteq> \<infinity>" "\<forall>n\<in>set rest. distance (cells g n) \<noteq> \<infinity>"
    by (auto simp: sortNodesByHeuristic_def)
  have "\<forall>n\<in>set (snd (fold (greedy_relax f c) (getUnvisitedNeighbors c g1) (g1, rest))).
           distance (cells (fst (fold (greedy_relax f c) (getUnvisitedNeighbors c g1) (g1, rest))) n) \<noteq> \<infinity>"
    by (rule greedy_fold_finite) (use fin 3(6) in \<open>auto simp: setters\<close>)
  with 3(1) 3(9)[symmetric] show ?thesis
    by (auto simp: greedy_updateUnvisitedNeighbors_def)
qed

lemma greedy_reachable_finite:
  assumes "greedy_loop_rel\<^sup>*\<^sup>* y z"
    and "\<forall>n\<in>set (fst (snd (snd z))). distance (cells (fst (snd z)) n) \<noteq> \<infinity>"
  shows "\<forall>n\<in>set (fst (snd (snd y))). distance (cells (fst (snd y)) n) \<noteq> \<infinity>"
  using assms
  by (induction rule: converse_rtranclp_induct) (auto dest: greedy_loop_rel_finite)

text \<open>
  C4, amended: a relaxation step of Dijkstra or A* changes nothing unless the tentative
  distance is strictly smaller than the recorded distance of the neighbour; the same holds
  for greedy best-first, whose expanded node always has a finite distance (every node of
  its open array has, at every round of the loop); the bidirectional swarm sets a parent
  entry only when the tentative score is strictly smaller than the recorded score. In
  BMSSP the relaxation of FindPivots and that of the loop of BMSSPRecursive assign the
  tentative distance and the predecessor exactly when the tentative distance is smaller
  than or equal to the recorded one, and so re-parent a node at an equal distance; the
  relaxation of BaseCase does so exactly when, in addition, the tentative distance is
  strictly below the bound \<open>B\<close>. A relaxation of BMSSP whose test fails changes nothing.
\<close>

theorem C4_reparenting_guards:
  "(\<not> distance (cells g u) + 1 < distance (cells g v) \<longrightarrow>
       dijkstra_relax u v (g, os) = (g, os) \<and> astar_relax f u v (g, os) = (g, os)) \<and>
   (distance (cells g u) \<noteq> \<infinity> \<and> \<not> distance (cells g u) + 1 < distance (cells g v) \<longrightarrow>
       greedy_relax f u v (g, os) = (g, os)) \<and>
   (greedy_loop_rel\<^sup>*\<^sup>* (f', g', os', vis')
       (f, setHeuristicDistance s (enat (getManhattanDistance s f)) (setDistance s 0 g), [s], []) \<longrightarrow>
       (\<forall>n\<in>set os'. distance (cells g' n) \<noteq> \<infinity>)) \<and>
   (\<not> score (gScore fr) u + 1 < score (gScore fr) v \<longrightarrow> updateNeighbor g v u fr f = fr) \<and>
   (\<not> distance (cells (gridRef c) u) + 1 \<le> distance (cells (gridRef c) v) \<longrightarrow>
       findPivots_relax B u v (c, W) = (c, W) \<and>
       bmssp_relax B Bi B_prime_i u v (c, D, K) = (c, D, K)) \<and>
   (\<not> (distance (cells (gridRef c) u) + 1 \<le> distance (cells (gridRef c) v) \<and>
       distance (cells (gridRef c) u) + 1 < B) \<longrightarrow>
       baseCase_relax B u v (c, h) = (c, h)) \<and>
   (distance (cells (gridRef c2) p) + 1 \<le> distance (cells (gridRef c2) q) \<longrightarrow>
       previousNode (cells (gridRef (fst (findPivots_relax B2 p q (c2, W2)))) q) = Some p \<and>
       distance (cells (gridRef (fst (findPivots_relax B2 p q (c2, W2)))) q)
         = distance (cells (gridRef c2) p) + 1 \<and>
       previousNode (cells (gridRef (fst (bmssp_relax B2 Bi2 B_prime_i2 p q (c2, D2, K2)))) q) = Some p \<and>
       distance (cells (gridRef (fst (bmssp_relax B2 Bi2 B_prime_i2 p q (c2, D2, K2)))) q)
         = distance (cells (gridRef c2) p) + 1) \<and>
   (distance (cells (gridRef c2) p) + 1 \<le> distance (cells (gridRef c2) q) \<and>
    distance (cells (gridRef c2) p) + 1 < B2 \<longrightarrow>
       previousNode (cells (gridRef (fst (baseCase_relax B2 p q (c2, h2)))) q) = Some p \<and>
       distance (cells (gridRef (fst (baseCase_relax B2 p q (c2, h2)))) q)
         = distance (cells (gridRef c2) p) + 1)"
proof (intro conjI impI)
  assume "greedy_loop_rel\<^sup>*\<^sup>* (f', g', os', vis')
       (f, setHeuristicDistance s (enat (getManhattanDistance s f)) (setDistance s 0 g), [s], [])"
  from greedy_reachable_finite[OF this] show "\<forall>n\<in>set os'. distance (cells g' n) \<noteq> \<infinity>"
    by (simp add: setters)
next
  assume "distance (cells g u) \<noteq> \<infinity> \<and> \<not> distance (cells g u) + 1 < distance (cells g v)"
  then have "distance (cells g v) \<noteq> \<infinity>"
    by (cases "distance (cells g u)"; cases "distance (cells g v)") (auto simp: one_enat_def)
  then show "greedy_relax f u v (g, os) = (g, os)" by simp
qed (auto simp: Let_def updateNeighbor_def relaxTo_def setters)


theorem C4_reparenting_guards_witness:
  "dijkstra_relax (0, 1) (0, 0) (two_cells, []) = (two_cells, []) \<and>
   astar_relax (0, 1) (0, 1) (0, 0) (two_cells, []) = (two_cells, []) \<and>
   greedy_relax (0, 1) (0, 1) (0, 0) (two_cells, []) = (two_cells, []) \<and>
   distance (cells (setHeuristicDistance (0, 0) (enat (getManhattanDistance (0, 0) (0, 1)))
                     (setDistance (0, 0) 0 two_cells)) (0, 0)) \<noteq> \<infinity> \<and>
   updateNeighbor two_cells (0, 0) (0, 1)
     \<lparr>openSet = [], parents = Map.empty, gScore = [(0, 1) \<mapsto> 1, (0, 0) \<mapsto> 0], fScore = Map.empty\<rparr> (0, 1)
     = \<lparr>openSet = [], parents = Map.empty, gScore = [(0, 1) \<mapsto> 1, (0, 0) \<mapsto> 0], fScore = Map.empty\<rparr> \<and>
   findPivots_relax \<infinity> (0, 1) (0, 0) (\<lparr>gridRef = two_cells, visitedList = []\<rparr>, [])
     = (\<lparr>gridRef = two_cells, visitedList = []\<rparr>, []) \<and>
   baseCase_relax \<infinity> (0, 1) (0, 0) (\<lparr>gridRef = two_cells, visitedList = []\<rparr>, [])
     = (\<lparr>gridRef = two_cells, visitedList = []\<rparr>, []) \<and>
   bmssp_relax \<infinity> \<infinity> \<infinity> (0, 1) (0, 0) (\<lparr>gridRef = two_cells, visitedList = []\<rparr>, D_initialize 1 \<infinity>, [])
     = (\<lparr>gridRef = two_cells, visitedList = []\<rparr>, D_initialize 1 \<infinity>, []) \<and>
   previousNode (cells two_cells (0, 1)) = None \<and>
   previousNode (cells (gridRef (fst (findPivots_relax \<infinity> (0, 0) (0, 1)
       (\<lparr>gridRef = two_cells, visitedList = []\<rparr>, [])))) (0, 1)) = Some (0, 0) \<and>
   previousNode (cells (gridRef (fst (bmssp_relax \<infinity> \<infinity> \<infinity> (0, 0) (0, 1)
       (\<lparr>gridRef = two_cells, visitedList = []\<rparr>, D_initialize 1 \<infinity>, [])))) (0, 1)) = Some (0, 0) \<and>
   previousNode (cells (gridRef (fst (baseCase_relax \<infinity> (0, 0) (0, 1)
       (\<lparr>gridRef = two_cells, visitedList = []\<rparr>, [])))) (0, 1)) = Some (0, 0)"
proof -
  have d: "distance (cells two_cells (0, 1)) = 1" "distance (cells two_cells (0, 0)) = 0"
    by (simp_all add: two_cells_def setters)
  have a: "\<not> distance (cells two_cells (0, 1)) + 1 < distance (cells two_cells (0, 0))"
    "distance (cells two_cells (0, 1)) \<noteq> \<infinity>"
    "\<not> distance (cells two_cells (0, 1)) + 1 \<le> distance (cells two_cells (0, 0))"
    by (simp_all add: two_cells_def setters getInitialGrid_def createNode_def one_enat_def zero_enat_def)
  have b: "distance (cells two_cells (0, 0)) + 1 \<le> distance (cells two_cells (0, 1))"
    "distance (cells two_cells (0, 0)) + 1 < \<infinity>"
    by (simp_all add: two_cells_def setters getInitialGrid_def createNode_def one_enat_def zero_enat_def)
  have n: "previousNode (cells two_cells (0, 1)) = None"
    by (simp add: two_cells_def setters getInitialGrid_def createNode_def)
  have sc: "\<not> score (gScore \<lparr>openSet = [], parents = Map.empty,
                  gScore = [(0, 1) \<mapsto> 1, (0, 0) \<mapsto> 0], fScore = Map.empty\<rparr>) (0, 1) + 1
              < score (gScore \<lparr>openSet = [], parents = Map.empty,
                  gScore = [(0, 1) \<mapsto> 1, (0, 0) \<mapsto> 0], fScore = Map.empty\<rparr>) (0, 0)"
    by (simp add: score_def)
  have r: "greedy_loop_rel\<^sup>*\<^sup>*
      ((0, 1), setHeuristicDistance (0, 0) (enat (getManhattanDistance (0, 0) (0, 1)))
                 (setDistance (0, 0) 0 two_cells), [(0, 0)], [])
      ((0, 1), setHeuristicDistance (0, 0) (enat (getManhattanDistance (0, 0) (0, 1)))
                 (setDistance (0, 0) 0 two_cells), [(0, 0)], [])"
    by simp
  note t = C4_reparenting_guards[where g = two_cells and u = "(0, 1)" and v = "(0, 0)" and os = "[]"
        and f = "(0, 1)" and s = "(0, 0)" and f' = "(0, 1)" and os' = "[(0, 0)]" and vis' = "[]"
        and g' = "setHeuristicDistance (0, 0) (enat (getManhattanDistance (0, 0) (0, 1)))
                 (setDistance (0, 0) 0 two_cells)"
        and fr = "\<lparr>openSet = [], parents = Map.empty, gScore = [(0, 1) \<mapsto> 1, (0, 0) \<mapsto> 0], fScore = Map.empty\<rparr>"
        and c = "\<lparr>gridRef = two_cells, visitedList = []\<rparr>" and B = \<infinity> and Bi = \<infinity>
        and B_prime_i = \<infinity> and W = "[]" and h = "[]" and D = "D_initialize 1 \<infinity>" and K = "[]"
        and ?c2.0 = "\<lparr>gridRef = two_cells, visitedList = []\<rparr>" and p = "(0, 0)" and q = "(0, 1)"
        and ?B2.0 = \<infinity> and ?Bi2.0 = \<infinity> and ?B_prime_i2.0 = \<infinity> and ?W2.0 = "[]" and ?h2.0 = "[]"
        and ?D2.0 = "D_initialize 1 \<infinity>" and ?K2.0 = "[]", unfolded ctx.select_convs]
  have a4: "\<not> (distance (cells two_cells (0, 1)) + 1 \<le> distance (cells two_cells (0, 0)) \<and>
                distance (cells two_cells (0, 1)) + 1 < \<infinity>)"
    using a(3) by simp
  note c1 = t[THEN conjunct1, THEN mp, OF a(1)]
  note c2 = t[THEN conjunct2, THEN conjunct1, THEN mp, OF conjI[OF a(2) a(1)]]
  note c3 = t[THEN conjunct2, THEN conjunct2, THEN conjunct1, THEN mp, OF r]
  note c4 = t[THEN conjunct2, THEN conjunct2, THEN conjunct2, THEN conjunct1, THEN mp, OF sc]
  note c5 = t[THEN conjunct2, THEN conjunct2, THEN conjunct2, THEN conjunct2, THEN conjunct1,
              THEN mp, OF a(3)]
  note c6 = t[THEN conjunct2, THEN conjunct2, THEN conjunct2, THEN conjunct2, THEN conjunct2,
              THEN conjunct1, THEN mp, OF a4]
  note c7 = t[THEN conjunct2, THEN conjunct2, THEN conjunct2, THEN conjunct2, THEN conjunct2,
              THEN conjunct2, THEN conjunct1, THEN mp, OF b(1)]
  note c8 = t[THEN conjunct2, THEN conjunct2, THEN conjunct2, THEN conjunct2, THEN conjunct2,
              THEN conjunct2, THEN conjunct2, THEN mp, OF conjI[OF b(1) b(2)]]
  from c3 have fin: "distance (cells (setHeuristicDistance (0, 0) (enat (getManhattanDistance (0, 0) (0, 1)))
                     (setDistance (0, 0) 0 two_cells)) (0, 0)) \<noteq> \<infinity>"
    by simp
  from c1[THEN conjunct1] c1[THEN conjunct2] c2 fin c4 c5[THEN conjunct1] c6 c5[THEN conjunct2] n
    c7[THEN conjunct1] c7[THEN conjunct2, THEN conjunct2, THEN conjunct1] c8[THEN conjunct1]
  show ?thesis by (intro conjI)
qed

section \<open>How the loops of Dijkstra, A* and greedy best-first leave\<close>

lemma dijkstra_loop_exit:
  assumes "dijkstra_loop f g os vis = Some r"
  shows "\<exists>st. dijkstra_loop_rel\<^sup>*\<^sup>* st (f, g, os, vis) \<and> dijkstra_exit st r"
  using assms
proof (induction f g os vis rule: dijkstra_loop.induct)
  case (1 f g os vis)
  note IH = "1.IH" and prems = "1.prems"
  show ?case
  proof (cases "sortNodesByDistance g os")
    case Nil
    with prems have "dijkstra_exit (f, g, os, vis) r"
      by (auto simp: dijkstra_loop.simps[of f g os vis] dijkstra_exit_def exit_empty_def)
    then show ?thesis by blast
  next
    case (Cons c rest)
    have run: "(if isWall (cells g c) then dijkstra_loop f g rest vis
          else if distance (cells g c) = \<infinity>
          then Some \<lparr>final = g, visitedNodesInOrder = vis, nodesInShortestPathOrder = []\<rparr>
          else if isVisited (cells g c) then dijkstra_loop f g rest vis
          else
            let g1 = setIsVisited c True g;
                visited1 = vis @ [c]
            in if c = f
               then map_option
                      (\<lambda>path. \<lparr>final = g1, visitedNodesInOrder = visited1,
                                nodesInShortestPathOrder = path\<rparr>)
                      (getNodesInShortestPathOrder g1 f)
               else (case dijkstra_updateUnvisitedNeighbors c g1 rest of
                       (g2, openSet2) \<Rightarrow> dijkstra_loop f g2 openSet2 visited1)) = Some r"
      using prems by (subst (asm) dijkstra_loop.simps) (simp add: Cons)
    have via: "dijkstra_loop_rel y (f, g, os, vis) \<Longrightarrow>
               \<exists>st. dijkstra_loop_rel\<^sup>*\<^sup>* st y \<and> dijkstra_exit st r \<Longrightarrow> ?thesis" for y
      by (meson rtranclp.rtrancl_into_rtrancl)
    show ?thesis
    proof (cases "isWall (cells g c)")
      case True
      with run have "dijkstra_loop f g rest vis = Some r" by simp
      from IH(1)[OF Cons True this] dijkstra_loop_rel.intros(1)[OF Cons True]
      show ?thesis by (rule via[rotated])
    next
      case nw: False
      show ?thesis
      proof (cases "distance (cells g c) = \<infinity>")
        case True
        with run nw Cons have "dijkstra_exit (f, g, os, vis) r"
          by (auto simp: dijkstra_exit_def exit_empty_def)
        then show ?thesis by blast
      next
        case fin: False
        show ?thesis
        proof (cases "isVisited (cells g c)")
          case True
          with run nw fin have "dijkstra_loop f g rest vis = Some r" by simp
          from IH(2)[OF Cons nw fin True this] dijkstra_loop_rel.intros(2)[OF Cons nw fin True]
          show ?thesis by (rule via[rotated])
        next
          case nv: False
          show ?thesis
          proof (cases "c = f")
            case True
            with run nw fin nv Cons have "dijkstra_exit (f, g, os, vis) r"
              by (auto simp: dijkstra_exit_def exit_found_def Let_def)
            then show ?thesis by blast
          next
            case nf: False
            obtain g2 os2 where upd: "(g2, os2) = dijkstra_updateUnvisitedNeighbors c (setIsVisited c True g) rest"
              by (metis surj_pair)
            from run nw fin nv nf upd[symmetric] have "dijkstra_loop f g2 os2 (vis @ [c]) = Some r"
              by (simp add: Let_def)
            from IH(3)[OF Cons nw fin nv refl refl nf upd this]
              dijkstra_loop_rel.intros(3)[OF Cons nw fin nv refl refl nf upd]
            show ?thesis by (rule via[rotated])
          qed
        qed
      qed
    qed
  qed
qed

lemma astar_loop_exit:
  assumes "astar_loop f g os vis = Some r"
  shows "\<exists>st. astar_loop_rel\<^sup>*\<^sup>* st (f, g, os, vis) \<and> astar_exit st r"
  using assms
proof (induction f g os vis rule: astar_loop.induct)
  case (1 f g os vis)
  note IH = "1.IH" and prems = "1.prems"
  show ?case
  proof (cases "sortNodesByTotalDistance g os")
    case Nil
    with prems have "astar_exit (f, g, os, vis) r"
      by (auto simp: astar_loop.simps[of f g os vis] astar_exit_def exit_empty_def)
    then show ?thesis by blast
  next
    case (Cons c rest)
    have run: "(if isWall (cells g c) then astar_loop f g rest vis
          else if isVisited (cells g c) then astar_loop f g rest vis
          else
            let g1 = setIsVisited c True g;
                visited1 = vis @ [c]
            in if c = f
               then map_option
                      (\<lambda>path. \<lparr>final = g1, visitedNodesInOrder = visited1,
                                nodesInShortestPathOrder = path\<rparr>)
                      (getNodesInShortestPathOrder g1 f)
               else (case astar_updateUnvisitedNeighbors c f g1 rest of
                       (g2, openSet2) \<Rightarrow> astar_loop f g2 openSet2 visited1)) = Some r"
      using prems by (subst (asm) astar_loop.simps) (simp add: Cons)
    have via: "astar_loop_rel y (f, g, os, vis) \<Longrightarrow>
               \<exists>st. astar_loop_rel\<^sup>*\<^sup>* st y \<and> astar_exit st r \<Longrightarrow> ?thesis" for y
      by (meson rtranclp.rtrancl_into_rtrancl)
    show ?thesis
    proof (cases "isWall (cells g c)")
      case True
      with run have "astar_loop f g rest vis = Some r" by simp
      from IH(1)[OF Cons True this] astar_loop_rel.intros(1)[OF Cons True]
      show ?thesis by (rule via[rotated])
    next
      case nw: False
      show ?thesis
      proof -
        show ?thesis
        proof (cases "isVisited (cells g c)")
          case True
          with run nw have "astar_loop f g rest vis = Some r" by simp
          from IH(2)[OF Cons nw True this] astar_loop_rel.intros(2)[OF Cons nw True]
          show ?thesis by (rule via[rotated])
        next
          case nv: False
          show ?thesis
          proof (cases "c = f")
            case True
            with run nw nv Cons have "astar_exit (f, g, os, vis) r"
              by (auto simp: astar_exit_def exit_found_def Let_def)
            then show ?thesis by blast
          next
            case nf: False
            obtain g2 os2 where upd: "(g2, os2) = astar_updateUnvisitedNeighbors c f (setIsVisited c True g) rest"
              by (metis surj_pair)
            from run nw nv nf upd[symmetric] have "astar_loop f g2 os2 (vis @ [c]) = Some r"
              by (simp add: Let_def)
            from IH(3)[OF Cons nw nv refl refl nf upd this]
              astar_loop_rel.intros(3)[OF Cons nw nv refl refl nf upd]
            show ?thesis by (rule via[rotated])
          qed
        qed
      qed
    qed
  qed
qed

lemma greedy_loop_exit:
  assumes "greedy_loop f g os vis = Some r"
  shows "\<exists>st. greedy_loop_rel\<^sup>*\<^sup>* st (f, g, os, vis) \<and> greedy_exit st r"
  using assms
proof (induction f g os vis rule: greedy_loop.induct)
  case (1 f g os vis)
  note IH = "1.IH" and prems = "1.prems"
  show ?case
  proof (cases "sortNodesByHeuristic g os")
    case Nil
    with prems have "greedy_exit (f, g, os, vis) r"
      by (auto simp: greedy_loop.simps[of f g os vis] greedy_exit_def exit_empty_def)
    then show ?thesis by blast
  next
    case (Cons c rest)
    have run: "(if isWall (cells g c) then greedy_loop f g rest vis
          else if isVisited (cells g c) then greedy_loop f g rest vis
          else
            let g1 = setIsVisited c True g;
                visited1 = vis @ [c]
            in if c = f
               then map_option
                      (\<lambda>path. \<lparr>final = g1, visitedNodesInOrder = visited1,
                                nodesInShortestPathOrder = path\<rparr>)
                      (getNodesInShortestPathOrder g1 f)
               else (case greedy_updateUnvisitedNeighbors c f g1 rest of
                       (g2, openSet2) \<Rightarrow> greedy_loop f g2 openSet2 visited1)) = Some r"
      using prems by (subst (asm) greedy_loop.simps) (simp add: Cons)
    have via: "greedy_loop_rel y (f, g, os, vis) \<Longrightarrow>
               \<exists>st. greedy_loop_rel\<^sup>*\<^sup>* st y \<and> greedy_exit st r \<Longrightarrow> ?thesis" for y
      by (meson rtranclp.rtrancl_into_rtrancl)
    show ?thesis
    proof (cases "isWall (cells g c)")
      case True
      with run have "greedy_loop f g rest vis = Some r" by simp
      from IH(1)[OF Cons True this] greedy_loop_rel.intros(1)[OF Cons True]
      show ?thesis by (rule via[rotated])
    next
      case nw: False
      show ?thesis
      proof -
        show ?thesis
        proof (cases "isVisited (cells g c)")
          case True
          with run nw have "greedy_loop f g rest vis = Some r" by simp
          from IH(2)[OF Cons nw True this] greedy_loop_rel.intros(2)[OF Cons nw True]
          show ?thesis by (rule via[rotated])
        next
          case nv: False
          show ?thesis
          proof (cases "c = f")
            case True
            with run nw nv Cons have "greedy_exit (f, g, os, vis) r"
              by (auto simp: greedy_exit_def exit_found_def Let_def)
            then show ?thesis by blast
          next
            case nf: False
            obtain g2 os2 where upd: "(g2, os2) = greedy_updateUnvisitedNeighbors c f (setIsVisited c True g) rest"
              by (metis surj_pair)
            from run nw nv nf upd[symmetric] have "greedy_loop f g2 os2 (vis @ [c]) = Some r"
              by (simp add: Let_def)
            from IH(3)[OF Cons nw nv refl refl nf upd this]
              greedy_loop_rel.intros(3)[OF Cons nw nv refl refl nf upd]
            show ?thesis by (rule via[rotated])
          qed
        qed
      qed
    qed
  qed
qed


section \<open>BMSSP moves by elementary steps\<close>


lemma grid_step_shape:
  assumes "grid_step nb g g'"
  shows "rows g' = rows g \<and> cols g' = cols g \<and> isWall (cells g' p) = isWall (cells g p) \<and>
    distance (cells g' p) \<le> distance (cells g p) \<and>
    (isVisited (cells g p) \<longrightarrow> isVisited (cells g' p))"
  using assms by (cases rule: grid_step.cases) (auto simp: setters)

lemma grid_steps_shape:
  assumes "(grid_step nb)\<^sup>*\<^sup>* g g'"
  shows "rows g' = rows g \<and> cols g' = cols g \<and> isWall (cells g' p) = isWall (cells g p) \<and>
    distance (cells g' p) \<le> distance (cells g p) \<and>
    (isVisited (cells g p) \<longrightarrow> isVisited (cells g' p))"
  using assms
proof (induction rule: rtranclp_induct)
  case base show ?case by simp
next
  case (step y z)
  from grid_step_shape[OF step(2), of p] step(3) show ?case by auto
qed

lemma grid_steps_fin:
  "(grid_step nb)\<^sup>*\<^sup>* g g' \<Longrightarrow> distance (cells g p) \<noteq> \<infinity> \<Longrightarrow> distance (cells g' p) \<noteq> \<infinity>"
proof
  assume a: "(grid_step nb)\<^sup>*\<^sup>* g g'" "distance (cells g p) \<noteq> \<infinity>" "distance (cells g' p) = \<infinity>"
  from grid_steps_shape[OF a(1), of p] have "distance (cells g' p) \<le> distance (cells g p)" by blast
  with a(3) have "distance (cells g p) = \<infinity>" by simp
  with a(2) show False by blast
qed

lemma adjacentCells_shape:
  "rows g' = rows g \<Longrightarrow> cols g' = cols g \<Longrightarrow> adjacentCells g' u = adjacentCells g u"
  by (cases u) simp

lemma getNeighbors_steps:
  assumes "(grid_step nb)\<^sup>*\<^sup>* g g'"
  shows "getNeighbors u g' = getNeighbors u g"
proof -
  have "adjacentCells g' u = adjacentCells g u"
    using grid_steps_shape[OF assms] by (intro adjacentCells_shape) auto
  moreover have "\<And>p. isWall (cells g' p) = isWall (cells g p)"
    using grid_steps_shape[OF assms] by blast
  ultimately show ?thesis by (simp add: getNeighbors_def)
qed

lemma relaxTo_step:
  assumes "v \<in> set (getNeighbors u g)" "distance (cells g u) + 1 \<le> distance (cells g v)"
  shows "grid_step nonWallNeighbors g (relaxTo u v g)"
proof -
  let ?n = "(cells g v)\<lparr>distance := distance (cells g u) + 1, previousNode := Some u\<rparr>"
  have "grid_step nonWallNeighbors g (g\<lparr>cells := (cells g)(v := ?n)\<rparr>)"
    by (rule grid_step.relax[of v _ _ u]) (use assms in \<open>auto simp: nonWallNeighbors_def\<close>)
  moreover have "relaxTo u v g = g\<lparr>cells := (cells g)(v := ?n)\<rparr>"
    by (simp add: relaxTo_def setters)
  ultimately show ?thesis by simp
qed


lemma findPivots_relax_steps:
  assumes "v \<in> set (getNeighbors u (gridRef (fst s)))"
  shows "stepsB (gridRef (fst s)) (gridRef (fst (findPivots_relax B u v s)))"
  using assms relaxTo_step[of v u "gridRef (fst s)"]
  by (cases s) (auto simp: Let_def)

lemma fold_steps:
  assumes "\<And>v s. v \<in> set (getNeighbors u (gridRef (fst s))) \<Longrightarrow> stepsB (gridRef (fst s)) (gridRef (fst (f v s)))"
    and "set vs \<subseteq> set (getNeighbors u (gridRef (fst s)))"
  shows "stepsB (gridRef (fst s)) (gridRef (fst (fold f vs s)))"
  using assms(2)
proof (induction vs arbitrary: s)
  case Nil show ?case by simp
next
  case (Cons v vs)
  have 1: "stepsB (gridRef (fst s)) (gridRef (fst (f v s)))" using Cons.prems by (intro assms(1)) simp
  have "getNeighbors u (gridRef (fst (f v s))) = getNeighbors u (gridRef (fst s))"
    by (rule getNeighbors_steps[OF 1])
  with Cons.prems have "set vs \<subseteq> set (getNeighbors u (gridRef (fst (f v s))))" by simp
  from Cons.IH[OF this] 1 show ?case by simp
qed

lemma findPivots_scan_steps:
  "stepsB (gridRef (fst s)) (gridRef (fst (findPivots_scan B u s)))"
  unfolding findPivots_scan_def
  by (rule fold_steps) (auto intro: findPivots_relax_steps)

lemma fold_any_steps:
  assumes "\<And>x s. stepsB (gridRef (fst s)) (gridRef (fst (f x s)))"
  shows "stepsB (gridRef (fst s)) (gridRef (fst (fold f xs s)))"
proof (induction xs arbitrary: s)
  case Nil show ?case by simp
next
  case (Cons x xs)
  from assms[of s x] Cons[of "f x s"] show ?case by simp
qed

lemma findPivots_loop_steps:
  "stepsB (gridRef c) (gridRef (fst (findPivots_loop i k B S c W W_prev W_list)))"
proof (induction i arbitrary: c W W_prev W_list)
  case 0 show ?case by simp
next
  case (Suc i)
  obtain c1 W_curr where r: "fold (findPivots_scan B) W_prev (c, []) = (c1, W_curr)"
    by (cases "fold (findPivots_scan B) W_prev (c, [])")
  have 1: "stepsB (gridRef c) (gridRef c1)"
    using fold_any_steps[of "findPivots_scan B" "(c, [])" W_prev, OF findPivots_scan_steps] r by simp
  obtain W1 W_list1 where m: "fold mergeInto W_curr (W, W_list) = (W1, W_list1)"
    by (cases "fold mergeInto W_curr (W, W_list)")
  show ?case using 1 Suc[of c1 W1 W_curr W_list1] r m by auto
qed

lemma findPivots_steps:
  "findPivots k B S c = (PW, c') \<Longrightarrow> stepsB (gridRef c) (gridRef c')"
  using findPivots_loop_steps[of c k k B S "newSet S" "newSet S" S]
  by (auto simp: findPivots_def split: prod.splits)

lemma findPivots_P: "findPivots k B S c = ((P, W), c') \<Longrightarrow> P = S"
  by (auto simp: findPivots_def split: prod.splits)


subsection \<open>The nodes held by the heap and by the bucket structure\<close>

lemma bubbleUp_loop_subset:
  "n < length es \<Longrightarrow> set (bubbleUp_loop e es n) \<subseteq> insert e (set es)"
proof (induction e es n rule: bubbleUp_loop.induct)
  case (1 e es n)
  show ?case
  proof (cases "n > 0 \<and> \<not> snd e \<ge> snd (es ! ((n + 1) div 2 - 1))")
    case False
    then show ?thesis by (subst bubbleUp_loop.simps) (auto simp: Let_def)
  next
    case True
    let ?p = "(n + 1) div 2 - 1"
    let ?es = "es[?p := e, n := es ! ?p]"
    from True "1.prems" have p: "?p < length es" by auto
    then have mem: "es ! ?p \<in> set es" by simp
    have sub: "set ?es \<subseteq> insert e (set es)"
      using set_update_subset_insert[of "es[?p := e]" n "es ! ?p"]
        set_update_subset_insert[of es ?p e] mem by auto
    have "set (bubbleUp_loop e ?es ?p) \<subseteq> insert e (set ?es)"
      using True p by (intro "1.IH"[OF _ refl refl]) auto
    with sub have "set (bubbleUp_loop e ?es ?p) \<subseteq> insert e (set es)" by auto
    with True show ?thesis by (subst bubbleUp_loop.simps) (simp add: Let_def)
  qed
qed

lemma bubbleDown_loop_subset:
  "set (bubbleDown_loop e es n) \<subseteq> insert e (set es)"
proof (induction e es n rule: bubbleDown_loop.induct)
  case (1 e es n)
  define c2 where "c2 = (n + 1) * 2"
  define swap1 where "swap1 = (if c2 - 1 < length es \<and> snd (es ! (c2 - 1)) < snd e then Some (c2 - 1) else None)"
  define swap2 where "swap2 = (if c2 < length es \<and> snd (es ! c2) <
       (case swap1 of None \<Rightarrow> snd e | Some _ \<Rightarrow> snd (es ! (c2 - 1))) then Some c2 else swap1)"
  have unfold: "bubbleDown_loop e es n =
      (case swap2 of None \<Rightarrow> es
       | Some swap \<Rightarrow> bubbleDown_loop e (es[n := es ! swap, swap := e]) swap)"
    by (subst bubbleDown_loop.simps) (simp add: Let_def swap2_def swap1_def c2_def)
  show ?case
  proof (cases swap2)
    case None
    with unfold show ?thesis by auto
  next
    case (Some sw)
    then have "(sw = c2 \<and> c2 < length es) \<or> swap1 = Some sw"
      unfolding swap2_def by (metis option.inject)
    moreover have "swap1 = Some sw \<Longrightarrow> sw < length es"
      unfolding swap1_def by (metis option.distinct(1) option.inject)
    ultimately have lt: "sw < length es" by blast
    then have mem: "es ! sw \<in> set es" by simp
    let ?es = "es[n := es ! sw, sw := e]"
    have sub: "set ?es \<subseteq> insert e (set es)"
      using set_update_subset_insert[of "es[n := es ! sw]" sw e]
        set_update_subset_insert[of es n "es ! sw"] mem by auto
    have "set (bubbleDown_loop e ?es sw) \<subseteq> insert e (set ?es)"
      by (rule "1.IH"[OF refl refl refl refl refl Some[unfolded swap2_def swap1_def c2_def]])
    with sub unfold Some show ?thesis by auto
  qed
qed

lemma heap_push_subset: "set (heap_push h n d) \<subseteq> insert (n, d) (set h)"
  using bubbleUp_loop_subset[of "length h" "h @ [(n, d)]" "(n, d)"]
  by (auto simp: heap_push_def bubbleUp_def)

lemma heap_pop_subset:
  assumes "heap_pop h = (Some m, h1)"
  shows "m \<in> set h \<and> set h1 \<subseteq> set h"
proof -
  from assms have ne: "h \<noteq> []" by (auto simp: heap_pop_def split: if_splits)
  then have m: "m = hd h" using assms by (auto simp: heap_pop_def Let_def split: if_splits)
  have bl: "set (butlast h) \<subseteq> set h" by (meson in_set_butlastD subsetI)
  have "set h1 \<subseteq> set h"
  proof (cases "butlast h = []")
    case True
    with assms ne show ?thesis by (auto simp: heap_pop_def Let_def)
  next
    case False
    then have "0 < length (butlast h)" by (rule length_greater_0_conv[THEN iffD2])
    then have "(butlast h)[0 := last h] ! 0 = last h" by (rule nth_list_update_eq)
    with False have h1: "h1 = bubbleDown_loop (last h) ((butlast h)[0 := last h]) 0"
      using assms ne by (auto simp: heap_pop_def Let_def bubbleDown_def)
    have "set ((butlast h)[0 := last h]) \<subseteq> insert (last h) (set (butlast h))"
      by (rule set_update_subset_insert)
    moreover have "last h \<in> set h" using ne by (rule last_in_set)
    ultimately have "insert (last h) (set ((butlast h)[0 := last h])) \<subseteq> set h" using bl by blast
    with bubbleDown_loop_subset[of "last h" "(butlast h)[0 := last h]" 0]
    show ?thesis unfolding h1 by blast
  qed
  with m ne show ?thesis by simp
qed

lemma findIndex_Some:
  "findIndex P xs = Some i \<Longrightarrow> i < length xs \<and> P (xs ! i)"
  by (induction xs arbitrary: i) (auto split: if_splits)

lemma findIndex_None: "findIndex P xs = None \<Longrightarrow> \<forall>x\<in>set xs. \<not> P x"
  by (induction xs) (auto split: if_splits)

lemma heap_decreaseKey_nodes:
  "fst ` set (heap_decreaseKey h v d) \<subseteq> fst ` set h"
proof (cases "findIndex (\<lambda>e. fst e = v) h")
  case None
  then show ?thesis by (simp add: heap_decreaseKey_def)
next
  case (Some idx)
  from findIndex_Some[OF Some] have idx: "idx < length h" "fst (h ! idx) = v" by auto
  show ?thesis
  proof (cases "d < snd (h ! idx)")
    case False
    with Some show ?thesis by (simp add: heap_decreaseKey_def)
  next
    case True
    let ?h = "h[idx := (fst (h ! idx), d)]"
    have "set (bubbleUp_loop (?h ! idx) ?h idx) \<subseteq> insert (?h ! idx) (set ?h)"
      using idx by (intro bubbleUp_loop_subset) simp
    moreover have "set ?h \<subseteq> insert (fst (h ! idx), d) (set h)" by (rule set_update_subset_insert)
    moreover have "?h ! idx = (fst (h ! idx), d)" using idx by simp
    moreover have "fst (h ! idx) \<in> fst ` set h" using idx by (metis imageI nth_mem)
    ultimately have "set (bubbleUp_loop (?h ! idx) ?h idx) \<subseteq> insert (fst (h ! idx), d) (set h)"
      "fst (h ! idx) \<in> fst ` set h" by auto
    then have "fst ` set (bubbleUp_loop (?h ! idx) ?h idx) \<subseteq> fst ` set h" by force
    with Some True show ?thesis by (simp add: heap_decreaseKey_def bubbleUp_def)
  qed
qed

lemma heap_push_nodes: "fst ` set (heap_push h n d) \<subseteq> insert n (fst ` set h)"
  using heap_push_subset[of h n d] by auto

lemma splice_nodes:
  "fst ` set (take low its @ [(n, v)] @ drop low its) \<subseteq> insert n (fst ` set its)"
  by (force dest: in_set_takeD in_set_dropD)

lemma remove_nodes:
  "fst ` set (take i its @ drop (Suc i) its) \<subseteq> fst ` set its"
  by (force dest: in_set_takeD in_set_dropD)

lemma D_insert_nodes:
  "fst ` set (items (D_insert D n v)) \<subseteq> insert n (fst ` set (items D))"
proof (cases "findIndex (\<lambda>i. fst i = n) (items D)")
  case None
  then show ?thesis using splice_nodes[of _ "items D" n v] by (simp add: D_insert_def Let_def)
next
  case (Some i)
  let ?its = "take i (items D) @ drop (Suc i) (items D)"
  show ?thesis
  proof (cases "snd (items D ! i) > v")
    case True
    have "fst ` set (take (binaryInsertionIndex ?its v 0 (length ?its)) ?its @ [(n, v)] @
                     drop (binaryInsertionIndex ?its v 0 (length ?its)) ?its)
          \<subseteq> insert n (fst ` set ?its)" by (rule splice_nodes)
    also have "\<dots> \<subseteq> insert n (fst ` set (items D))" using remove_nodes[of i "items D"] by blast
    finally show ?thesis using Some True by (simp add: D_insert_def Let_def)
  next
    case False
    with Some show ?thesis by (auto simp: D_insert_def Let_def)
  qed
qed

lemma D_pull_nodes:
  assumes "D_pull D = ((Bi, Si), D1)"
  shows "set Si \<subseteq> fst ` set (items D) \<and> set (items D1) \<subseteq> set (items D)"
proof -
  have t: "set (map fst (take c (items D))) \<subseteq> fst ` set (items D)" for c
    by (force dest: in_set_takeD)
  have d: "set (drop c (items D)) \<subseteq> set (items D)" for c
    by (rule set_drop_subset)
  show ?thesis
  proof (cases "items D = []")
    case True
    with assms show ?thesis by (auto simp: D_pull_def)
  next
    case False
    with assms have "Si = map fst (take (min (length (items D)) (d_M D)) (items D))"
      "items D1 = drop (min (length (items D)) (d_M D)) (items D)"
      by (auto simp: D_pull_def Let_def)
    with t d show ?thesis by simp
  qed
qed

lemma D_batchPrepend_nodes:
  "fst ` set (items (D_batchPrepend D its)) \<subseteq> fst ` set (items D) \<union> fst ` set its"
  unfolding D_batchPrepend_def
proof (induction its arbitrary: D)
  case Nil show ?case by simp
next
  case (Cons x xs)
  from Cons[of "D_insert D (fst x) (snd x)"] D_insert_nodes[of D "fst x" "snd x"]
  show ?case by auto
qed




lemma finiteAt_steps: "stepsB g g' \<Longrightarrow> finiteAt g X \<Longrightarrow> finiteAt g' X"
  unfolding finiteAt_def using grid_steps_fin by blast

lemma finiteAt_mono: "finiteAt g X \<Longrightarrow> Y \<subseteq> X \<Longrightarrow> finiteAt g Y"
  unfolding finiteAt_def by blast

lemma finiteAt_insert: "finiteAt g (insert x X) = (distance (cells g x) \<noteq> \<infinity> \<and> finiteAt g X)"
  unfolding finiteAt_def by blast

lemma finiteAt_Un: "finiteAt g (X \<union> Y) = (finiteAt g X \<and> finiteAt g Y)"
  unfolding finiteAt_def by blast

lemma less_finite: "(x::enat) < B \<Longrightarrow> x \<noteq> \<infinity>"
  by (rule notI) simp

lemma markVisited_steps:
  "distance (cells (gridRef c) n) \<noteq> \<infinity> \<Longrightarrow> stepsB (gridRef c) (gridRef (markVisited n c))"
  by (auto simp: markVisited_def intro: grid_step.close)

lemma baseCase_relax_steps:
  assumes "v \<in> set (getNeighbors u (gridRef (fst s)))" "finiteAt (gridRef (fst s)) (fst ` set (snd s))"
  shows "stepsB (gridRef (fst s)) (gridRef (fst (baseCase_relax B u v s))) \<and>
         finiteAt (gridRef (fst (baseCase_relax B u v s))) (fst ` set (snd (baseCase_relax B u v s)))"
proof -
  obtain c h where s: "s = (c, h)" by (cases s)
  let ?g = "gridRef c"
  show ?thesis
  proof (cases "distance (cells ?g u) + 1 \<le> distance (cells ?g v) \<and> distance (cells ?g u) + 1 < B")
    case False
    with assms show ?thesis by (auto simp: s)
  next
    case True
    let ?g1 = "relaxTo u v ?g"
    have st: "grid_step nonWallNeighbors ?g ?g1"
      using assms True by (intro relaxTo_step) (simp_all add: s)
    then have sts: "stepsB ?g ?g1" by blast
    have fv: "distance (cells ?g1 v) \<noteq> \<infinity>"
      using True less_finite[of "distance (cells ?g u) + 1" B] by (simp add: relaxTo_def setters)
    have fh: "finiteAt ?g1 (fst ` set h)" using finiteAt_steps[OF sts] assms(2) by (simp add: s)
    have "finiteAt ?g1 (fst ` set (if heap_contains h v then heap_decreaseKey h v (distance (cells ?g1 v))
                else heap_push h v (distance (cells ?g1 v))))"
    proof (cases "heap_contains h v")
      case True
      have "finiteAt ?g1 (fst ` set (heap_decreaseKey h v (distance (cells ?g1 v))))"
        by (rule finiteAt_mono[OF fh heap_decreaseKey_nodes])
      with True show ?thesis by simp
    next
      case False
      have "finiteAt ?g1 (insert v (fst ` set h))" using fh fv by (simp add: finiteAt_insert)
      then have "finiteAt ?g1 (fst ` set (heap_push h v (distance (cells ?g1 v))))"
        by (rule finiteAt_mono[OF _ heap_push_nodes])
      with False show ?thesis by simp
    qed
    with sts True show ?thesis by (simp add: s Let_def)
  qed
qed

lemma baseCase_fold_steps:
  assumes "set vs \<subseteq> set (getNeighbors u (gridRef (fst s)))" "finiteAt (gridRef (fst s)) (fst ` set (snd s))"
  shows "stepsB (gridRef (fst s)) (gridRef (fst (fold (baseCase_relax B u) vs s))) \<and>
         finiteAt (gridRef (fst (fold (baseCase_relax B u) vs s)))
           (fst ` set (snd (fold (baseCase_relax B u) vs s)))"
  using assms
proof (induction vs arbitrary: s)
  case Nil then show ?case by simp
next
  case (Cons v vs)
  from Cons.prems have v: "v \<in> set (getNeighbors u (gridRef (fst s)))" by simp
  note 1 = baseCase_relax_steps[OF v Cons.prems(2), of B]
  have "getNeighbors u (gridRef (fst (baseCase_relax B u v s))) = getNeighbors u (gridRef (fst s))"
    using 1 by (intro getNeighbors_steps) blast
  with Cons.prems have "set vs \<subseteq> set (getNeighbors u (gridRef (fst (baseCase_relax B u v s))))" by simp
  from Cons.IH[OF this] 1 show ?case by auto
qed

lemma baseCase_loop_steps:
  assumes "baseCase_loop k B c h U0 = Some r"
    and "finiteAt (gridRef c) (fst ` set h)" "finiteAt (gridRef c) (set U0)"
  shows "stepsB (gridRef c) (gridRef (fst r)) \<and> finiteAt (gridRef (fst r)) (set (snd r))"
  using assms
proof (induction k B c h U0 r rule: baseCase_loop_induct)
  case (step loop k B c h U0 r)
  show ?case
  proof (cases "h \<noteq> [] \<and> length U0 < k + 1")
    case False
    with step(2,4) show ?thesis by auto
  next
    case True
    show ?thesis
    proof (cases "heap_pop h")
      case (Pair m h1)
      show ?thesis
      proof (cases m)
        case None
        with step(2,4) True Pair show ?thesis by auto
      next
        case (Some e)
        obtain u d where e: "e = (u, d)" by (cases e)
        show ?thesis
        proof (cases "B \<le> d")
          case True
          with step(2,4) \<open>h \<noteq> [] \<and> length U0 < k + 1\<close> Pair Some e show ?thesis by auto
        next
          case False
          from heap_pop_subset[of h e h1] Pair Some e
          have pop: "(u, d) \<in> set h" "set h1 \<subseteq> set h" by auto
          then have fu: "distance (cells (gridRef c) u) \<noteq> \<infinity>"
            using step(3) by (force simp: finiteAt_def)
          let ?c1 = "markVisited u c"
          have s1: "stepsB (gridRef c) (gridRef ?c1)" by (rule markVisited_steps[OF fu])
          have fh1: "finiteAt (gridRef ?c1) (fst ` set h1)"
            using finiteAt_steps[OF s1 step(3)] pop(2) by (auto intro: finiteAt_mono)
          obtain c2 h2 where f: "fold (baseCase_relax B u) (getNeighbors u (gridRef ?c1)) (?c1, h1) = (c2, h2)"
            by (cases "fold (baseCase_relax B u) (getNeighbors u (gridRef ?c1)) (?c1, h1)")
          from baseCase_fold_steps[of "getNeighbors u (gridRef ?c1)" u "(?c1, h1)" B] fh1 f
          have s2: "stepsB (gridRef ?c1) (gridRef c2)" and fh2: "finiteAt (gridRef c2) (fst ` set h2)"
            by auto
          have s12: "stepsB (gridRef c) (gridRef c2)" using s1 s2 by (rule rtranclp_trans)
          have fU: "finiteAt (gridRef c2) (set (set_add u U0))"
            using finiteAt_steps[OF s12 step(4)] grid_steps_fin[OF s12 fu]
            by (simp add: set_set_add finiteAt_insert)
          from step(2) True Pair Some e False f
          have "loop k B c2 h2 (set_add u U0) = Some r" by (simp add: Let_def)
          from step(1)[OF this fh2 fU] s12 show ?thesis by (auto intro: rtranclp_trans)
        qed
      qed
    qed
  qed
qed

lemma heap_of_sources:
  "fst ` set (fold (\<lambda>node h. heap_push h node (f node)) S h0) \<subseteq> set S \<union> fst ` set h0"
proof (induction S arbitrary: h0)
  case Nil show ?case by simp
next
  case (Cons x xs)
  from Cons[of "heap_push h0 x (f x)"] heap_push_nodes[of h0 x "f x"] show ?case by auto
qed

lemma baseCase_steps:
  assumes "baseCase k B S c = Some ((boundary, U), c')" "finiteAt (gridRef c) (set S)"
  shows "stepsB (gridRef c) (gridRef c') \<and> finiteAt (gridRef c') (set U)"
proof -
  let ?h = "fold (\<lambda>node h. heap_push h node (distance (cells (gridRef c) node))) S []"
  from assms(1) obtain r where r: "baseCase_loop k B c ?h (newSet S) = Some r"
    and res: "baseCase_result k B (gridRef (fst r)) (snd r) = (boundary, U)" "fst r = c'"
    by (auto simp: baseCase_def split: Option.bind_splits)
  have "finiteAt (gridRef c) (fst ` set ?h)"
    using heap_of_sources[of "\<lambda>node. distance (cells (gridRef c) node)" S "[]"] assms(2)
    by (auto intro: finiteAt_mono)
  from baseCase_loop_steps[OF r this] assms(2)
  have 1: "stepsB (gridRef c) (gridRef (fst r))" "finiteAt (gridRef (fst r)) (set (snd r))"
    by (simp_all add: set_newSet)
  have "set U \<subseteq> set (snd r)" using res(1) by (auto simp: baseCase_result_def Let_def split: if_splits)
  with 1 res(2) show ?thesis by (auto intro: finiteAt_mono)
qed



lemma bmssp_relax_steps:
  assumes "v \<in> set (getNeighbors u (gridRef (fst s)))"
    and "finiteAt (gridRef (fst s)) (fst ` set (items (fst (snd s))))"
    and "finiteAt (gridRef (fst s)) (fst ` set (snd (snd s)))"
  shows "stepsB (gridRef (fst s)) (gridRef (fst (bmssp_relax B Bi Bpi u v s))) \<and>
         finiteAt (gridRef (fst (bmssp_relax B Bi Bpi u v s)))
           (fst ` set (items (fst (snd (bmssp_relax B Bi Bpi u v s))))) \<and>
         finiteAt (gridRef (fst (bmssp_relax B Bi Bpi u v s)))
           (fst ` set (snd (snd (bmssp_relax B Bi Bpi u v s))))"
proof -
  obtain c D K where s: "s = (c, D, K)" by (cases s)
  let ?g = "gridRef c"
  show ?thesis
  proof (cases "distance (cells ?g u) + 1 \<le> distance (cells ?g v)")
    case False
    with assms show ?thesis by (auto simp: s)
  next
    case True
    let ?g1 = "relaxTo u v ?g"
    let ?nd = "distance (cells ?g1 v)"
    have "grid_step nonWallNeighbors ?g ?g1"
      using assms True by (intro relaxTo_step) (simp_all add: s)
    then have sts: "stepsB ?g ?g1" by blast
    have fD: "finiteAt ?g1 (fst ` set (items D))" and fK: "finiteAt ?g1 (fst ` set K)"
      using finiteAt_steps[OF sts] assms(2,3) by (simp_all add: s)
    show ?thesis
    proof (cases "?nd \<ge> Bi \<and> ?nd < B")
      case a: True
      then have "?nd \<noteq> \<infinity>" using less_finite by blast
      then have "finiteAt ?g1 (insert v (fst ` set (items D)))" using fD by (simp add: finiteAt_insert)
      then have "finiteAt ?g1 (fst ` set (items (D_insert D v ?nd)))"
        by (rule finiteAt_mono[OF _ D_insert_nodes])
      moreover have "bmssp_relax B Bi Bpi u v s = (c\<lparr>gridRef := ?g1\<rparr>, D_insert D v ?nd, K)"
        using True a by (auto simp: s Let_def)
      ultimately show ?thesis using sts fK by (simp add: s)
    next
      case na: False
      show ?thesis
      proof (cases "?nd \<ge> Bpi \<and> ?nd < Bi")
        case b: True
        then have "?nd \<noteq> \<infinity>" using less_finite by blast
        then have "finiteAt ?g1 (fst ` set (K @ [(v, ?nd)]))" using fK by (simp add: finiteAt_insert)
        moreover have "bmssp_relax B Bi Bpi u v s = (c\<lparr>gridRef := ?g1\<rparr>, D, K @ [(v, ?nd)])"
          using True na b by (auto simp: s Let_def)
        ultimately show ?thesis using sts fD by (simp add: s)
      next
        case False
        have "bmssp_relax B Bi Bpi u v s = (c\<lparr>gridRef := ?g1\<rparr>, D, K)"
          using True na False by (auto simp: s Let_def)
        then show ?thesis using sts fD fK by (simp add: s)
      qed
    qed
  qed
qed

lemma bmssp_scan_steps:
  assumes "finiteAt (gridRef (fst s)) (fst ` set (items (fst (snd s))))"
    and "finiteAt (gridRef (fst s)) (fst ` set (snd (snd s)))"
  shows "stepsB (gridRef (fst s)) (gridRef (fst (bmssp_scan B Bi Bpi u s))) \<and>
         finiteAt (gridRef (fst (bmssp_scan B Bi Bpi u s)))
           (fst ` set (items (fst (snd (bmssp_scan B Bi Bpi u s))))) \<and>
         finiteAt (gridRef (fst (bmssp_scan B Bi Bpi u s)))
           (fst ` set (snd (snd (bmssp_scan B Bi Bpi u s))))"
proof -
  have "set vs \<subseteq> set (getNeighbors u (gridRef (fst s))) \<Longrightarrow>
        finiteAt (gridRef (fst s)) (fst ` set (items (fst (snd s)))) \<Longrightarrow>
        finiteAt (gridRef (fst s)) (fst ` set (snd (snd s))) \<Longrightarrow>
        stepsB (gridRef (fst s)) (gridRef (fst (fold (bmssp_relax B Bi Bpi u) vs s))) \<and>
         finiteAt (gridRef (fst (fold (bmssp_relax B Bi Bpi u) vs s)))
           (fst ` set (items (fst (snd (fold (bmssp_relax B Bi Bpi u) vs s))))) \<and>
         finiteAt (gridRef (fst (fold (bmssp_relax B Bi Bpi u) vs s)))
           (fst ` set (snd (snd (fold (bmssp_relax B Bi Bpi u) vs s))))" for vs s
  proof (induction vs arbitrary: s)
    case Nil then show ?case by simp
  next
    case (Cons v vs)
    from Cons.prems have v: "v \<in> set (getNeighbors u (gridRef (fst s)))" by simp
    note 1 = bmssp_relax_steps[OF v Cons.prems(2,3), of B Bi Bpi]
    have "getNeighbors u (gridRef (fst (bmssp_relax B Bi Bpi u v s))) = getNeighbors u (gridRef (fst s))"
      using 1 by (intro getNeighbors_steps) blast
    with Cons.prems have "set vs \<subseteq> set (getNeighbors u (gridRef (fst (bmssp_relax B Bi Bpi u v s))))"
      by simp
    from Cons.IH[OF this] 1 show ?case by auto
  qed
  from this[OF subset_refl assms] show ?thesis by (simp add: bmssp_scan_def)
qed

lemma bmssp_scans_steps:
  assumes "finiteAt (gridRef (fst s)) (fst ` set (items (fst (snd s))))"
    and "finiteAt (gridRef (fst s)) (fst ` set (snd (snd s)))"
  shows "stepsB (gridRef (fst s)) (gridRef (fst (fold (bmssp_scan B Bi Bpi) us s))) \<and>
         finiteAt (gridRef (fst (fold (bmssp_scan B Bi Bpi) us s)))
           (fst ` set (items (fst (snd (fold (bmssp_scan B Bi Bpi) us s))))) \<and>
         finiteAt (gridRef (fst (fold (bmssp_scan B Bi Bpi) us s)))
           (fst ` set (snd (snd (fold (bmssp_scan B Bi Bpi) us s))))"
  using assms
proof (induction us arbitrary: s)
  case Nil then show ?case by simp
next
  case (Cons u us)
  note 1 = bmssp_scan_steps[OF Cons.prems, of B Bi Bpi u]
  from Cons.IH[of "bmssp_scan B Bi Bpi u s"] 1 show ?case by auto
qed

lemma addAndMark_steps:
  assumes "finiteAt (gridRef (fst s)) (set us)"
  shows "stepsB (gridRef (fst s)) (gridRef (fst (fold addAndMark us s))) \<and>
         set (snd (fold addAndMark us s)) = set (snd s) \<union> set us"
  using assms
proof (induction us arbitrary: s)
  case Nil then show ?case by simp
next
  case (Cons u us)
  from Cons.prems have fu: "distance (cells (gridRef (fst s)) u) \<noteq> \<infinity>" by (simp add: finiteAt_def)
  have 1: "stepsB (gridRef (fst s)) (gridRef (fst (addAndMark u s)))"
    using markVisited_steps[OF fu] by (simp add: addAndMark_def)
  have "finiteAt (gridRef (fst (addAndMark u s))) (set us)"
    using finiteAt_steps[OF 1] Cons.prems by (auto simp: finiteAt_def)
  from Cons.IH[OF this] 1 show ?case by (auto simp: addAndMark_def set_set_add)
qed

lemma bmssp_round_steps:
  assumes "bmssp_round B Bi Si Bpi Ui c D U = (c2, D2, U2, B2)"
    and "finiteAt (gridRef c) (set Ui)" "finiteAt (gridRef c) (fst ` set (items D))"
    and "finiteAt (gridRef c) (set U)"
  shows "stepsB (gridRef c) (gridRef c2) \<and> finiteAt (gridRef c2) (fst ` set (items D2)) \<and>
         finiteAt (gridRef c2) (set U2)"
proof -
  obtain c1 U1 where m: "fold addAndMark Ui (c, U) = (c1, U1)" by (cases "fold addAndMark Ui (c, U)")
  from addAndMark_steps[of "(c, U)" Ui] assms(2) m
  have s1: "stepsB (gridRef c) (gridRef c1)" and U1: "set U1 = set U \<union> set Ui" by auto
  obtain c2' D' K where sc: "fold (bmssp_scan B Bi Bpi) Ui (c1, D, []) = (c2', D', K)"
    by (cases "fold (bmssp_scan B Bi Bpi) Ui (c1, D, [])") auto
  have "finiteAt (gridRef c1) (fst ` set (items D))" by (rule finiteAt_steps[OF s1 assms(3)])
  from bmssp_scans_steps[of "(c1, D, [])" B Bi Bpi Ui] this sc
  have s2: "stepsB (gridRef c1) (gridRef c2')" and fD: "finiteAt (gridRef c2') (fst ` set (items D'))"
    and fK: "finiteAt (gridRef c2') (fst ` set K)" by (auto simp: finiteAt_def)
  let ?pl = "K @ map (\<lambda>x. (x, distance (cells (gridRef c2') x)))
                           (filter (\<lambda>x. distance (cells (gridRef c2') x) \<ge> Bpi \<and>
                                        distance (cells (gridRef c2') x) < Bi) Si)"
  from assms(1) m sc have eq: "c2 = c2'" "D2 = D_batchPrepend D' ?pl" "U2 = U1"
    by (auto simp: bmssp_round_def Let_def)
  have "finiteAt (gridRef c2') (fst ` set ?pl)"
    using fK less_finite by (auto simp: finiteAt_def)
  with fD have "finiteAt (gridRef c2') (fst ` set (items D') \<union> fst ` set ?pl)"
    by (simp add: finiteAt_Un)
  then have fD2: "finiteAt (gridRef c2') (fst ` set (items (D_batchPrepend D' ?pl)))"
    by (rule finiteAt_mono[OF _ D_batchPrepend_nodes])
  have s12: "stepsB (gridRef c) (gridRef c2')" using s1 s2 by (rule rtranclp_trans)
  have "finiteAt (gridRef c2') (set U1)"
    using finiteAt_steps[OF s12 assms(4)] finiteAt_steps[OF s12 assms(2)] by (simp add: U1 finiteAt_Un)
  with s12 fD2 show ?thesis by (simp add: eq)
qed

lemmas bmssp_while_induct = bmssp_while.raw_induct[rotated 1, consumes 1, case_names step]

lemma bmssp_while_steps:
  assumes "bmssp_while rec sizeLimit B c D U B_prime = Some r"
    and "\<And>Bi Si c r. rec Bi Si c = Some r \<Longrightarrow> finiteAt (gridRef c) (set Si) \<Longrightarrow>
           stepsB (gridRef c) (gridRef (snd r)) \<and> finiteAt (gridRef (snd r)) (set (snd (fst r)))"
    and "finiteAt (gridRef c) (fst ` set (items D))" "finiteAt (gridRef c) (set U)"
  shows "stepsB (gridRef c) (gridRef (fst r)) \<and> finiteAt (gridRef (fst r)) (set (fst (snd r)))"
  using assms
proof (induction rec sizeLimit B c D U B_prime r rule: bmssp_while_induct)
  case (step loop rec sizeLimit B c D U B_prime r)
  show ?case
  proof (cases "length U < sizeLimit \<and> \<not> D_isEmpty D")
    case False
    with step(2,5) show ?thesis by auto
  next
    case True
    obtain Bi Si D1 where pull: "D_pull D = ((Bi, Si), D1)" by (cases "D_pull D") auto
    from D_pull_nodes[OF pull] have Si: "set Si \<subseteq> fst ` set (items D)"
      and D1: "fst ` set (items D1) \<subseteq> fst ` set (items D)" by auto
    from step(2) True pull obtain r1 where r1: "rec Bi Si c = Some r1"
      and rest: "(case bmssp_round B Bi Si (fst (fst r1)) (snd (fst r1)) (snd r1) D1 U of
                    (c2, D2, U2, B_prime2) \<Rightarrow> loop rec sizeLimit B c2 D2 U2 B_prime2) = Some r"
      by (auto split: Option.bind_splits)
    have "finiteAt (gridRef c) (set Si)" by (rule finiteAt_mono[OF step(4) Si])
    from step(3)[OF r1 this] have s1: "stepsB (gridRef c) (gridRef (snd r1))"
      and fUi: "finiteAt (gridRef (snd r1)) (set (snd (fst r1)))" by auto
    obtain c2 D2 U2 B2 where rd: "bmssp_round B Bi Si (fst (fst r1)) (snd (fst r1)) (snd r1) D1 U = (c2, D2, U2, B2)"
      by (cases "bmssp_round B Bi Si (fst (fst r1)) (snd (fst r1)) (snd r1) D1 U") auto
    have "finiteAt (gridRef (snd r1)) (fst ` set (items D1))"
      using finiteAt_steps[OF s1 step(4)] D1 by (rule finiteAt_mono)
    from bmssp_round_steps[OF rd fUi this finiteAt_steps[OF s1 step(5)]]
    have s2: "stepsB (gridRef (snd r1)) (gridRef c2)" and fD2: "finiteAt (gridRef c2) (fst ` set (items D2))"
      and fU2: "finiteAt (gridRef c2) (set U2)" by auto
    from rest rd have "loop rec sizeLimit B c2 D2 U2 B2 = Some r" by simp
    from step(1)[OF this step(3) fD2 fU2] s1 s2 show ?thesis
      by (auto intro: rtranclp_trans)
  qed
qed

lemma addWitness_steps:
  "stepsB (gridRef (fst s)) (gridRef (fst (fold (addWitness Bp) W s))) \<and>
   (finiteAt (gridRef (fst s)) (set (snd s)) \<longrightarrow>
      finiteAt (gridRef (fst (fold (addWitness Bp) W s))) (set (snd (fold (addWitness Bp) W s))))"
proof (induction W arbitrary: s)
  case Nil show ?case by simp
next
  case (Cons x W)
  have 1: "stepsB (gridRef (fst s)) (gridRef (fst (addWitness Bp x s))) \<and>
        (finiteAt (gridRef (fst s)) (set (snd s)) \<longrightarrow>
           finiteAt (gridRef (fst (addWitness Bp x s))) (set (snd (addWitness Bp x s))))"
  proof (cases "distance (cells (gridRef (fst s)) x) < Bp")
    case False
    then show ?thesis by (simp add: addWitness_def)
  next
    case True
    then have fx: "distance (cells (gridRef (fst s)) x) \<noteq> \<infinity>" by (rule less_finite)
    have st: "stepsB (gridRef (fst s)) (gridRef (markVisited x (fst s)))" by (rule markVisited_steps[OF fx])
    show ?thesis using True st finiteAt_steps[OF st] grid_steps_fin[OF st fx]
      by (auto simp: addWitness_def addAndMark_def set_set_add finiteAt_insert)
  qed
  from Cons[of "addWitness Bp x s"] 1 show ?case by (auto intro: rtranclp_trans)
qed

lemma D_of_pivots:
  "fst ` set (items (fold (\<lambda>x D. D_insert D x (f x)) P D0)) \<subseteq> set P \<union> fst ` set (items D0)"
proof (induction P arbitrary: D0)
  case Nil show ?case by simp
next
  case (Cons x xs)
  from Cons[of "D_insert D0 x (f x)"] D_insert_nodes[of D0 x "f x"] show ?case by auto
qed

lemma bmsspRecursive_steps:
  assumes "bmsspRecursive k t l B S c = Some r" "finiteAt (gridRef c) (set S)"
  shows "stepsB (gridRef c) (gridRef (snd r)) \<and> finiteAt (gridRef (snd r)) (set (snd (fst r)))"
  using assms
proof (induction l arbitrary: B S c r)
  case 0
  obtain bd U c' where r: "r = ((bd, U), c')" by (cases r) auto
  from 0 baseCase_steps[of k B S c bd U c'] show ?case by (simp add: r)
next
  case (Suc l)
  obtain P W c1 where fp: "findPivots k B S c = ((P, W), c1)" by (cases "findPivots k B S c") auto
  have P: "P = S" by (rule findPivots_P[OF fp])
  have s1: "stepsB (gridRef c) (gridRef c1)" by (rule findPivots_steps[OF fp])
  let ?D1 = "fold (\<lambda>x D. D_insert D x (distance (cells (gridRef c1) x))) P (D_initialize (2 ^ (l * t)) B)"
  let ?Bp = "if P = [] then B else minDistance (gridRef c1) P"
  from Suc.prems(1) fp obtain c2 U Bp where
    w: "bmssp_while (\<lambda>Bi Si c'. bmsspRecursive k t l Bi Si c') (k * 2 ^ (Suc l * t)) B c1 ?D1 [] ?Bp
          = Some (c2, U, Bp)"
    and fin: "(case fold (addWitness Bp) W (c2, U) of (c3, U3) \<Rightarrow> Some ((Bp, U3), c3)) = Some r"
    by (auto simp: Let_def split: Option.bind_splits)
  have fD: "finiteAt (gridRef c1) (fst ` set (items ?D1))"
    using D_of_pivots[of "\<lambda>x. distance (cells (gridRef c1) x)" P "D_initialize (2 ^ (l * t)) B"]
      finiteAt_steps[OF s1 Suc.prems(2)] P
    by (auto simp: D_initialize_def intro: finiteAt_mono)
  have "stepsB (gridRef c1) (gridRef (fst (c2, U, Bp))) \<and>
        finiteAt (gridRef (fst (c2, U, Bp))) (set (fst (snd (c2, U, Bp))))"
    by (rule bmssp_while_steps[OF w Suc.IH fD]) (simp_all add: finiteAt_def)
  then have s2: "stepsB (gridRef c1) (gridRef c2)" and fU: "finiteAt (gridRef c2) (set U)" by auto
  obtain c3 U3 where aw: "fold (addWitness Bp) W (c2, U) = (c3, U3)"
    by (cases "fold (addWitness Bp) W (c2, U)")
  from addWitness_steps[of "(c2, U)" Bp W] fU aw
  have s3: "stepsB (gridRef c2) (gridRef c3)" and fU3: "finiteAt (gridRef c3) (set U3)" by auto
  from fin aw have "r = ((Bp, U3), c3)" by simp
  with s1 s2 s3 fU3 show ?case by (auto intro: rtranclp_trans)
qed



lemma getNeighbors_not_wall: "v \<in> set (getNeighbors u g) \<Longrightarrow> \<not> isWall (cells g v)"
  by (simp add: getNeighbors_def)

lemma grid_stepB_wall:
  assumes "grid_step nonWallNeighbors g g'" "isWall (cells g p)"
  shows "distance (cells g' p) = distance (cells g p) \<and>
         previousNode (cells g' p) = previousNode (cells g p) \<and>
         (distance (cells g p) = \<infinity> \<longrightarrow> isVisited (cells g' p) = isVisited (cells g p))"
  using assms
  by (cases rule: grid_step.cases)
     (auto simp: setters nonWallNeighbors_def dest: getNeighbors_not_wall)

lemma stepsB_wall:
  assumes "stepsB g g'" "isWall (cells g p)"
  shows "distance (cells g' p) = distance (cells g p) \<and>
         previousNode (cells g' p) = previousNode (cells g p) \<and>
         (distance (cells g p) = \<infinity> \<longrightarrow> isVisited (cells g' p) = isVisited (cells g p))"
  using assms
proof (induction rule: rtranclp_induct)
  case base show ?case by simp
next
  case (step y z)
  have "isWall (cells y p)" using grid_steps_shape[OF step(1), of p] step(4) by simp
  from grid_stepB_wall[OF step(2) this] step(3)[OF step(4)] show ?case by auto
qed

lemma bmssp_steps:
  assumes "bmssp k t l g s f = Some r"
  shows "stepsB (setDistance s 0 (resetAll g)) (final r)"
proof -
  let ?c = "\<lparr>gridRef = setDistance s 0 (resetAll g), visitedList = []\<rparr>"
  from assms obtain r1 where r1: "bmsspRecursive k t l \<infinity> [s] ?c = Some r1"
    and fin: "final r = gridRef (snd r1)"
    by (auto simp: bmssp_def Let_def split: Option.bind_splits if_splits)
  have "finiteAt (gridRef ?c) (set [s])" by (simp add: finiteAt_def setters)
  from bmsspRecursive_steps[OF r1 this] fin show ?thesis by simp
qed

section \<open>Walls\<close>



lemma walls_keptD:
  assumes "walls_kept x y" "isWall (cells (fst (snd x)) p)"
  shows "isWall (cells (fst (snd y)) p)"
    "isVisited (cells (fst (snd y)) p) = isVisited (cells (fst (snd x)) p)"
    "p \<in> set (snd (snd (snd y))) \<Longrightarrow> p \<in> set (snd (snd (snd x)))"
  using assms unfolding walls_kept_def by blast+

lemma walls_kept_refl: "walls_kept x x"
  by (simp add: walls_kept_def)

lemma walls_kept_trans: "walls_kept x y \<Longrightarrow> walls_kept y z \<Longrightarrow> walls_kept x z"
  unfolding walls_kept_def by metis

lemma walls_kept_expand:
  assumes "\<not> isWall (cells g c)"
    and "(g2, os2) = fold step (getUnvisitedNeighbors c (setIsVisited c True g)) (setIsVisited c True g, rest)"
    and step: "\<And>v s. rows (fst (step v s)) = rows (fst s)"
      "\<And>v s. cols (fst (step v s)) = cols (fst s)"
      "\<And>v s p. isVisited (cells (fst (step v s)) p) = isVisited (cells (fst s) p)"
      "\<And>v s p. isWall (cells (fst (step v s)) p) = isWall (cells (fst s) p)"
      "\<And>v s. set (snd (step v s)) \<subseteq> insert v (set (snd s))"
  shows "walls_kept (f, g, os, vis) (f, g2, os2, vis @ [c])"
proof -
  note fs = fold_shape[of step, OF step]
  have g2: "g2 = fst (fold step (getUnvisitedNeighbors c (setIsVisited c True g)) (setIsVisited c True g, rest))"
    using assms(2)[symmetric] by simp
  show ?thesis using assms(1) by (auto simp: walls_kept_def g2 fs setters)
qed

lemma dijkstra_rel_walls:
  assumes "dijkstra_loop_rel y x" shows "walls_kept x y"
  using assms
proof (cases rule: dijkstra_loop_rel.cases)
  case (1 f g os vis c rest) then show ?thesis by (simp add: walls_kept_refl walls_kept_def)
next
  case (2 f g os vis c rest) then show ?thesis by (simp add: walls_kept_def)
next
  case (3 f g os vis c rest g1 vis1 g2 os2)
  have "walls_kept (f, g, os, vis) (f, g2, os2, vis @ [c])"
    using 3(4) 3(10)[unfolded dijkstra_updateUnvisitedNeighbors_def 3(7)]
    by (rule walls_kept_expand) (rule dijkstra_relax_shape)+
  with 3 show ?thesis by simp
qed

lemma astar_rel_walls:
  assumes "astar_loop_rel y x" shows "walls_kept x y"
  using assms
proof (cases rule: astar_loop_rel.cases)
  case (1 f g os vis c rest) then show ?thesis by (simp add: walls_kept_def)
next
  case (2 f g os vis c rest) then show ?thesis by (simp add: walls_kept_def)
next
  case (3 f g os vis c rest g1 vis1 g2 os2)
  have "walls_kept (f, g, os, vis) (f, g2, os2, vis @ [c])"
    using 3(4) 3(9)[unfolded astar_updateUnvisitedNeighbors_def 3(6)]
    by (rule walls_kept_expand) (rule astar_relax_shape)+
  with 3 show ?thesis by simp
qed

lemma greedy_rel_walls:
  assumes "greedy_loop_rel y x" shows "walls_kept x y"
  using assms
proof (cases rule: greedy_loop_rel.cases)
  case (1 f g os vis c rest) then show ?thesis by (simp add: walls_kept_def)
next
  case (2 f g os vis c rest) then show ?thesis by (simp add: walls_kept_def)
next
  case (3 f g os vis c rest g1 vis1 g2 os2)
  have "walls_kept (f, g, os, vis) (f, g2, os2, vis @ [c])"
    using 3(4) 3(9)[unfolded greedy_updateUnvisitedNeighbors_def 3(6)]
    by (rule walls_kept_expand) (rule greedy_relax_shape)+
  with 3 show ?thesis by simp
qed

lemma rtranclp_walls:
  assumes "\<And>y x. R y x \<Longrightarrow> walls_kept x y" "R\<^sup>*\<^sup>* y x"
  shows "walls_kept x y"
  using assms(2)
  by (induction rule: converse_rtranclp_induct)
     (auto intro: walls_kept_refl walls_kept_trans assms(1))

lemma exit_walls:
  assumes "exit_empty g vis r \<or> exit_found f g vis c r" "isWall (cells g p)"
  shows "isVisited (cells (final r) p) = isVisited (cells g p) \<and>
         (p \<in> set (visitedNodesInOrder r) \<longrightarrow> p \<in> set vis)"
  using assms by (auto simp: exit_empty_def exit_found_def setters split: if_splits)

lemma dijkstra_never_closes_wall:
  assumes "dijkstra g s f = Some r" "isWall (cells g p)"
  shows "isVisited (cells (final r) p) = isVisited (cells g p) \<and> p \<notin> set (visitedNodesInOrder r)"
proof -
  from assms(1) dijkstra_loop_exit[of f "setDistance s 0 g" "[s]" "[]" r]
  obtain st where st: "dijkstra_loop_rel\<^sup>*\<^sup>* st (f, setDistance s 0 g, [s], [])" "dijkstra_exit st r"
    by (auto simp: dijkstra_def)
  obtain f' g' os' vis' where st': "st = (f', g', os', vis')" by (cases st)
  have w0: "isWall (cells (fst (snd (f, setDistance s 0 g, [s], []::pos list))) p)"
    using assms(2) by (auto simp: setters)
  note wk = walls_keptD[OF rtranclp_walls[of dijkstra_loop_rel, OF dijkstra_rel_walls st(1)] w0]
  have k: "isWall (cells g' p)" "isVisited (cells g' p) = isVisited (cells g p)" "p \<notin> set vis'"
    using wk by (auto simp: st' setters)
  from st(2) have "\<exists>c. exit_empty g' vis' r \<or> exit_found f' g' vis' c r"
    by (auto simp: dijkstra_exit_def st' split: list.splits if_splits)
  then obtain c where "exit_empty g' vis' r \<or> exit_found f' g' vis' c r" ..
  from exit_walls[OF this k(1)] k show ?thesis by simp
qed

lemma astar_never_closes_wall:
  assumes "astar g s f = Some r" "isWall (cells g p)"
  shows "isVisited (cells (final r) p) = isVisited (cells g p) \<and> p \<notin> set (visitedNodesInOrder r)"
proof -
  define g0 where "g0 = setTotalDistance s
                 (distance (cells (setHeuristicDistance s (enat (getManhattanDistance s f)) (setDistance s 0 g)) s) +
                  heuristicDistance (cells (setHeuristicDistance s (enat (getManhattanDistance s f)) (setDistance s 0 g)) s))
                 (setHeuristicDistance s (enat (getManhattanDistance s f)) (setDistance s 0 g))"
  from assms(1) astar_loop_exit[of f g0 "[s]" "[]" r]
  obtain st where st: "astar_loop_rel\<^sup>*\<^sup>* st (f, g0, [s], [])" "astar_exit st r"
    by (auto simp: astar_def Let_def g0_def)
  obtain f' g' os' vis' where st': "st = (f', g', os', vis')" by (cases st)
  have w0: "isWall (cells (fst (snd (f, g0, [s], []::pos list))) p)"
    using assms(2) by (auto simp: setters g0_def)
  note wk = walls_keptD[OF rtranclp_walls[of astar_loop_rel, OF astar_rel_walls st(1)] w0]
  have k: "isWall (cells g' p)" "isVisited (cells g' p) = isVisited (cells g p)" "p \<notin> set vis'"
    using wk by (auto simp: st' setters g0_def)
  from st(2) have "\<exists>c. exit_empty g' vis' r \<or> exit_found f' g' vis' c r"
    by (auto simp: astar_exit_def st' split: list.splits if_splits)
  then obtain c where "exit_empty g' vis' r \<or> exit_found f' g' vis' c r" ..
  from exit_walls[OF this k(1)] k show ?thesis by simp
qed

lemma greedy_never_closes_wall:
  assumes "greedyBfs g s f = Some r" "isWall (cells g p)"
  shows "isVisited (cells (final r) p) = isVisited (cells g p) \<and> p \<notin> set (visitedNodesInOrder r)"
proof -
  define g0 where "g0 = setHeuristicDistance s (enat (getManhattanDistance s f)) (setDistance s 0 g)"
  from assms(1) greedy_loop_exit[of f g0 "[s]" "[]" r]
  obtain st where st: "greedy_loop_rel\<^sup>*\<^sup>* st (f, g0, [s], [])" "greedy_exit st r"
    by (auto simp: greedyBfs_def Let_def g0_def)
  obtain f' g' os' vis' where st': "st = (f', g', os', vis')" by (cases st)
  have w0: "isWall (cells (fst (snd (f, g0, [s], []::pos list))) p)"
    using assms(2) by (auto simp: setters g0_def)
  note wk = walls_keptD[OF rtranclp_walls[of greedy_loop_rel, OF greedy_rel_walls st(1)] w0]
  have k: "isWall (cells g' p)" "isVisited (cells g' p) = isVisited (cells g p)" "p \<notin> set vis'"
    using wk by (auto simp: st' setters g0_def)
  from st(2) have "\<exists>c. exit_empty g' vis' r \<or> exit_found f' g' vis' c r"
    by (auto simp: greedy_exit_def st' split: list.splits if_splits)
  then obtain c where "exit_empty g' vis' r \<or> exit_found f' g' vis' c r" ..
  from exit_walls[OF this k(1)] k show ?thesis by simp
qed



text \<open>
  C5, as stated: neighbour enumeration never yields a wall, and the distance of a wall
  stays infinite and its predecessor null for the whole run. In Dijkstra (and in A* and
  greedy best-first, which share the enumeration) \<open>getUnvisitedNeighbors\<close> filters
  visited nodes only: on the corridor with a wall in the middle the wall is enumerated
  and ends the run at distance 1 with the start as predecessor.
\<close>

theorem C5_counterexample:
  "isWall (cells walled_corridor (0, 1)) \<and>
   (0, 1) \<in> set (getUnvisitedNeighbors (0, 0) walled_corridor) \<and>
   fieldAfter distance (0, 1) (dijkstra walled_corridor (0, 0) (0, 2)) = Some 1 \<and>
   fieldAfter previousNode (0, 1) (dijkstra walled_corridor (0, 0) (0, 2)) = Some (Some (0, 0))"
  by code_simp

text \<open>
  C5, amended. In BMSSP \<open>getNeighbors\<close> never yields a wall, and a wall of the grid other
  than the start keeps the infinite distance and the null predecessor of the reset for
  the whole run; in the bidirectional swarm \<open>updateNeighbor\<close> returns at once on a wall,
  and the run leaves the distance and predecessor of every wall as they were. In
  Dijkstra, A* and greedy best-first the enumeration does yield walls and a relaxation
  writes their distance and predecessor, but a wall is skipped when it is popped: it is
  never marked visited and never enters the visitation trace.
\<close>

theorem C5_walls:
  assumes "isWall (cells g p)"
  shows "p \<notin> set (getNeighbors u g) \<and>
         updateNeighbor g p u fr t = fr \<and>
         (bmssp k t' l g s f = Some rb \<and> p \<noteq> s \<and> in_grid g p \<longrightarrow>
            distance (cells (final rb) p) = \<infinity> \<and> previousNode (cells (final rb) p) = None) \<and>
         (bidirectionalSwarm g s f = Some rs \<longrightarrow>
            distance (cells (final rs) p) = distance (cells g p) \<and>
            previousNode (cells (final rs) p) = previousNode (cells g p)) \<and>
         (dijkstra g s f = Some rd \<longrightarrow>
            isVisited (cells (final rd) p) = isVisited (cells g p) \<and> p \<notin> set (visitedNodesInOrder rd)) \<and>
         (astar g s f = Some ra \<longrightarrow>
            isVisited (cells (final ra) p) = isVisited (cells g p) \<and> p \<notin> set (visitedNodesInOrder ra)) \<and>
         (greedyBfs g s f = Some rg \<longrightarrow>
            isVisited (cells (final rg) p) = isVisited (cells g p) \<and> p \<notin> set (visitedNodesInOrder rg))"
proof (intro conjI impI)
  show "p \<notin> set (getNeighbors u g)" using assms by (simp add: getNeighbors_def)
  show "updateNeighbor g p u fr t = fr" using assms by (simp add: updateNeighbor_def)
next
  assume a: "bmssp k t' l g s f = Some rb \<and> p \<noteq> s \<and> in_grid g p"
  let ?g0 = "setDistance s 0 (resetAll g)"
  have w: "isWall (cells ?g0 p)" using assms by (auto simp: setters resetAll_def resetNode_def)
  have "distance (cells ?g0 p) = \<infinity>" "previousNode (cells ?g0 p) = None"
    using a by (simp_all add: setters resetAll_def resetNode_def)
  with stepsB_wall[OF bmssp_steps w, of k t' l f rb] a
  show "distance (cells (final rb) p) = \<infinity>" "previousNode (cells (final rb) p) = None" by simp_all
next
  assume "bidirectionalSwarm g s f = Some rs"
  then have "only_visited_changed g (final rs)"
    unfolding bidirectionalSwarm_def by (rule swarm_loop_frame)
  then have e: "cells (final rs) p = (cells g p)\<lparr>isVisited := isVisited (cells (final rs) p)\<rparr>"
    unfolding only_visited_changed_def by blast
  show "distance (cells (final rs) p) = distance (cells g p)" by (subst e) simp
  show "previousNode (cells (final rs) p) = previousNode (cells g p)" by (subst e) simp
next
  assume "dijkstra g s f = Some rd"
  from dijkstra_never_closes_wall[OF this assms]
  show "isVisited (cells (final rd) p) = isVisited (cells g p)" "p \<notin> set (visitedNodesInOrder rd)"
    by simp_all
next
  assume "astar g s f = Some ra"
  from astar_never_closes_wall[OF this assms]
  show "isVisited (cells (final ra) p) = isVisited (cells g p)" "p \<notin> set (visitedNodesInOrder ra)"
    by simp_all
next
  assume "greedyBfs g s f = Some rg"
  from greedy_never_closes_wall[OF this assms]
  show "isVisited (cells (final rg) p) = isVisited (cells g p)" "p \<notin> set (visitedNodesInOrder rg)"
    by simp_all
qed

theorem C5_walls_witness:
  "isWall (cells walled_corridor (0, 1)) \<and>
   (0, 1) \<notin> set (getNeighbors (0, 0) walled_corridor) \<and>
   (\<exists>r. bmssp 2 2 1 walled_corridor (0, 0) (0, 2) = Some r \<and>
        distance (cells (final r) (0, 1)) = \<infinity> \<and> previousNode (cells (final r) (0, 1)) = None) \<and>
   (\<exists>r. bidirectionalSwarm walled_corridor (0, 0) (0, 2) = Some r \<and>
        distance (cells (final r) (0, 1)) = \<infinity> \<and> previousNode (cells (final r) (0, 1)) = None) \<and>
   (\<exists>r. dijkstra walled_corridor (0, 0) (0, 2) = Some r \<and>
        \<not> isVisited (cells (final r) (0, 1)) \<and> (0, 1) \<notin> set (visitedNodesInOrder r)) \<and>
   (\<exists>r. astar walled_corridor (0, 0) (0, 2) = Some r \<and>
        \<not> isVisited (cells (final r) (0, 1)) \<and> (0, 1) \<notin> set (visitedNodesInOrder r)) \<and>
   (\<exists>r. greedyBfs walled_corridor (0, 0) (0, 2) = Some r \<and>
        \<not> isVisited (cells (final r) (0, 1)) \<and> (0, 1) \<notin> set (visitedNodesInOrder r))"
proof -
  have w: "isWall (cells walled_corridor (0, 1))" by code_simp
  have g: "distance (cells walled_corridor (0, 1)) = \<infinity>" "previousNode (cells walled_corridor (0, 1)) = None"
    "\<not> isVisited (cells walled_corridor (0, 1))" "in_grid walled_corridor (0, 1)"
    by (simp_all add: walled_corridor_def withWalls_def getInitialGrid_def createNode_def in_grid_def)
  have "pathOf (bmssp 2 2 1 walled_corridor (0, 0) (0, 2)) = Some []" by code_simp
  then obtain rb where rb: "bmssp 2 2 1 walled_corridor (0, 0) (0, 2) = Some rb"
    by (auto simp: pathOf_def)
  have "pathOf (bidirectionalSwarm walled_corridor (0, 0) (0, 2)) = Some []" by code_simp
  then obtain rs where rs: "bidirectionalSwarm walled_corridor (0, 0) (0, 2) = Some rs"
    by (auto simp: pathOf_def)
  have "pathOf (dijkstra walled_corridor (0, 0) (0, 2)) = Some []" by code_simp
  then obtain rd where rd: "dijkstra walled_corridor (0, 0) (0, 2) = Some rd"
    by (auto simp: pathOf_def)
  have "pathOf (astar walled_corridor (0, 0) (0, 2)) = Some []" by code_simp
  then obtain ra where ra: "astar walled_corridor (0, 0) (0, 2) = Some ra"
    by (auto simp: pathOf_def)
  have "pathOf (greedyBfs walled_corridor (0, 0) (0, 2)) = Some []" by code_simp
  then obtain rg where rg: "greedyBfs walled_corridor (0, 0) (0, 2) = Some rg"
    by (auto simp: pathOf_def)
  from C5_walls[OF w, of "(0, 0)" _ _ 2 2 1 "(0, 0)" "(0, 2)" rb rs rd ra rg] w g rb rs rd ra rg
  show ?thesis by simp
qed


section \<open>The path of the bidirectional swarm for adjacent start and finish\<close>

text \<open>
  C3 asks that in every returned path consecutive nodes are 4-adjacent. On the grid of one
  row and two columns the two frontiers meet at the finish node itself;
  \<open>reconstructBidirectionalPathRevisited\<close> then reads the finish node as its own parent
  (the sentinel of \<open>visitedByFinish\<close>) and pushes it a second time: the path is start,
  finish, finish, whose last two nodes are the same cell.
\<close>

theorem C3_bidirectional_repeats_finish:
  "pathOf (bidirectionalSwarm (getInitialGrid 1 2 (0, 0) (0, 1)) (0, 0) (0, 1))
     = Some [(0, 0), (0, 1), (0, 1)] \<and>
   \<not> adjacent4 (0, 1) (0, 1)"
  by code_simp

section \<open>Predecessor chains are rooted at the source\<close>


lemma adjacentCells_in_grid:
  "in_grid g u \<Longrightarrow> v \<in> set (adjacentCells g u) \<Longrightarrow> in_grid g v"
  by (cases u) (auto simp: in_grid_def split: if_splits)

lemma in_grid_shape: "rows g' = rows g \<Longrightarrow> cols g' = cols g \<Longrightarrow> in_grid g' p = in_grid g p"
  by (simp add: in_grid_def)

lemma enat_plus1_le_finite:
  "(a::enat) + 1 \<le> b \<Longrightarrow> b \<noteq> \<infinity> \<Longrightarrow> a \<noteq> \<infinity> \<and> a < b"
  by (cases a; cases b) (auto simp: one_enat_def)

lemma chain_inv_cong:
  assumes "\<And>p. distance (cells g' p) = distance (cells g p)"
    "\<And>p. previousNode (cells g' p) = previousNode (cells g p)"
    "rows g' = rows g" "cols g' = cols g"
    "\<And>v. isVisited (cells g' v) \<Longrightarrow> distance (cells g v) \<noteq> \<infinity>"
    and "chain_inv g s"
  shows "chain_inv g' s"
  using assms(6) assms(5) unfolding chain_inv_def in_grid_def assms(1-4) by blast

lemma chain_inv_step:
  assumes nb: "\<And>g u. set (nb g u) \<subseteq> set (adjacentCells g u)"
    and st: "grid_step nb g g'" and inv: "chain_inv g s"
  shows "chain_inv g' s"
  using st
proof (cases rule: grid_step.cases)
  case (close n)
  show ?thesis
  proof (rule chain_inv_cong[OF _ _ _ _ _ inv])
    fix v assume "isVisited (cells g' v)"
    then have "v = n \<or> isVisited (cells g v)" by (auto simp: close(1) setters split: if_splits)
    with close(2) inv show "distance (cells g v) \<noteq> \<infinity>" unfolding chain_inv_def by blast
  qed (simp_all add: close(1) setters)
next
  case (relax v u n)
  note d = inv[unfolded chain_inv_def]
  have vs: "v \<noteq> s"
  proof
    assume "v = s"
    with relax(3) d have "distance (cells g u) + 1 \<le> 0" by simp
    then show False by (cases "distance (cells g u)") (auto simp: one_enat_def zero_enat_def)
  qed
  have sh: "in_grid g' p = in_grid g p" for p by (simp add: relax(1) in_grid_def)
  have cell: "cells g' p = (if p = v then n else cells g p)" for p by (simp add: relax(1))
  have le: "distance (cells g' p) \<le> distance (cells g p)" for p
    using relax(3,4) by (simp add: cell)
  have a: "distance (cells g' s) = 0" "previousNode (cells g' s) = None" "in_grid g' s"
    using d vs by (simp_all add: cell sh)
  have b: "in_grid g' w \<and> (\<exists>u. previousNode (cells g' w) = Some u \<and>
                distance (cells g' u) + 1 \<le> distance (cells g' w))"
    if w: "distance (cells g' w) \<noteq> \<infinity> \<and> w \<noteq> s" for w
    proof (cases "w = v")
      case False
      with w have "distance (cells g w) \<noteq> \<infinity> \<and> w \<noteq> s" by (simp add: cell)
      with d obtain u' where u': "in_grid g w" "previousNode (cells g w) = Some u'"
        "distance (cells g u') + 1 \<le> distance (cells g w)" by blast
      have "distance (cells g' u') + 1 \<le> distance (cells g u') + 1" using le by (simp add: add_right_mono)
      then have "distance (cells g' u') + 1 \<le> distance (cells g w)" using u'(3) by (rule order_trans)
      with u'(1,2) False show ?thesis by (simp add: cell sh)
    next
      case True
      from w True have fin: "distance (cells g u) + 1 \<noteq> \<infinity>" using relax(4) by (simp add: cell)
      then have fu: "distance (cells g u) \<noteq> \<infinity>" by (auto simp: plus_eq_infty_iff_enat)
      have uv: "u \<noteq> v"
      proof
        assume "u = v"
        with relax(3) fu show False
          by (cases "distance (cells g v)") (auto simp: one_enat_def)
      qed
      have "in_grid g u" using d fu by (cases "u = s") auto
      with relax(2) nb have "in_grid g v" by (blast intro: adjacentCells_in_grid)
      with True uv relax(4,5) show ?thesis by (simp add: cell sh)
    qed
  have c: "distance (cells g' w) \<noteq> \<infinity>" if "isVisited (cells g' w)" for w
  proof
    from that have "isVisited (cells g w)" using relax(6) by (simp add: cell split: if_splits)
    with d have fw: "distance (cells g w) \<noteq> \<infinity>" by blast
    assume "distance (cells g' w) = \<infinity>"
    with le[of w] fw show False by simp
  qed
  show ?thesis unfolding chain_inv_def using a b c by blast
qed

lemma chain_inv_steps:
  assumes nb: "\<And>g u. set (nb g u) \<subseteq> set (adjacentCells g u)"
    and st: "(grid_step nb)\<^sup>*\<^sup>* g g'" and inv: "chain_inv g s"
  shows "chain_inv g' s"
  using st inv by (induction rule: rtranclp_induct) (auto intro: chain_inv_step[OF nb])

lemma nonWallNeighbors_subset: "set (nonWallNeighbors g u) \<subseteq> set (adjacentCells g u)"
  by (auto simp: nonWallNeighbors_def getNeighbors_def)

lemma chain_inv_initial:
  assumes "fresh g" "in_grid g s"
  shows "chain_inv (setDistance s 0 g) s"
  using assms unfolding chain_inv_def fresh_def by (simp add: setters in_grid_def)


lemma card_in_grid: "card {p. in_grid g p} = rows g * cols g"
proof -
  have "{p. in_grid g p} = {..<rows g} \<times> {..<cols g}" by (auto simp: in_grid_def)
  then show ?thesis by simp
qed

lemma finite_in_grid: "finite {p. in_grid g p}"
proof -
  have "{p. in_grid g p} = {..<rows g} \<times> {..<cols g}" by (auto simp: in_grid_def)
  then show ?thesis by simp
qed

lemma chain_walk:
  assumes inv: "chain_inv g s"
  shows "distance (cells g v) = enat d \<Longrightarrow>
         \<exists>path. walkPrevious g (Some v) acc = Some (path @ acc) \<and> path \<noteq> [] \<and>
                followPrev g (length path - 1) v = Some s \<and> distinct path \<and>
                (\<forall>p\<in>set path. in_grid g p \<and> distance (cells g p) \<le> enat d)"
proof (induction d arbitrary: v acc rule: less_induct)
  case (less d)
  note c = inv[unfolded chain_inv_def]
  show ?case
  proof (cases "v = s")
    case True
    have "walkPrevious g (Some s) acc = Some ([s] @ acc)"
      using c by (subst walkPrevious.simps, simp, subst walkPrevious.simps, simp)
    with True c less.prems show ?thesis
      by (intro exI[of _ "[s]"]) (simp add: zero_enat_def)
  next
    case False
    with c less.prems obtain u where u: "in_grid g v" "previousNode (cells g v) = Some u"
      "distance (cells g u) + 1 \<le> distance (cells g v)" by force
    from enat_plus1_le_finite[OF u(3)] less.prems obtain d' where d': "distance (cells g u) = enat d'" "d' < d"
      by (cases "distance (cells g u)") auto
    from less.IH[OF d'(2) d'(1), of "v # acc"] obtain path where path:
      "walkPrevious g (Some u) (v # acc) = Some (path @ v # acc)" "path \<noteq> []"
      "followPrev g (length path - 1) u = Some s" "distinct path"
      "\<forall>p\<in>set path. in_grid g p \<and> distance (cells g p) \<le> enat d'" by blast
    have w: "walkPrevious g (Some v) acc = Some ((path @ [v]) @ acc)"
      using u(2) path(1) by (subst walkPrevious.simps) simp
    have "v \<notin> set path"
    proof
      assume "v \<in> set path"
      with path(5) have "distance (cells g v) \<le> enat d'" by blast
      with less.prems d'(2) show False by simp
    qed
    moreover have "followPrev g (length (path @ [v]) - 1) v = Some s"
      using path(2,3) u(2) by (cases path) simp_all
    moreover have "\<forall>p\<in>set (path @ [v]). in_grid g p \<and> distance (cells g p) \<le> enat d"
      using path(5) u(1) less.prems d'(2) by (auto intro: order_trans[of _ "enat d'"])
    ultimately show ?thesis using w path(4) by (intro exI[of _ "path @ [v]"]) simp
  qed
qed

lemma reachesWithin_iff:
  "reachesWithin g s v n \<longleftrightarrow> (\<exists>k\<le>n. followPrev g k v = Some s)"
proof -
  have "set [0..<Suc n] = {k. k \<le> n}" by auto
  then show ?thesis unfolding reachesWithin_def list_ex_iff by blast
qed

lemma chain_inv_rooted:
  assumes "chain_inv g s"
  shows "rooted g s"
  unfolding rooted_def
proof (intro allI impI)
  fix v assume "isVisited (cells g v)"
  with assms have "distance (cells g v) \<noteq> \<infinity>" unfolding chain_inv_def by blast
  then obtain d where d: "distance (cells g v) = enat d" by (cases "distance (cells g v)") auto
  from chain_walk[OF assms d, of "[]"] obtain path where path:
    "walkPrevious g (Some v) [] = Some path" "path \<noteq> []"
    "followPrev g (length path - 1) v = Some s" "distinct path"
    "\<forall>p\<in>set path. in_grid g p" by auto
  have "length path = card (set path)" using path(4) by (simp add: distinct_card)
  also have "\<dots> \<le> card {p. in_grid g p}"
    using path(5) by (intro card_mono finite_in_grid) auto
  finally have "length path - 1 \<le> rows g * cols g" by (simp add: card_in_grid)
  with path(3) have "reachesWithin g s v (rows g * cols g)"
    unfolding reachesWithin_iff by blast
  with path(1) show "reachesWithin g s v (rows g * cols g) \<and> walkPrevious g (Some v) [] \<noteq> None"
    by simp
qed

lemma chain_inv_walk_finish:
  assumes "chain_inv g s" "distance (cells g f) \<noteq> \<infinity>"
  shows "walkPrevious g (Some f) [] \<noteq> None"
proof -
  from assms(2) obtain d where d: "distance (cells g f) = enat d" by (cases "distance (cells g f)") auto
  from chain_walk[OF assms(1) d, of "[]"] show ?thesis by auto
qed
subsection \<open>The loops of Dijkstra, A* and greedy best-first move by elementary steps\<close>

lemma plus1_finite: "(a::enat) \<noteq> \<infinity> \<Longrightarrow> a + 1 \<noteq> \<infinity>"
  by (simp add: plus_eq_infty_iff_enat)

lemma finiteAt_grid_steps: "(grid_step nb)\<^sup>*\<^sup>* g g' \<Longrightarrow> finiteAt g X \<Longrightarrow> finiteAt g' X"
  unfolding finiteAt_def using grid_steps_fin by blast

text \<open>A relaxation as the three loops perform it: the neighbour gets the tentative distance
  and the predecessor, keeps its flags, and joins the open array.\<close>

lemma relax_stepsA:
  assumes nb: "v \<in> set (adjacentCells g u)" and fu: "distance (cells g u) \<noteq> \<infinity>"
    and fin: "finiteAt g (set os)"
    and le: "distance (cells g u) + 1 \<le> distance (cells g v)"
    and n: "distance n = distance (cells g u) + 1" "previousNode n = Some u"
      "isVisited n = isVisited (cells g v)" "isWall n = isWall (cells g v)"
    and os': "set os' \<subseteq> insert v (set os)"
  shows "stepsA g (g\<lparr>cells := (cells g)(v := n)\<rparr>) \<and> finiteAt (g\<lparr>cells := (cells g)(v := n)\<rparr>) (set os')"
proof -
  let ?g' = "g\<lparr>cells := (cells g)(v := n)\<rparr>"
  have "grid_step adjacentCells g ?g'" using nb le n by (rule grid_step.relax)
  then have st: "stepsA g ?g'" by blast
  have "finiteAt ?g' (insert v (set os))"
    using finiteAt_grid_steps[OF st fin] plus1_finite[OF fu] n(1)
    by (simp add: finiteAt_insert)
  then have "finiteAt ?g' (set os')" using os' by (rule finiteAt_mono)
  with st show ?thesis by blast
qed

lemma dijkstra_relax_stepsA:
  assumes "v \<in> set (adjacentCells (fst s) u)" "distance (cells (fst s) u) \<noteq> \<infinity>"
    "finiteAt (fst s) (set (snd s))"
  shows "stepsA (fst s) (fst (dijkstra_relax u v s)) \<and>
         finiteAt (fst (dijkstra_relax u v s)) (set (snd (dijkstra_relax u v s)))"
proof -
  obtain g os where s: "s = (g, os)" by (cases s)
  show ?thesis
  proof (cases "distance (cells g u) + 1 < distance (cells g v)")
    case False
    with assms show ?thesis by (simp add: s)
  next
    case True
    let ?n = "(cells g v)\<lparr>distance := distance (cells g u) + 1, previousNode := Some u\<rparr>"
    have g': "fst (dijkstra_relax u v s) = g\<lparr>cells := (cells g)(v := ?n)\<rparr>"
      using True by (simp add: s setters)
    have os': "set (snd (dijkstra_relax u v s)) \<subseteq> insert v (set os)" using True by (auto simp: s)
    have "stepsA g (g\<lparr>cells := (cells g)(v := ?n)\<rparr>) \<and>
          finiteAt (g\<lparr>cells := (cells g)(v := ?n)\<rparr>) (set (snd (dijkstra_relax u v s)))"
      by (rule relax_stepsA[of v g u os ?n]) (use assms True os' in \<open>simp_all add: s\<close>)
    then show ?thesis unfolding g' by (simp only: s fst_conv)
  qed
qed

lemma astar_relax_stepsA:
  assumes "v \<in> set (adjacentCells (fst s) u)" "distance (cells (fst s) u) \<noteq> \<infinity>"
    "finiteAt (fst s) (set (snd s))"
  shows "stepsA (fst s) (fst (astar_relax f u v s)) \<and>
         finiteAt (fst (astar_relax f u v s)) (set (snd (astar_relax f u v s)))"
proof -
  obtain g os where s: "s = (g, os)" by (cases s)
  show ?thesis
  proof (cases "distance (cells g u) + 1 < distance (cells g v)")
    case False
    with assms show ?thesis by (simp add: s)
  next
    case True
    let ?n = "(cells g v)\<lparr>distance := distance (cells g u) + 1,
                heuristicDistance := enat (getManhattanDistance v f),
                totalDistance := distance (cells g u) + 1 + enat (getManhattanDistance v f),
                previousNode := Some u\<rparr>"
    have g': "fst (astar_relax f u v s) = g\<lparr>cells := (cells g)(v := ?n)\<rparr>"
      using True by (simp add: s setters Let_def)
    have os': "set (snd (astar_relax f u v s)) \<subseteq> insert v (set os)"
      using True by (auto simp: s Let_def)
    have "stepsA g (g\<lparr>cells := (cells g)(v := ?n)\<rparr>) \<and>
          finiteAt (g\<lparr>cells := (cells g)(v := ?n)\<rparr>) (set (snd (astar_relax f u v s)))"
      by (rule relax_stepsA[of v g u os ?n]) (use assms True os' in \<open>simp_all add: s\<close>)
    then show ?thesis unfolding g' by (simp only: s fst_conv)
  qed
qed

lemma greedy_relax_stepsA:
  assumes "v \<in> set (adjacentCells (fst s) u)" "distance (cells (fst s) u) \<noteq> \<infinity>"
    "finiteAt (fst s) (set (snd s))"
  shows "stepsA (fst s) (fst (greedy_relax f u v s)) \<and>
         finiteAt (fst (greedy_relax f u v s)) (set (snd (greedy_relax f u v s)))"
proof -
  obtain g os where s: "s = (g, os)" by (cases s)
  show ?thesis
  proof (cases "distance (cells g v) = \<infinity>")
    case False
    with assms show ?thesis by (simp add: s)
  next
    case True
    let ?n = "(cells g v)\<lparr>distance := distance (cells g u) + 1,
                heuristicDistance := enat (getManhattanDistance v f),
                previousNode := Some u\<rparr>"
    have g': "fst (greedy_relax f u v s) = g\<lparr>cells := (cells g)(v := ?n)\<rparr>"
      using True by (simp add: s setters Let_def)
    have os': "set (snd (greedy_relax f u v s)) \<subseteq> insert v (set os)"
      using True by (auto simp: s Let_def)
    have "stepsA g (g\<lparr>cells := (cells g)(v := ?n)\<rparr>) \<and>
          finiteAt (g\<lparr>cells := (cells g)(v := ?n)\<rparr>) (set (snd (greedy_relax f u v s)))"
      by (rule relax_stepsA[of v g u os ?n]) (use assms True os' in \<open>simp_all add: s\<close>)
    then show ?thesis unfolding g' by (simp only: s fst_conv)
  qed
qed

lemma family_fold_stepsA:
  assumes step: "\<And>v s. v \<in> set (adjacentCells (fst s) u) \<Longrightarrow> distance (cells (fst s) u) \<noteq> \<infinity> \<Longrightarrow>
             finiteAt (fst s) (set (snd s)) \<Longrightarrow>
             stepsA (fst s) (fst (relax v s)) \<and> finiteAt (fst (relax v s)) (set (snd (relax v s)))"
    and "set vs \<subseteq> set (adjacentCells (fst s) u)" "distance (cells (fst s) u) \<noteq> \<infinity>"
      "finiteAt (fst s) (set (snd s))"
  shows "stepsA (fst s) (fst (fold relax vs s)) \<and>
         finiteAt (fst (fold relax vs s)) (set (snd (fold relax vs s)))"
  using assms(2-)
proof (induction vs arbitrary: s)
  case Nil then show ?case by simp
next
  case (Cons v vs)
  from Cons.prems have v: "v \<in> set (adjacentCells (fst s) u)" by simp
  note 1 = step[OF v Cons.prems(2,3)]
  then have st: "stepsA (fst s) (fst (relax v s))" by blast
  have "adjacentCells (fst (relax v s)) u = adjacentCells (fst s) u"
    using grid_steps_shape[OF st] by (intro adjacentCells_shape) auto
  with Cons.prems have a: "set vs \<subseteq> set (adjacentCells (fst (relax v s)) u)" by simp
  have b: "distance (cells (fst (relax v s)) u) \<noteq> \<infinity>" by (rule grid_steps_fin[OF st Cons.prems(2)])
  from Cons.IH[OF a b] 1 show ?case by (auto intro: rtranclp_trans)
qed

lemma expand_stepsA:
  assumes step: "\<And>v s. v \<in> set (adjacentCells (fst s) c) \<Longrightarrow> distance (cells (fst s) c) \<noteq> \<infinity> \<Longrightarrow>
             finiteAt (fst s) (set (snd s)) \<Longrightarrow>
             stepsA (fst s) (fst (relax v s)) \<and> finiteAt (fst (relax v s)) (set (snd (relax v s)))"
    and sorted: "sort_key key os = c # rest"
    and fin: "finiteAt g (set os)"
    and res: "(g2, os2) = fold relax (getUnvisitedNeighbors c (setIsVisited c True g)) (setIsVisited c True g, rest)"
  shows "stepsA g g2 \<and> finiteAt g2 (set os2)"
proof -
  from sort_head_set[OF sorted] have hd: "c \<in> set os" "set rest \<subseteq> set os" by auto
  then have fc: "distance (cells g c) \<noteq> \<infinity>" using fin by (auto simp: finiteAt_def)
  let ?g1 = "setIsVisited c True g"
  have s1: "stepsA g ?g1" using grid_step.close[OF fc, of adjacentCells] by blast
  have sub: "set (getUnvisitedNeighbors c ?g1) \<subseteq> set (adjacentCells (fst (?g1, rest)) c)"
    using getUnvisitedNeighbors_subset[of c g] adjacentCells_shape[of ?g1 g c]
    by (simp add: setters)
  have f1: "finiteAt (fst (?g1, rest)) (set (snd (?g1, rest)))"
    using finiteAt_grid_steps[OF s1 fin] hd(2) by (auto intro: finiteAt_mono)
  have fc1: "distance (cells (fst (?g1, rest)) c) \<noteq> \<infinity>" using fc by (simp add: setters)
  from family_fold_stepsA[of c relax, OF step sub fc1 f1] res[symmetric] s1
  show ?thesis by (auto intro: rtranclp_trans)
qed

lemma dijkstra_rel_stepsA:
  assumes "dijkstra_loop_rel y x" "finiteAt (fst (snd x)) (set (fst (snd (snd x))))"
  shows "stepsA (fst (snd x)) (fst (snd y)) \<and> finiteAt (fst (snd y)) (set (fst (snd (snd y))))"
  using assms
proof (cases rule: dijkstra_loop_rel.cases)
  case (1 f g os vis c rest)
  from sort_head_set[OF 1(3)[unfolded sortNodesByDistance_def]] assms(2) 1(1,2)
  show ?thesis by (auto intro: finiteAt_mono)
next
  case (2 f g os vis c rest)
  from sort_head_set[OF 2(3)[unfolded sortNodesByDistance_def]] assms(2) 2(1,2)
  show ?thesis by (auto intro: finiteAt_mono)
next
  case (3 f g os vis c rest g1 vis1 g2 os2)
  have "stepsA g g2 \<and> finiteAt g2 (set os2)"
    by (rule expand_stepsA[of c "dijkstra_relax c", OF dijkstra_relax_stepsA
          3(3)[unfolded sortNodesByDistance_def] _
          3(10)[unfolded dijkstra_updateUnvisitedNeighbors_def 3(7)]])
       (use assms(2) 3(2) in simp_all)
  with 3(1,2) show ?thesis by simp
qed

lemma astar_rel_stepsA:
  assumes "astar_loop_rel y x" "finiteAt (fst (snd x)) (set (fst (snd (snd x))))"
  shows "stepsA (fst (snd x)) (fst (snd y)) \<and> finiteAt (fst (snd y)) (set (fst (snd (snd y))))"
  using assms
proof (cases rule: astar_loop_rel.cases)
  case (1 f g os vis c rest)
  from sort_head_set[OF 1(3)[unfolded sortNodesByTotalDistance_def]] assms(2) 1(1,2)
  show ?thesis by (auto intro: finiteAt_mono)
next
  case (2 f g os vis c rest)
  from sort_head_set[OF 2(3)[unfolded sortNodesByTotalDistance_def]] assms(2) 2(1,2)
  show ?thesis by (auto intro: finiteAt_mono)
next
  case (3 f g os vis c rest g1 vis1 g2 os2)
  have "stepsA g g2 \<and> finiteAt g2 (set os2)"
    by (rule expand_stepsA[of c "astar_relax f c", OF astar_relax_stepsA
          3(3)[unfolded sortNodesByTotalDistance_def] _
          3(9)[unfolded astar_updateUnvisitedNeighbors_def 3(6)]])
       (use assms(2) 3(2) in simp_all)
  with 3(1,2) show ?thesis by simp
qed

lemma greedy_rel_stepsA:
  assumes "greedy_loop_rel y x" "finiteAt (fst (snd x)) (set (fst (snd (snd x))))"
  shows "stepsA (fst (snd x)) (fst (snd y)) \<and> finiteAt (fst (snd y)) (set (fst (snd (snd y))))"
  using assms
proof (cases rule: greedy_loop_rel.cases)
  case (1 f g os vis c rest)
  from sort_head_set[OF 1(3)[unfolded sortNodesByHeuristic_def]] assms(2) 1(1,2)
  show ?thesis by (auto intro: finiteAt_mono)
next
  case (2 f g os vis c rest)
  from sort_head_set[OF 2(3)[unfolded sortNodesByHeuristic_def]] assms(2) 2(1,2)
  show ?thesis by (auto intro: finiteAt_mono)
next
  case (3 f g os vis c rest g1 vis1 g2 os2)
  have "stepsA g g2 \<and> finiteAt g2 (set os2)"
    by (rule expand_stepsA[of c "greedy_relax f c", OF greedy_relax_stepsA
          3(3)[unfolded sortNodesByHeuristic_def] _
          3(9)[unfolded greedy_updateUnvisitedNeighbors_def 3(6)]])
       (use assms(2) 3(2) in simp_all)
  with 3(1,2) show ?thesis by simp
qed

lemma rtranclp_stepsA:
  assumes rel: "\<And>y x. R y x \<Longrightarrow> finiteAt (fst (snd x)) (set (fst (snd (snd x)))) \<Longrightarrow>
             stepsA (fst (snd x)) (fst (snd y)) \<and> finiteAt (fst (snd y)) (set (fst (snd (snd y))))"
    and "R\<^sup>*\<^sup>* y x" "finiteAt (fst (snd x)) (set (fst (snd (snd x))))"
  shows "stepsA (fst (snd x)) (fst (snd y)) \<and> finiteAt (fst (snd y)) (set (fst (snd (snd y))))"
  using assms(2,3)
proof (induction rule: converse_rtranclp_induct)
  case base then show ?case by simp
next
  case (step y z)
  from step(3)[OF step(4)] have z: "stepsA (fst (snd x)) (fst (snd z))"
    "finiteAt (fst (snd z)) (set (fst (snd (snd z))))" by auto
  from rel[OF step(1) z(2)] z(1) show ?case by (auto intro: rtranclp_trans)
qed


subsection \<open>The three loops return: the walk from the finish node ends\<close>

lemma close_chain_inv:
  assumes "chain_inv g s" "distance (cells g c) \<noteq> \<infinity>"
  shows "chain_inv (setIsVisited c True g) s"
  by (rule chain_inv_step[of adjacentCells, OF subset_refl grid_step.close[OF assms(2)] assms(1)])

lemma found_returns:
  assumes "chain_inv g s" "finiteAt g (set os)" "sort_key key os = c # rest"
  shows "getNodesInShortestPathOrder (setIsVisited c True g) c \<noteq> None"
proof -
  from sort_head_set(1)[OF assms(3)] assms(2) have fc: "distance (cells g c) \<noteq> \<infinity>"
    by (auto simp: finiteAt_def)
  then have "distance (cells (setIsVisited c True g) c) \<noteq> \<infinity>" by (simp add: setters)
  from chain_inv_walk_finish[OF close_chain_inv[OF assms(1) fc] this]
  show ?thesis by (simp add: getNodesInShortestPathOrder_def)
qed

lemma dijkstra_loop_returns:
  assumes "chain_inv g s" "finiteAt g (set os)"
  shows "dijkstra_loop f g os vis \<noteq> None"
  using assms
proof (induction f g os vis rule: dijkstra_loop.induct)
  case (1 f g os vis)
  note IH = "1.IH" and prems = "1.prems"
  have nxt: "chain_inv (fst (snd y)) s \<and> finiteAt (fst (snd y)) (set (fst (snd (snd y))))"
    if "dijkstra_loop_rel y (f, g, os, vis)" for y
    using dijkstra_rel_stepsA[OF that] prems chain_inv_steps[of adjacentCells _ _ s, OF subset_refl]
    by auto
  show ?case
  proof (cases "sortNodesByDistance g os")
    case Nil
    then show ?thesis by (simp add: dijkstra_loop.simps[of f g os vis])
  next
    case (Cons c rest)
    show ?thesis
    proof (cases "isWall (cells g c)")
      case True
      from nxt[OF dijkstra_loop_rel.intros(1)[OF Cons True]]
      have "dijkstra_loop f g rest vis \<noteq> None" by (intro IH(1)[OF Cons True]) simp_all
      with Cons True show ?thesis by (simp add: dijkstra_loop.simps[of f g os vis])
    next
      case nw: False
      show ?thesis
      proof (cases "distance (cells g c) = \<infinity>")
        case True
        with Cons nw show ?thesis by (simp add: dijkstra_loop.simps[of f g os vis])
      next
        case fin: False
        show ?thesis
        proof (cases "isVisited (cells g c)")
          case True
          from nxt[OF dijkstra_loop_rel.intros(2)[OF Cons nw fin True]]
          have "dijkstra_loop f g rest vis \<noteq> None" by (intro IH(2)[OF Cons nw fin True]) simp_all
          with Cons nw fin True show ?thesis by (simp add: dijkstra_loop.simps[of f g os vis])
        next
          case nv: False
          show ?thesis
          proof (cases "c = f")
            case True
            from found_returns[OF prems Cons[unfolded sortNodesByDistance_def]] True Cons nw fin nv
            show ?thesis by (auto simp: dijkstra_loop.simps[of f g os vis] Let_def)
          next
            case nf: False
            obtain g2 os2 where upd: "(g2, os2) = dijkstra_updateUnvisitedNeighbors c (setIsVisited c True g) rest"
              by (metis surj_pair)
            from nxt[OF dijkstra_loop_rel.intros(3)[OF Cons nw fin nv refl refl nf upd]]
            have "dijkstra_loop f g2 os2 (vis @ [c]) \<noteq> None"
              by (intro IH(3)[OF Cons nw fin nv refl refl nf upd]) simp_all
            with Cons nw fin nv nf upd[symmetric] show ?thesis
              by (simp add: dijkstra_loop.simps[of f g os vis] Let_def)
          qed
        qed
      qed
    qed
  qed
qed

lemma astar_loop_returns:
  assumes "chain_inv g s" "finiteAt g (set os)"
  shows "astar_loop f g os vis \<noteq> None"
  using assms
proof (induction f g os vis rule: astar_loop.induct)
  case (1 f g os vis)
  note IH = "1.IH" and prems = "1.prems"
  have nxt: "chain_inv (fst (snd y)) s \<and> finiteAt (fst (snd y)) (set (fst (snd (snd y))))"
    if "astar_loop_rel y (f, g, os, vis)" for y
    using astar_rel_stepsA[OF that] prems chain_inv_steps[of adjacentCells _ _ s, OF subset_refl]
    by auto
  show ?case
  proof (cases "sortNodesByTotalDistance g os")
    case Nil
    then show ?thesis by (simp add: astar_loop.simps[of f g os vis])
  next
    case (Cons c rest)
    show ?thesis
    proof (cases "isWall (cells g c)")
      case True
      from nxt[OF astar_loop_rel.intros(1)[OF Cons True]]
      have "astar_loop f g rest vis \<noteq> None" by (intro IH(1)[OF Cons True]) simp_all
      with Cons True show ?thesis by (simp add: astar_loop.simps[of f g os vis])
    next
      case nw: False
      show ?thesis
      proof (cases "isVisited (cells g c)")
        case True
        from nxt[OF astar_loop_rel.intros(2)[OF Cons nw True]]
        have "astar_loop f g rest vis \<noteq> None" by (intro IH(2)[OF Cons nw True]) simp_all
        with Cons nw True show ?thesis by (simp add: astar_loop.simps[of f g os vis])
      next
        case nv: False
        show ?thesis
        proof (cases "c = f")
          case True
          from found_returns[OF prems Cons[unfolded sortNodesByTotalDistance_def]] True Cons nw nv
          show ?thesis by (auto simp: astar_loop.simps[of f g os vis] Let_def)
        next
          case nf: False
          obtain g2 os2 where upd: "(g2, os2) = astar_updateUnvisitedNeighbors c f (setIsVisited c True g) rest"
            by (metis surj_pair)
          from nxt[OF astar_loop_rel.intros(3)[OF Cons nw nv refl refl nf upd]]
          have "astar_loop f g2 os2 (vis @ [c]) \<noteq> None"
            by (intro IH(3)[OF Cons nw nv refl refl nf upd]) simp_all
          with Cons nw nv nf upd[symmetric] show ?thesis
            by (simp add: astar_loop.simps[of f g os vis] Let_def)
        qed
      qed
    qed
  qed
qed

lemma greedy_loop_returns:
  assumes "chain_inv g s" "finiteAt g (set os)"
  shows "greedy_loop f g os vis \<noteq> None"
  using assms
proof (induction f g os vis rule: greedy_loop.induct)
  case (1 f g os vis)
  note IH = "1.IH" and prems = "1.prems"
  have nxt: "chain_inv (fst (snd y)) s \<and> finiteAt (fst (snd y)) (set (fst (snd (snd y))))"
    if "greedy_loop_rel y (f, g, os, vis)" for y
    using greedy_rel_stepsA[OF that] prems chain_inv_steps[of adjacentCells _ _ s, OF subset_refl]
    by auto
  show ?case
  proof (cases "sortNodesByHeuristic g os")
    case Nil
    then show ?thesis by (simp add: greedy_loop.simps[of f g os vis])
  next
    case (Cons c rest)
    show ?thesis
    proof (cases "isWall (cells g c)")
      case True
      from nxt[OF greedy_loop_rel.intros(1)[OF Cons True]]
      have "greedy_loop f g rest vis \<noteq> None" by (intro IH(1)[OF Cons True]) simp_all
      with Cons True show ?thesis by (simp add: greedy_loop.simps[of f g os vis])
    next
      case nw: False
      show ?thesis
      proof (cases "isVisited (cells g c)")
        case True
        from nxt[OF greedy_loop_rel.intros(2)[OF Cons nw True]]
        have "greedy_loop f g rest vis \<noteq> None" by (intro IH(2)[OF Cons nw True]) simp_all
        with Cons nw True show ?thesis by (simp add: greedy_loop.simps[of f g os vis])
      next
        case nv: False
        show ?thesis
        proof (cases "c = f")
          case True
          from found_returns[OF prems Cons[unfolded sortNodesByHeuristic_def]] True Cons nw nv
          show ?thesis by (auto simp: greedy_loop.simps[of f g os vis] Let_def)
        next
          case nf: False
          obtain g2 os2 where upd: "(g2, os2) = greedy_updateUnvisitedNeighbors c f (setIsVisited c True g) rest"
            by (metis surj_pair)
          from nxt[OF greedy_loop_rel.intros(3)[OF Cons nw nv refl refl nf upd]]
          have "greedy_loop f g2 os2 (vis @ [c]) \<noteq> None"
            by (intro IH(3)[OF Cons nw nv refl refl nf upd]) simp_all
          with Cons nw nv nf upd[symmetric] show ?thesis
            by (simp add: greedy_loop.simps[of f g os vis] Let_def)
        qed
      qed
    qed
  qed
qed

subsection \<open>Every state of a run keeps the invariant\<close>

lemma dijkstra_entry_inv:
  assumes "fresh g" "in_grid g s"
  shows "chain_inv (fst (snd (dijkstra_entry g s f))) s \<and>
         finiteAt (fst (snd (dijkstra_entry g s f))) (set (fst (snd (snd (dijkstra_entry g s f)))))"
  using chain_inv_initial[OF assms]
  by (simp add: dijkstra_entry_def finiteAt_def setters)

lemma astar_entry_inv:
  assumes "fresh g" "in_grid g s"
  shows "chain_inv (fst (snd (astar_entry g s f))) s \<and>
         finiteAt (fst (snd (astar_entry g s f))) (set (fst (snd (snd (astar_entry g s f)))))"
proof -
  have "chain_inv (fst (snd (astar_entry g s f))) s"
    by (rule chain_inv_cong[OF _ _ _ _ _ chain_inv_initial[OF assms]])
       (use assms(1) in \<open>simp_all add: astar_entry_def Let_def setters fresh_def split: if_splits\<close>)
  then show ?thesis by (simp add: astar_entry_def Let_def finiteAt_def setters)
qed

lemma greedy_entry_inv:
  assumes "fresh g" "in_grid g s"
  shows "chain_inv (fst (snd (greedy_entry g s f))) s \<and>
         finiteAt (fst (snd (greedy_entry g s f))) (set (fst (snd (snd (greedy_entry g s f)))))"
proof -
  have "chain_inv (fst (snd (greedy_entry g s f))) s"
    by (rule chain_inv_cong[OF _ _ _ _ _ chain_inv_initial[OF assms]])
       (use assms(1) in \<open>simp_all add: greedy_entry_def Let_def setters fresh_def split: if_splits\<close>)
  then show ?thesis by (simp add: greedy_entry_def Let_def finiteAt_def setters)
qed

lemma bmssp_entry_inv:
  assumes "fresh g" "in_grid g s"
  shows "chain_inv (bmssp_entry g s) s"
proof -
  have "fresh (resetAll g)" using assms(1) by (simp add: fresh_def resetAll_def resetNode_def)
  moreover have "in_grid (resetAll g) s" using assms(2) by (simp add: in_grid_def resetAll_def)
  ultimately show ?thesis unfolding bmssp_entry_def by (rule chain_inv_initial)
qed

lemma reached_inv:
  assumes rel: "\<And>y x. R y x \<Longrightarrow> finiteAt (fst (snd x)) (set (fst (snd (snd x)))) \<Longrightarrow>
             stepsA (fst (snd x)) (fst (snd y)) \<and> finiteAt (fst (snd y)) (set (fst (snd (snd y))))"
    and "R\<^sup>*\<^sup>* st e"
    and "chain_inv (fst (snd e)) s \<and> finiteAt (fst (snd e)) (set (fst (snd (snd e))))"
  shows "chain_inv (fst (snd st)) s \<and> finiteAt (fst (snd st)) (set (fst (snd (snd st))))"
  using rtranclp_stepsA[of R, OF rel assms(2)] assms(3)
    chain_inv_steps[of adjacentCells _ _ s, OF subset_refl]
  by blast

lemma exit_inv:
  assumes "exit_empty g vis r \<or> exit_found f g vis c r"
    "chain_inv g s" "finiteAt g (set os)" "sort_key key os = c # rest"
  shows "chain_inv (final r) s"
proof -
  from sort_head_set(1)[OF assms(4)] assms(3) have "distance (cells g c) \<noteq> \<infinity>"
    by (auto simp: finiteAt_def)
  from close_chain_inv[OF assms(2) this] assms(1,2) show ?thesis
    by (auto simp: exit_empty_def exit_found_def)
qed

lemma dijkstra_run_inv:
  assumes "fresh g" "in_grid g s"
  shows "\<exists>r. dijkstra g s f = Some r \<and> chain_inv (final r) s"
proof -
  note e = dijkstra_entry_inv[OF assms, of f]
  have d: "dijkstra g s f = dijkstra_loop f (setDistance s 0 g) [s] []" by (simp add: dijkstra_def)
  from e dijkstra_loop_returns[of "setDistance s 0 g" s "[s]" f "[]"]
  obtain r where r: "dijkstra g s f = Some r" by (auto simp: d dijkstra_entry_def)
  from dijkstra_loop_exit[OF r[unfolded d]]
  obtain st where st: "dijkstra_loop_rel\<^sup>*\<^sup>* st (dijkstra_entry g s f)" "dijkstra_exit st r"
    by (auto simp: dijkstra_entry_def)
  obtain f' g' os' vis' where st': "st = (f', g', os', vis')" by (cases st)
  from reached_inv[of dijkstra_loop_rel, OF dijkstra_rel_stepsA st(1) e]
  have i: "chain_inv g' s" "finiteAt g' (set os')" by (simp_all add: st')
  have "chain_inv (final r) s"
  proof (cases "sortNodesByDistance g' os'")
    case Nil
    with st(2) i(1) show ?thesis by (simp add: dijkstra_exit_def st' exit_empty_def)
  next
    case (Cons c rest)
    with st(2) have "exit_empty g' vis' r \<or> exit_found f' g' vis' c r"
      by (auto simp: dijkstra_exit_def st' split: if_splits)
    from exit_inv[OF this i Cons[unfolded sortNodesByDistance_def]] show ?thesis .
  qed
  with r show ?thesis by blast
qed

lemma astar_run_inv:
  assumes "fresh g" "in_grid g s"
  shows "\<exists>r. astar g s f = Some r \<and> chain_inv (final r) s"
proof -
  note e = astar_entry_inv[OF assms, of f]
  obtain g0 where g0: "astar_entry g s f = (f, g0, [s], [])" by (simp add: astar_entry_def Let_def)
  have d: "astar g s f = astar_loop f g0 [s] []"
    using g0 by (simp add: astar_def astar_entry_def Let_def)
  from e astar_loop_returns[of g0 s "[s]" f "[]"]
  obtain r where r: "astar g s f = Some r" by (auto simp: d g0)
  from astar_loop_exit[OF r[unfolded d]]
  obtain st where st: "astar_loop_rel\<^sup>*\<^sup>* st (astar_entry g s f)" "astar_exit st r"
    by (auto simp: g0)
  obtain f' g' os' vis' where st': "st = (f', g', os', vis')" by (cases st)
  from reached_inv[of astar_loop_rel, OF astar_rel_stepsA st(1) e]
  have i: "chain_inv g' s" "finiteAt g' (set os')" by (simp_all add: st')
  have "chain_inv (final r) s"
  proof (cases "sortNodesByTotalDistance g' os'")
    case Nil
    with st(2) i(1) show ?thesis by (simp add: astar_exit_def st' exit_empty_def)
  next
    case (Cons c rest)
    with st(2) have "exit_empty g' vis' r \<or> exit_found f' g' vis' c r"
      by (auto simp: astar_exit_def st' split: if_splits)
    from exit_inv[OF this i Cons[unfolded sortNodesByTotalDistance_def]] show ?thesis .
  qed
  with r show ?thesis by blast
qed

lemma greedy_run_inv:
  assumes "fresh g" "in_grid g s"
  shows "\<exists>r. greedyBfs g s f = Some r \<and> chain_inv (final r) s"
proof -
  note e = greedy_entry_inv[OF assms, of f]
  obtain g0 where g0: "greedy_entry g s f = (f, g0, [s], [])" by (simp add: greedy_entry_def Let_def)
  have d: "greedyBfs g s f = greedy_loop f g0 [s] []"
    using g0 by (simp add: greedyBfs_def greedy_entry_def Let_def)
  from e greedy_loop_returns[of g0 s "[s]" f "[]"]
  obtain r where r: "greedyBfs g s f = Some r" by (auto simp: d g0)
  from greedy_loop_exit[OF r[unfolded d]]
  obtain st where st: "greedy_loop_rel\<^sup>*\<^sup>* st (greedy_entry g s f)" "greedy_exit st r"
    by (auto simp: g0)
  obtain f' g' os' vis' where st': "st = (f', g', os', vis')" by (cases st)
  from reached_inv[of greedy_loop_rel, OF greedy_rel_stepsA st(1) e]
  have i: "chain_inv g' s" "finiteAt g' (set os')" by (simp_all add: st')
  have "chain_inv (final r) s"
  proof (cases "sortNodesByHeuristic g' os'")
    case Nil
    with st(2) i(1) show ?thesis by (simp add: greedy_exit_def st' exit_empty_def)
  next
    case (Cons c rest)
    with st(2) have "exit_empty g' vis' r \<or> exit_found f' g' vis' c r"
      by (auto simp: greedy_exit_def st' split: if_splits)
    from exit_inv[OF this i Cons[unfolded sortNodesByHeuristic_def]] show ?thesis .
  qed
  with r show ?thesis by blast
qed

lemma bmssp_run_inv:
  assumes "fresh g" "in_grid g s"
    "bmsspRecursive k t l \<infinity> [s] \<lparr>gridRef = bmssp_entry g s, visitedList = []\<rparr> = Some x"
  shows "\<exists>r. bmssp k t l g s f = Some r \<and> chain_inv (final r) s"
proof -
  have "finiteAt (gridRef \<lparr>gridRef = bmssp_entry g s, visitedList = []\<rparr>) (set [s])"
    by (simp add: finiteAt_def bmssp_entry_def setters)
  from bmsspRecursive_steps[OF assms(3) this]
  have "stepsB (bmssp_entry g s) (gridRef (snd x))" by simp
  from chain_inv_steps[of nonWallNeighbors, OF nonWallNeighbors_subset this bmssp_entry_inv[OF assms(1,2)]]
  have i: "chain_inv (gridRef (snd x)) s" .
  show ?thesis
  proof (cases "distance (cells (gridRef (snd x)) f) = \<infinity>")
    case True
    with assms(3) i show ?thesis by (simp add: bmssp_def bmssp_entry_def Let_def)
  next
    case False
    from chain_inv_walk_finish[OF i False] obtain path where
      "walkPrevious (gridRef (snd x)) (Some f) [] = Some path" by blast
    with assms(3) i False show ?thesis by (simp add: bmssp_def bmssp_entry_def Let_def)
  qed
qed

section \<open>Predecessor chains in the runs\<close>

text \<open>
  C8 as stated fails for the bidirectional swarm: it keeps its parents in the maps of the
  two frontiers and never writes \<open>previousNode\<close>. On the grid of one row and two columns,
  all fields reset, the finish node is visited when the run returns and its
  \<open>previousNode\<close> is null, so no number of links leads from it to the start.
\<close>

theorem C8_counterexample:
  "afterRun (unrooted (0, 0) (0, 1))
     (bidirectionalSwarm (getInitialGrid 1 2 (0, 0) (0, 1)) (0, 0) (0, 1))"
  by code_simp

text \<open>
  C8, amended. Let every node of the grid be reset (infinite distance, unvisited, no
  predecessor) and the start node lie in the grid. In Dijkstra, A* and greedy best-first,
  in the grid at the head of every round of the main loop, and in the grid the run
  leaves, the \<open>previousNode\<close> links from every visited node reach the start node within
  rows * cols links and the loop that walks them returns; each of the three runs returns.
  In BMSSP the same holds in every grid that relaxations along non-wall neighbours and
  closings of nodes of finite distance produce from the grid on which the recursion is
  entered, and whenever the recursion returns, \<open>bmssp\<close> returns (its walk from the finish
  node ends) and leaves such a grid.
\<close>

theorem C8_chains_rooted:
  assumes "fresh g" "in_grid g s"
  shows "(\<forall>st. dijkstra_loop_rel\<^sup>*\<^sup>* st (dijkstra_entry g s f) \<longrightarrow> rooted (fst (snd st)) s) \<and>
         (\<forall>st. astar_loop_rel\<^sup>*\<^sup>* st (astar_entry g s f) \<longrightarrow> rooted (fst (snd st)) s) \<and>
         (\<forall>st. greedy_loop_rel\<^sup>*\<^sup>* st (greedy_entry g s f) \<longrightarrow> rooted (fst (snd st)) s) \<and>
         afterRun (\<lambda>g'. rooted g' s) (dijkstra g s f) \<and>
         afterRun (\<lambda>g'. rooted g' s) (astar g s f) \<and>
         afterRun (\<lambda>g'. rooted g' s) (greedyBfs g s f) \<and>
         (\<forall>g'. stepsB (bmssp_entry g s) g' \<longrightarrow> rooted g' s) \<and>
         (bmsspRecursive k t l \<infinity> [s] \<lparr>gridRef = bmssp_entry g s, visitedList = []\<rparr> \<noteq> None \<longrightarrow>
            afterRun (\<lambda>g'. rooted g' s) (bmssp k t l g s f))"
proof -
  have 1: "rooted (fst (snd st)) s" if "dijkstra_loop_rel\<^sup>*\<^sup>* st (dijkstra_entry g s f)" for st
    using reached_inv[of dijkstra_loop_rel, OF dijkstra_rel_stepsA that dijkstra_entry_inv[OF assms]]
    by (blast intro: chain_inv_rooted)
  have 2: "rooted (fst (snd st)) s" if "astar_loop_rel\<^sup>*\<^sup>* st (astar_entry g s f)" for st
    using reached_inv[of astar_loop_rel, OF astar_rel_stepsA that astar_entry_inv[OF assms]]
    by (blast intro: chain_inv_rooted)
  have 3: "rooted (fst (snd st)) s" if "greedy_loop_rel\<^sup>*\<^sup>* st (greedy_entry g s f)" for st
    using reached_inv[of greedy_loop_rel, OF greedy_rel_stepsA that greedy_entry_inv[OF assms]]
    by (blast intro: chain_inv_rooted)
  have 4: "afterRun (\<lambda>g'. rooted g' s) (dijkstra g s f)"
    using dijkstra_run_inv[OF assms, of f] by (auto simp: afterRun_def intro: chain_inv_rooted)
  have 5: "afterRun (\<lambda>g'. rooted g' s) (astar g s f)"
    using astar_run_inv[OF assms, of f] by (auto simp: afterRun_def intro: chain_inv_rooted)
  have 6: "afterRun (\<lambda>g'. rooted g' s) (greedyBfs g s f)"
    using greedy_run_inv[OF assms, of f] by (auto simp: afterRun_def intro: chain_inv_rooted)
  have 7: "rooted g' s" if "stepsB (bmssp_entry g s) g'" for g'
    using chain_inv_steps[of nonWallNeighbors, OF nonWallNeighbors_subset that bmssp_entry_inv[OF assms]]
    by (rule chain_inv_rooted)
  have 8: "afterRun (\<lambda>g'. rooted g' s) (bmssp k t l g s f)"
    if "bmsspRecursive k t l \<infinity> [s] \<lparr>gridRef = bmssp_entry g s, visitedList = []\<rparr> \<noteq> None"
  proof -
    from that obtain x where
      "bmsspRecursive k t l \<infinity> [s] \<lparr>gridRef = bmssp_entry g s, visitedList = []\<rparr> = Some x" by blast
    from bmssp_run_inv[OF assms this, of f] show ?thesis
      by (auto simp: afterRun_def intro: chain_inv_rooted)
  qed
  from 1 2 3 4 5 6 7 8 show ?thesis by blast
qed

theorem C8_chains_rooted_witness:
  "fresh (getInitialGrid 2 2 (0, 0) (1, 1)) \<and> in_grid (getInitialGrid 2 2 (0, 0) (1, 1)) (0, 0) \<and>
   (\<exists>r. dijkstra (getInitialGrid 2 2 (0, 0) (1, 1)) (0, 0) (1, 1) = Some r \<and>
        isVisited (cells (final r) (1, 1)) \<and>
        reachesWithin (final r) (0, 0) (1, 1) (rows (final r) * cols (final r))) \<and>
   (\<exists>r. astar (getInitialGrid 2 2 (0, 0) (1, 1)) (0, 0) (1, 1) = Some r \<and>
        isVisited (cells (final r) (1, 1)) \<and>
        reachesWithin (final r) (0, 0) (1, 1) (rows (final r) * cols (final r))) \<and>
   (\<exists>r. greedyBfs (getInitialGrid 2 2 (0, 0) (1, 1)) (0, 0) (1, 1) = Some r \<and>
        isVisited (cells (final r) (1, 1)) \<and>
        reachesWithin (final r) (0, 0) (1, 1) (rows (final r) * cols (final r))) \<and>
   (\<exists>r. bmssp 2 2 1 (getInitialGrid 2 2 (0, 0) (1, 1)) (0, 0) (1, 1) = Some r \<and>
        isVisited (cells (final r) (1, 1)) \<and>
        reachesWithin (final r) (0, 0) (1, 1) (rows (final r) * cols (final r)))"
proof -
  let ?G = "getInitialGrid 2 2 (0, 0) (1, 1)"
  have fr: "fresh ?G" by (simp add: fresh_def getInitialGrid_def createNode_def)
  have ig: "in_grid ?G (0, 0)" by (simp add: in_grid_def getInitialGrid_def)
  have vd: "fieldAfter isVisited (1, 1) (dijkstra ?G (0, 0) (1, 1)) = Some True" by code_simp
  have va: "fieldAfter isVisited (1, 1) (astar ?G (0, 0) (1, 1)) = Some True" by code_simp
  have vg: "fieldAfter isVisited (1, 1) (greedyBfs ?G (0, 0) (1, 1)) = Some True" by code_simp
  have vb: "fieldAfter isVisited (1, 1) (bmssp 2 2 1 ?G (0, 0) (1, 1)) = Some True" by code_simp
  have rec: "bmsspRecursive 2 2 1 \<infinity> [(0, 0)]
      \<lparr>gridRef = bmssp_entry ?G (0, 0), visitedList = []\<rparr> \<noteq> None"
  proof
    assume "bmsspRecursive 2 2 1 \<infinity> [(0, 0)]
      \<lparr>gridRef = bmssp_entry ?G (0, 0), visitedList = []\<rparr> = None"
    then have "bmssp 2 2 1 ?G (0, 0) (1, 1) = None"
      unfolding bmssp_def bmssp_entry_def by (simp only: Option.bind.simps)
    with vb show False by (simp add: fieldAfter_def)
  qed
  from C8_chains_rooted[OF fr ig, of "(1, 1)" 2 2 1] rec
  have "afterRun (\<lambda>g'. rooted g' (0, 0)) (dijkstra ?G (0, 0) (1, 1))"
    "afterRun (\<lambda>g'. rooted g' (0, 0)) (astar ?G (0, 0) (1, 1))"
    "afterRun (\<lambda>g'. rooted g' (0, 0)) (greedyBfs ?G (0, 0) (1, 1))"
    "afterRun (\<lambda>g'. rooted g' (0, 0)) (bmssp 2 2 1 ?G (0, 0) (1, 1))"
    by blast+
  with vd va vg vb fr ig show ?thesis
    by (auto simp: afterRun_def fieldAfter_def rooted_def split: option.splits)
qed


section \<open>Dijkstra and A* return shortest walks\<close>

subsection \<open>Walks and the Manhattan distance\<close>

lemma walkEnds_cong:
  assumes "rows g' = rows g" "cols g' = cols g" "\<And>p. isWall (cells g' p) = isWall (cells g p)"
  shows "walkEnds g' s n = walkEnds g s n"
proof -
  have "getNeighbors u g' = getNeighbors u g" for u
    using assms adjacentCells_shape[of g' g u] by (simp add: getNeighbors_def)
  then show ?thesis by (induction n) simp_all
qed

lemma walkEnds_step:
  "u \<in> set (walkEnds g s n) \<Longrightarrow> v \<in> set (adjacentCells g u) \<Longrightarrow> \<not> isWall (cells g v) \<Longrightarrow>
   v \<in> set (walkEnds g s (Suc n))"
  by (auto simp: getNeighbors_def)

lemma walkEnds_SucE:
  assumes "v \<in> set (walkEnds g s (Suc n))"
  obtains u where "u \<in> set (walkEnds g s n)" "v \<in> set (adjacentCells g u)" "\<not> isWall (cells g v)"
  using assms by (auto simp: getNeighbors_def)

lemma manhattan_self: "getManhattanDistance v v = 0"
  by (simp add: getManhattanDistance_def)

lemma absdiff_triangle:
  "(if a \<le> b then b - a else a - b) \<le>
   (if a \<le> c then c - a else a - c) + (if c \<le> b then b - c else c - b)" for a b c :: nat
  by auto

lemma manhattan_triangle:
  "getManhattanDistance w f \<le> getManhattanDistance w c + getManhattanDistance c f"
  unfolding getManhattanDistance_def
  using absdiff_triangle[of "fst w" "fst f" "fst c"] absdiff_triangle[of "snd w" "snd f" "snd c"]
  by linarith

lemma manhattan_adjacent:
  "x \<in> set (adjacentCells g u) \<Longrightarrow> getManhattanDistance w x \<le> getManhattanDistance w u + 1"
  by (cases u) (auto simp: getManhattanDistance_def split: if_splits)

subsection \<open>The invariant of the search\<close>

lemma enat_le_plus1: "(a::enat) \<le> enat n \<Longrightarrow> a + 1 \<le> enat (Suc n)"
  by (cases a) (auto simp: one_enat_def)

lemma lower_bound:
  assumes inv: "search_inv g s os {}" and v: "v \<in> set (walkEnds g s n)"
  shows "(isVisited (cells g v) \<and> distance (cells g v) \<le> enat n) \<or>
         (\<exists>w\<in>set os. \<not> isVisited (cells g w) \<and> \<not> isWall (cells g w) \<and>
                      distance (cells g w) + enat (getManhattanDistance w v) \<le> enat n)"
  using v
proof (induction n arbitrary: v)
  case 0
  then have vs: "v = s" by simp
  note i = inv[unfolded search_inv_def]
  show ?case
  proof (cases "isVisited (cells g s)")
    case True
    with i vs show ?thesis by (simp add: zero_enat_def)
  next
    case False
    with i have "s \<in> set os" by auto
    with False i vs show ?thesis
      by (intro disjI2 bexI[of _ s]) (simp_all add: manhattan_self zero_enat_def)
  qed
next
  case (Suc n)
  note i = inv[unfolded search_inv_def]
  from Suc.prems obtain u where u: "u \<in> set (walkEnds g s n)" "v \<in> set (adjacentCells g u)"
    "\<not> isWall (cells g v)" by (rule walkEnds_SucE)
  from Suc.IH[OF u(1)] show ?case
  proof
    assume c: "isVisited (cells g u) \<and> distance (cells g u) \<le> enat n"
    with i u(2,3) have "distance (cells g v) \<le> distance (cells g u) + 1" by blast
    also have "\<dots> \<le> enat (Suc n)" using c by (simp add: enat_le_plus1)
    finally have le: "distance (cells g v) \<le> enat (Suc n)" .
    show ?thesis
    proof (cases "isVisited (cells g v)")
      case True with le show ?thesis by blast
    next
      case False
      from le have "distance (cells g v) \<noteq> \<infinity>" by auto
      with False u(3) i have "v \<in> set os" by blast
      with False u(3) le show ?thesis
        by (intro disjI2 bexI[of _ v]) (simp_all add: manhattan_self zero_enat_def[symmetric])
    qed
  next
    assume "\<exists>w\<in>set os. \<not> isVisited (cells g w) \<and> \<not> isWall (cells g w) \<and>
                      distance (cells g w) + enat (getManhattanDistance w u) \<le> enat n"
    then obtain w where w: "w \<in> set os" "\<not> isVisited (cells g w)" "\<not> isWall (cells g w)"
      "distance (cells g w) + enat (getManhattanDistance w u) \<le> enat n" by blast
    from manhattan_adjacent[OF u(2), of w]
    have "distance (cells g w) + enat (getManhattanDistance w v)
          \<le> distance (cells g w) + enat (getManhattanDistance w u) + 1"
      by (cases "distance (cells g w)") (auto simp: one_enat_def)
    also have "\<dots> \<le> enat (Suc n)" using w(4) by (rule enat_le_plus1)
    finally show ?thesis using w(1-3) by blast
  qed
qed

lemma search_inv_mono: "search_inv g s os P \<Longrightarrow> P \<subseteq> P' \<Longrightarrow> search_inv g s os P'"
  unfolding search_inv_def by blast

lemma search_inv_skip:
  assumes "search_inv g s os {}" "isWall (cells g c) \<or> isVisited (cells g c)"
    "set os \<subseteq> insert c (set rest)" "set rest \<subseteq> set os"
  shows "search_inv g s rest {}"
  using assms unfolding search_inv_def by (auto; blast)

lemma search_invD:
  assumes "search_inv g s os P"
  shows "distance (cells g s) = 0" "\<not> isWall (cells g s)" "previousNode (cells g s) = None"
    "\<And>x. distance (cells g x) \<noteq> \<infinity> \<Longrightarrow> \<not> isVisited (cells g x) \<Longrightarrow> \<not> isWall (cells g x) \<Longrightarrow> x \<in> set os"
    "\<And>v n. distance (cells g v) = enat n \<Longrightarrow> \<not> isWall (cells g v) \<Longrightarrow> v \<in> set (walkEnds g s n)"
    "\<And>v. v \<noteq> s \<Longrightarrow> distance (cells g v) \<noteq> \<infinity> \<Longrightarrow>
         \<exists>u. previousNode (cells g v) = Some u \<and> isVisited (cells g u) \<and>
             distance (cells g v) = distance (cells g u) + 1"
    "\<And>u. isVisited (cells g u) \<Longrightarrow> \<not> isWall (cells g u)"
    "\<And>u. isVisited (cells g u) \<Longrightarrow> distance (cells g u) \<noteq> \<infinity>"
    "\<And>u n. isVisited (cells g u) \<Longrightarrow> u \<in> set (walkEnds g s n) \<Longrightarrow> distance (cells g u) \<le> enat n"
    "\<And>u x. isVisited (cells g u) \<Longrightarrow> x \<in> set (adjacentCells g u) \<Longrightarrow> \<not> isWall (cells g x) \<Longrightarrow>
         (u, x) \<notin> P \<Longrightarrow> distance (cells g x) \<le> distance (cells g u) + 1"
    "\<And>w. w \<in> set os \<Longrightarrow> distance (cells g w) \<noteq> \<infinity>"
proof -
  note i = assms[unfolded search_inv_def]
  from i show "distance (cells g s) = 0" by (elim conjE)
  from i show "\<not> isWall (cells g s)" by (elim conjE)
  from i show "previousNode (cells g s) = None" by (elim conjE)
  from i have "\<forall>x. distance (cells g x) \<noteq> \<infinity> \<and> \<not> isVisited (cells g x) \<and> \<not> isWall (cells g x)
           \<longrightarrow> x \<in> set os" by (elim conjE)
  then show "\<And>x. distance (cells g x) \<noteq> \<infinity> \<Longrightarrow> \<not> isVisited (cells g x) \<Longrightarrow> \<not> isWall (cells g x) \<Longrightarrow> x \<in> set os"
    by blast
  from i have "\<forall>v n. distance (cells g v) = enat n \<and> \<not> isWall (cells g v) \<longrightarrow> v \<in> set (walkEnds g s n)"
    by (elim conjE)
  then show "\<And>v n. distance (cells g v) = enat n \<Longrightarrow> \<not> isWall (cells g v) \<Longrightarrow> v \<in> set (walkEnds g s n)"
    by blast
  from i have "\<forall>v. v \<noteq> s \<and> distance (cells g v) \<noteq> \<infinity> \<longrightarrow>
           (\<exists>u. previousNode (cells g v) = Some u \<and> isVisited (cells g u) \<and>
                distance (cells g v) = distance (cells g u) + 1)" by (elim conjE)
  then show "\<And>v. v \<noteq> s \<Longrightarrow> distance (cells g v) \<noteq> \<infinity> \<Longrightarrow>
         \<exists>u. previousNode (cells g v) = Some u \<and> isVisited (cells g u) \<and>
             distance (cells g v) = distance (cells g u) + 1" by blast
  from i have x: "\<forall>u. isVisited (cells g u) \<longrightarrow>
           \<not> isWall (cells g u) \<and> distance (cells g u) \<noteq> \<infinity> \<and>
           (\<forall>n. u \<in> set (walkEnds g s n) \<longrightarrow> distance (cells g u) \<le> enat n)" by (elim conjE)
  from x show "\<And>u. isVisited (cells g u) \<Longrightarrow> \<not> isWall (cells g u)" by blast
  from x show "\<And>u. isVisited (cells g u) \<Longrightarrow> distance (cells g u) \<noteq> \<infinity>" by blast
  from x show "\<And>u n. isVisited (cells g u) \<Longrightarrow> u \<in> set (walkEnds g s n) \<Longrightarrow> distance (cells g u) \<le> enat n"
    by blast
  from i have "\<forall>u x. isVisited (cells g u) \<and> x \<in> set (adjacentCells g u) \<and> \<not> isWall (cells g x) \<and>
             (u, x) \<notin> P \<longrightarrow> distance (cells g x) \<le> distance (cells g u) + 1" by (elim conjE)
  then show "\<And>u x. isVisited (cells g u) \<Longrightarrow> x \<in> set (adjacentCells g u) \<Longrightarrow> \<not> isWall (cells g x) \<Longrightarrow>
         (u, x) \<notin> P \<Longrightarrow> distance (cells g x) \<le> distance (cells g u) + 1" by blast
  from i have "\<forall>w\<in>set os. distance (cells g w) \<noteq> \<infinity>" by (elim conjE)
  then show "\<And>w. w \<in> set os \<Longrightarrow> distance (cells g w) \<noteq> \<infinity>" by blast
qed

lemma search_invI:
  assumes "distance (cells g s) = 0" "\<not> isWall (cells g s)" "previousNode (cells g s) = None"
    "\<And>x. distance (cells g x) \<noteq> \<infinity> \<Longrightarrow> \<not> isVisited (cells g x) \<Longrightarrow> \<not> isWall (cells g x) \<Longrightarrow> x \<in> set os"
    "\<And>v n. distance (cells g v) = enat n \<Longrightarrow> \<not> isWall (cells g v) \<Longrightarrow> v \<in> set (walkEnds g s n)"
    "\<And>v. v \<noteq> s \<Longrightarrow> distance (cells g v) \<noteq> \<infinity> \<Longrightarrow>
         \<exists>u. previousNode (cells g v) = Some u \<and> isVisited (cells g u) \<and>
             distance (cells g v) = distance (cells g u) + 1"
    "\<And>u. isVisited (cells g u) \<Longrightarrow> \<not> isWall (cells g u)"
    "\<And>u. isVisited (cells g u) \<Longrightarrow> distance (cells g u) \<noteq> \<infinity>"
    "\<And>u n. isVisited (cells g u) \<Longrightarrow> u \<in> set (walkEnds g s n) \<Longrightarrow> distance (cells g u) \<le> enat n"
    "\<And>u x. isVisited (cells g u) \<Longrightarrow> x \<in> set (adjacentCells g u) \<Longrightarrow> \<not> isWall (cells g x) \<Longrightarrow>
         (u, x) \<notin> P \<Longrightarrow> distance (cells g x) \<le> distance (cells g u) + 1"
    "\<And>w. w \<in> set os \<Longrightarrow> distance (cells g w) \<noteq> \<infinity>"
  shows "search_inv g s os P"
  unfolding search_inv_def
proof (intro conjI)
  show "\<forall>x. distance (cells g x) \<noteq> \<infinity> \<and> \<not> isVisited (cells g x) \<and> \<not> isWall (cells g x)
           \<longrightarrow> x \<in> set os" using assms(4) by blast
  show "\<forall>v n. distance (cells g v) = enat n \<and> \<not> isWall (cells g v) \<longrightarrow> v \<in> set (walkEnds g s n)"
    using assms(5) by blast
  show "\<forall>v. v \<noteq> s \<and> distance (cells g v) \<noteq> \<infinity> \<longrightarrow>
           (\<exists>u. previousNode (cells g v) = Some u \<and> isVisited (cells g u) \<and>
                distance (cells g v) = distance (cells g u) + 1)" using assms(6) by blast
  show "\<forall>u. isVisited (cells g u) \<longrightarrow>
           \<not> isWall (cells g u) \<and> distance (cells g u) \<noteq> \<infinity> \<and>
           (\<forall>n. u \<in> set (walkEnds g s n) \<longrightarrow> distance (cells g u) \<le> enat n)"
    using assms(7,8,9) by blast
  show "\<forall>u x. isVisited (cells g u) \<and> x \<in> set (adjacentCells g u) \<and> \<not> isWall (cells g x) \<and>
             (u, x) \<notin> P \<longrightarrow> distance (cells g x) \<le> distance (cells g u) + 1"
    using assms(10) by blast
  show "\<forall>w\<in>set os. distance (cells g w) \<noteq> \<infinity>" using assms(11) by blast
qed (rule assms(1-3))+

lemma search_inv_close:
  assumes inv: "search_inv g s os {}" and c: "c \<in> set os"
    and os: "set os \<subseteq> insert c (set rest)" "set rest \<subseteq> set os"
    and nv: "\<not> isVisited (cells g c)" and nw: "\<not> isWall (cells g c)"
    and opt: "\<And>n. c \<in> set (walkEnds g s n) \<Longrightarrow> distance (cells g c) \<le> enat n"
  shows "search_inv (setIsVisited c True g) s rest
           ({c} \<times> set (getUnvisitedNeighbors c (setIsVisited c True g)))"
proof -
  let ?g = "setIsVisited c True g"
  note i = search_invD[OF inv]
  have d: "distance (cells ?g p) = distance (cells g p)" for p by (simp add: setters)
  have w: "isWall (cells ?g p) = isWall (cells g p)" for p by (simp add: setters)
  have pr: "previousNode (cells ?g p) = previousNode (cells g p)" for p by (simp add: setters)
  have vi: "isVisited (cells ?g p) = (p = c \<or> isVisited (cells g p))" for p by (simp add: setters)
  have ad: "adjacentCells ?g p = adjacentCells g p" for p
    by (rule adjacentCells_shape) (simp_all add: setters)
  have we: "walkEnds ?g s n = walkEnds g s n" for n
    by (rule walkEnds_cong) (simp_all add: setters)
  from c i(11) have fc: "distance (cells g c) \<noteq> \<infinity>" by blast
  then obtain m where m: "distance (cells g c) = enat m" by (cases "distance (cells g c)") auto
  from i(5)[OF m nw] have cm: "c \<in> set (walkEnds g s m)" .
  show ?thesis
  proof (rule search_invI)
    show "distance (cells ?g s) = 0" "\<not> isWall (cells ?g s)" "previousNode (cells ?g s) = None"
      unfolding d w pr by (rule i(1-3))+
  next
    fix x assume "distance (cells ?g x) \<noteq> \<infinity>" "\<not> isVisited (cells ?g x)" "\<not> isWall (cells ?g x)"
    then have "distance (cells g x) \<noteq> \<infinity>" "\<not> isVisited (cells g x)" "\<not> isWall (cells g x)" "x \<noteq> c"
      by (simp_all add: d w vi)
    with i(4)[of x] os(1) show "x \<in> set rest" by blast
  next
    fix v n assume "distance (cells ?g v) = enat n" "\<not> isWall (cells ?g v)"
    then show "v \<in> set (walkEnds ?g s n)" unfolding d w we by (rule i(5))
  next
    fix v assume "v \<noteq> s" "distance (cells ?g v) \<noteq> \<infinity>"
    then have "v \<noteq> s" "distance (cells g v) \<noteq> \<infinity>" by (simp_all add: d)
    from i(6)[OF this] show "\<exists>u. previousNode (cells ?g v) = Some u \<and> isVisited (cells ?g u) \<and>
             distance (cells ?g v) = distance (cells ?g u) + 1"
      unfolding d pr vi by blast
  next
    fix u assume "isVisited (cells ?g u)"
    then have "u = c \<or> isVisited (cells g u)" by (simp add: vi)
    then show "\<not> isWall (cells ?g u)" unfolding w using nw i(7) by blast
  next
    fix u assume "isVisited (cells ?g u)"
    then have "u = c \<or> isVisited (cells g u)" by (simp add: vi)
    then show "distance (cells ?g u) \<noteq> \<infinity>" unfolding d using fc i(8) by blast
  next
    fix u n assume "isVisited (cells ?g u)" "u \<in> set (walkEnds ?g s n)"
    then have "u = c \<or> isVisited (cells g u)" "u \<in> set (walkEnds g s n)" by (simp_all add: vi we)
    then show "distance (cells ?g u) \<le> enat n" unfolding d using opt i(9) by blast
  next
    fix u x
    assume a: "isVisited (cells ?g u)" "x \<in> set (adjacentCells ?g u)" "\<not> isWall (cells ?g x)"
      "(u, x) \<notin> {c} \<times> set (getUnvisitedNeighbors c ?g)"
    then have x: "x \<in> set (adjacentCells g u)" "\<not> isWall (cells g x)" by (simp_all add: ad w)
    show "distance (cells ?g x) \<le> distance (cells ?g u) + 1"
    proof (cases "u = c")
      case False
      with a(1) have "isVisited (cells g u)" by (simp add: vi)
      from i(10)[OF this x] show ?thesis unfolding d by simp
    next
      case True
      with a(4) have "x \<notin> set (getUnvisitedNeighbors c ?g)" by blast
      with x(1) True have "isVisited (cells ?g x)" by (simp add: getUnvisitedNeighbors_def ad)
      then have "x = c \<or> isVisited (cells g x)" by (simp add: vi)
      then show ?thesis
      proof
        assume "x = c" with True show ?thesis by (simp add: d)
      next
        assume vx: "isVisited (cells g x)"
        from walkEnds_step[OF cm x(1)[unfolded True] x(2)] have "x \<in> set (walkEnds g s (Suc m))" .
        from i(9)[OF vx this] show ?thesis unfolding d True m by (simp add: one_enat_def)
      qed
    qed
  next
    fix x assume "x \<in> set rest"
    with os(2) i(11) show "distance (cells ?g x) \<noteq> \<infinity>" unfolding d by blast
  qed
qed

lemma search_inv_relax:
  assumes inv: "search_inv g s os P" and vc: "isVisited (cells g c)"
    and nv: "\<not> isVisited (cells g v)" and ad: "v \<in> set (adjacentCells g c)"
    and rel: "relax_spec c v (g, os) (g', os')"
  shows "search_inv g' s os' (P - {(c, v)})"
proof (cases "distance (cells g c) + 1 < distance (cells g v)")
  case False
  with rel have e: "g' = g" "os' = os" by (simp_all add: relax_spec_def)
  from False have le: "distance (cells g v) \<le> distance (cells g c) + 1" by simp
  note i = search_invD[OF inv]
  show ?thesis unfolding e
  proof (rule search_invI)
    fix u x
    assume a: "isVisited (cells g u)" "x \<in> set (adjacentCells g u)" "\<not> isWall (cells g x)"
      "(u, x) \<notin> P - {(c, v)}"
    show "distance (cells g x) \<le> distance (cells g u) + 1"
    proof (cases "(u, x) = (c, v)")
      case True with le show ?thesis by simp
    next
      case False
      with a(4) have "(u, x) \<notin> P" by blast
      from i(10)[OF a(1-3) this] show ?thesis .
    qed
  qed (fact i)+
next
  case True
  note i = search_invD[OF inv]
  from rel True have r: "rows g' = rows g" "cols g' = cols g"
    "\<And>p. p \<noteq> v \<Longrightarrow> cells g' p = cells g p"
    "distance (cells g' v) = distance (cells g c) + 1"
    "previousNode (cells g' v) = Some c"
    "isVisited (cells g' v) = isVisited (cells g v)"
    "isWall (cells g' v) = isWall (cells g v)"
    "set os' = insert v (set os)"
    by (simp_all add: relax_spec_def)
  have w: "isWall (cells g' p) = isWall (cells g p)" for p using r(3,7) by (cases "p = v") simp_all
  have vi: "isVisited (cells g' p) = isVisited (cells g p)" for p using r(3,6) by (cases "p = v") simp_all
  have adj: "adjacentCells g' p = adjacentCells g p" for p by (rule adjacentCells_shape[OF r(1,2)])
  have we: "walkEnds g' s n = walkEnds g s n" for n by (rule walkEnds_cong[OF r(1,2) w])
  note c = i(7)[OF vc] i(8)[OF vc]
  then obtain m where m: "distance (cells g c) = enat m" by (cases "distance (cells g c)") auto
  from i(5)[OF m c(1)] have cm: "c \<in> set (walkEnds g s m)" .
  have vc': "v \<noteq> c" using vc nv by blast
  have vs: "v \<noteq> s"
  proof
    assume "v = s"
    with True i(1) have "distance (cells g c) + 1 < 0" by simp
    then show False by simp
  qed
  have dv: "distance (cells g' v) = enat (Suc m)" using r(4) m by (simp add: one_enat_def)
  have le: "distance (cells g' p) \<le> distance (cells g p)" for p
    using r(3,4) True by (cases "p = v") simp_all
  have keep: "cells g' u = cells g u" if "isVisited (cells g u)" for u
  proof (rule r(3))
    show "u \<noteq> v" using that nv by blast
  qed
  show ?thesis
  proof (rule search_invI)
    show "distance (cells g' s) = 0" "\<not> isWall (cells g' s)" "previousNode (cells g' s) = None"
      using i(1-3) vs r(3)[of s] by simp_all
  next
    fix x assume a: "distance (cells g' x) \<noteq> \<infinity>" "\<not> isVisited (cells g' x)" "\<not> isWall (cells g' x)"
    show "x \<in> set os'"
    proof (cases "x = v")
      case True then show ?thesis by (simp add: r(8))
    next
      case False
      with a r(3)[OF False] have "x \<in> set os" by (intro i(4)) simp_all
      then show ?thesis by (simp add: r(8))
    qed
  next
    fix x n assume a: "distance (cells g' x) = enat n" "\<not> isWall (cells g' x)"
    show "x \<in> set (walkEnds g' s n)"
    proof (cases "x = v")
      case True
      with a dv have n: "n = Suc m" by simp
      have "\<not> isWall (cells g v)" using a(2) True by (simp add: w)
      from walkEnds_step[OF cm ad this] show ?thesis unfolding we n True .
    next
      case False
      with a r(3)[OF False] show ?thesis unfolding we by (intro i(5)) simp_all
    qed
  next
    fix x assume a: "x \<noteq> s" "distance (cells g' x) \<noteq> \<infinity>"
    show "\<exists>u. previousNode (cells g' x) = Some u \<and> isVisited (cells g' u) \<and>
                distance (cells g' x) = distance (cells g' u) + 1"
    proof (cases "x = v")
      case True
      show ?thesis using r(4,5) vc keep[OF vc] by (intro exI[of _ c]) (simp add: True vi)
    next
      case False
      with a r(3)[OF False] have "distance (cells g x) \<noteq> \<infinity>" by simp
      from i(6)[OF a(1) this] obtain u where u: "previousNode (cells g x) = Some u"
        "isVisited (cells g u)" "distance (cells g x) = distance (cells g u) + 1" by blast
      with keep[OF u(2)] r(3)[OF False] show ?thesis by (intro exI[of _ u]) (simp add: vi)
    qed
  next
    fix u assume "isVisited (cells g' u)"
    then have u: "isVisited (cells g u)" by (simp add: vi)
    show "\<not> isWall (cells g' u)" "distance (cells g' u) \<noteq> \<infinity>"
      unfolding keep[OF u] by (rule i(7)[OF u] i(8)[OF u])+
  next
    fix u n assume "isVisited (cells g' u)" "u \<in> set (walkEnds g' s n)"
    then have u: "isVisited (cells g u)" "u \<in> set (walkEnds g s n)" by (simp_all add: vi we)
    show "distance (cells g' u) \<le> enat n" unfolding keep[OF u(1)] by (rule i(9)[OF u])
  next
    fix u x
    assume a: "isVisited (cells g' u)" "x \<in> set (adjacentCells g' u)" "\<not> isWall (cells g' x)"
      "(u, x) \<notin> P - {(c, v)}"
    then have u: "isVisited (cells g u)" "x \<in> set (adjacentCells g u)" "\<not> isWall (cells g x)"
      by (simp_all add: vi adj w)
    show "distance (cells g' x) \<le> distance (cells g' u) + 1"
    proof (cases "(u, x) = (c, v)")
      case True
      then show ?thesis using r(4) keep[OF vc] by simp
    next
      case False
      with a(4) have "(u, x) \<notin> P" by blast
      from i(10)[OF u this] have "distance (cells g x) \<le> distance (cells g u) + 1" .
      with le[of x] show ?thesis unfolding keep[OF u(1)] by (rule order_trans)
    qed
  next
    fix x assume "x \<in> set os'"
    then have "x = v \<or> x \<in> set os" by (simp add: r(8))
    then show "distance (cells g' x) \<noteq> \<infinity>"
    proof
      assume "x = v" then show ?thesis using dv by simp
    next
      assume "x \<in> set os"
      from i(11)[OF this] le[of x] show ?thesis by auto
    qed
  qed
qed

lemma dijkstra_relax_spec: "relax_spec c v st (dijkstra_relax c v st)"
  by (cases st) (auto simp: relax_spec_def setters Let_def)

lemma astar_relax_spec: "relax_spec c v st (astar_relax f c v st)"
  by (cases st) (auto simp: relax_spec_def setters Let_def)

lemma relax_spec_shape:
  assumes "relax_spec c v st st'"
  shows "rows (fst st') = rows (fst st)" "cols (fst st') = cols (fst st)"
    "isVisited (cells (fst st') p) = isVisited (cells (fst st) p)"
    "isWall (cells (fst st') p) = isWall (cells (fst st) p)"
proof -
  show "rows (fst st') = rows (fst st)" "cols (fst st') = cols (fst st)"
    using assms by (auto simp: relax_spec_def split: if_splits)
  show "isVisited (cells (fst st') p) = isVisited (cells (fst st) p)"
    using assms by (cases "p = v") (auto simp: relax_spec_def split: if_splits)
  show "isWall (cells (fst st') p) = isWall (cells (fst st) p)"
    using assms by (cases "p = v") (auto simp: relax_spec_def split: if_splits)
qed

lemma search_inv_fold:
  assumes spec: "\<And>v st. relax_spec c v st (relax v st)"
    and "search_inv (fst st) s (snd st) ({c} \<times> set vs)"
    and "isVisited (cells (fst st) c)"
    and "\<And>v. v \<in> set vs \<Longrightarrow> \<not> isVisited (cells (fst st) v) \<and> v \<in> set (adjacentCells (fst st) c)"
  shows "search_inv (fst (fold relax vs st)) s (snd (fold relax vs st)) {}"
  using assms(2-)
proof (induction vs arbitrary: st)
  case Nil
  then show ?case by simp
next
  case (Cons v vs)
  note sp = spec[of v st]
  note sh = relax_spec_shape[OF sp]
  from Cons.prems(3)[of v] have v: "\<not> isVisited (cells (fst st) v)" "v \<in> set (adjacentCells (fst st) c)"
    by simp_all
  have "search_inv (fst (relax v st)) s (snd (relax v st)) ({c} \<times> set (v # vs) - {(c, v)})"
  proof (rule search_inv_relax[OF _ Cons.prems(2) v])
    show "search_inv (fst st) s (snd st) ({c} \<times> set (v # vs))" using Cons.prems(1) .
    show "relax_spec c v (fst st, snd st) (fst (relax v st), snd (relax v st))" using sp by simp
  qed
  then have 1: "search_inv (fst (relax v st)) s (snd (relax v st)) ({c} \<times> set vs)"
    by (rule search_inv_mono) auto
  have 2: "isVisited (cells (fst (relax v st)) c)" using Cons.prems(2) by (simp add: sh)
  have 3: "\<not> isVisited (cells (fst (relax v st)) x) \<and> x \<in> set (adjacentCells (fst (relax v st)) c)"
    if "x \<in> set vs" for x
    using Cons.prems(3)[of x] that adjacentCells_shape[OF sh(1,2), of c] by (simp add: sh)
  from Cons.IH[OF 1 2 3] show ?case by simp
qed

lemma search_inv_expand:
  assumes spec: "\<And>v st. relax_spec c v st (relax v st)"
    and inv: "search_inv g s os {}" and sorted: "sort_key key os = c # rest"
    and nv: "\<not> isVisited (cells g c)" and nw: "\<not> isWall (cells g c)"
    and opt: "\<And>n. c \<in> set (walkEnds g s n) \<Longrightarrow> distance (cells g c) \<le> enat n"
    and res: "(g2, os2) = fold relax (getUnvisitedNeighbors c (setIsVisited c True g))
                            (setIsVisited c True g, rest)"
  shows "search_inv g2 s os2 {}"
proof -
  let ?g1 = "setIsVisited c True g"
  let ?vs = "getUnvisitedNeighbors c ?g1"
  from sort_head_set[OF sorted] have hd: "c \<in> set os" "set rest \<subseteq> set os" by auto
  have "set (sort_key key os) = set os" by simp
  then have os: "set os \<subseteq> insert c (set rest)" unfolding sorted by auto
  from search_inv_close[OF inv hd(1) os hd(2) nv nw opt]
  have 1: "search_inv (fst (?g1, rest)) s (snd (?g1, rest)) ({c} \<times> set ?vs)" by simp
  have 2: "isVisited (cells (fst (?g1, rest)) c)" by (simp add: setters)
  have 3: "\<not> isVisited (cells (fst (?g1, rest)) v) \<and> v \<in> set (adjacentCells (fst (?g1, rest)) c)"
    if "v \<in> set ?vs" for v
    using that by (simp add: getUnvisitedNeighbors_def)
  from search_inv_fold[of c relax, OF spec 1 2 3] res[symmetric] show ?thesis by simp
qed

subsection \<open>The node at the head of the sorted open array\<close>

lemma sort_key_head_min:
  assumes "sort_key key xs = c # rest" "w \<in> set xs"
  shows "key c \<le> key w"
proof -
  have "sorted (map key (sort_key key xs))" by (rule sorted_sort_key)
  then have "\<forall>y\<in>set rest. key c \<le> key y" unfolding assms(1) by simp
  moreover have "w \<in> set (sort_key key xs)" using assms(2) by simp
  then have "w = c \<or> w \<in> set rest" unfolding assms(1) by simp
  ultimately show ?thesis by auto
qed

lemma dijkstra_head_optimal:
  assumes inv: "search_inv g s os {}" and sorted: "sortNodesByDistance g os = c # rest"
    and nv: "\<not> isVisited (cells g c)" and c: "c \<in> set (walkEnds g s n)"
  shows "distance (cells g c) \<le> enat n"
proof -
  from lower_bound[OF inv c] nv obtain w where w: "w \<in> set os"
    "distance (cells g w) + enat (getManhattanDistance w c) \<le> enat n" by blast
  from sort_key_head_min[OF sorted[unfolded sortNodesByDistance_def] w(1)]
  have "distance (cells g c) \<le> distance (cells g w)" .
  also have "\<dots> \<le> distance (cells g w) + enat (getManhattanDistance w c)" by simp
  finally show ?thesis using w(2) by (rule order_trans)
qed

lemma astar_head_optimal:
  assumes inv: "search_inv g s os {}" and tot: "totals_ok f g"
    and sorted: "sortNodesByTotalDistance g os = c # rest"
    and nv: "\<not> isVisited (cells g c)" and c: "c \<in> set (walkEnds g s n)"
  shows "distance (cells g c) \<le> enat n"
proof -
  from lower_bound[OF inv c] nv obtain w where w: "w \<in> set os"
    "distance (cells g w) + enat (getManhattanDistance w c) \<le> enat n" by blast
  from sort_head_set(1)[OF sorted[unfolded sortNodesByTotalDistance_def]] have cos: "c \<in> set os" .
  note fin = search_invD(11)[OF inv]
  from fin[OF cos] obtain m where m: "distance (cells g c) = enat m"
    by (cases "distance (cells g c)") auto
  from fin[OF w(1)] obtain k where k: "distance (cells g w) = enat k"
    by (cases "distance (cells g w)") auto
  from tot m k have t: "totalDistance (cells g c) = enat (m + getManhattanDistance c f)"
    "totalDistance (cells g w) = enat (k + getManhattanDistance w f)"
    by (simp_all add: totals_ok_def)
  from sort_key_head_min[OF sorted[unfolded sortNodesByTotalDistance_def] w(1)]
  have "totalDistance (cells g c) \<le> totalDistance (cells g w)"
    by (auto simp: less_eq_prod_def)
  then have "m + getManhattanDistance c f \<le> k + getManhattanDistance w f" by (simp add: t)
  moreover from w(2) have "k + getManhattanDistance w c \<le> n" by (simp add: k)
  moreover note manhattan_triangle[of w f c]
  ultimately have "m \<le> n" by linarith
  then show ?thesis by (simp add: m)
qed

subsection \<open>The rounds of the two loops keep the invariant\<close>

lemma sort_key_Nil: "sort_key key xs = [] \<Longrightarrow> xs = []"
  by (metis length_0_conv length_sort)

lemma search_state_skip:
  assumes "search_state g0 s (f, g, os, vis)" "sort_key key os = c # rest"
    "isWall (cells g c) \<or> isVisited (cells g c)"
  shows "search_state g0 s (f, g, rest, vis')"
proof -
  from sort_head_set[OF assms(2)] have hd: "c \<in> set os" "set rest \<subseteq> set os" by auto
  have "set (sort_key key os) = set os" by simp
  then have os: "set os \<subseteq> insert c (set rest)" unfolding assms(2) by auto
  from assms(1) have "search_inv g s os {}" by (simp add: search_state_def)
  from search_inv_skip[OF this assms(3) os hd(2)] assms(1) show ?thesis
    by (simp add: search_state_def)
qed

lemma search_state_expand:
  assumes spec: "\<And>v st. relax_spec c v st (relax v st)"
    and st: "search_state g0 s (f, g, os, vis)" and sorted: "sort_key key os = c # rest"
    and nv: "\<not> isVisited (cells g c)" and nw: "\<not> isWall (cells g c)" and nf: "c \<noteq> f"
    and opt: "\<And>n. c \<in> set (walkEnds g s n) \<Longrightarrow> distance (cells g c) \<le> enat n"
    and res: "(g2, os2) = fold relax (getUnvisitedNeighbors c (setIsVisited c True g))
                            (setIsVisited c True g, rest)"
  shows "search_state g0 s (f, g2, os2, vis')"
proof -
  from st have inv: "search_inv g s os {}" and f: "\<not> isVisited (cells g f)"
    and sh: "rows g = rows g0" "cols g = cols g0" "\<And>p. isWall (cells g p) = isWall (cells g0 p)"
    by (simp_all add: search_state_def)
  note 1 = search_inv_expand[of c relax, OF spec inv sorted nv nw opt res]
  have sp: "rows (fst (relax v st)) = rows (fst st)" "cols (fst (relax v st)) = cols (fst st)"
    "isVisited (cells (fst (relax v st)) p) = isVisited (cells (fst st) p)"
    "isWall (cells (fst (relax v st)) p) = isWall (cells (fst st) p)" for v st p
    by (rule relax_spec_shape[OF spec])+
  have fs: "rows (fst (fold relax vs st)) = rows (fst st) \<and> cols (fst (fold relax vs st)) = cols (fst st) \<and>
    isVisited (cells (fst (fold relax vs st)) p) = isVisited (cells (fst st) p) \<and>
    isWall (cells (fst (fold relax vs st)) p) = isWall (cells (fst st) p)" for vs st p
    by (induction vs arbitrary: st) (simp_all add: sp)
  from fs[of "getUnvisitedNeighbors c (setIsVisited c True g)" "(setIsVisited c True g, rest)"]
    res[symmetric]
  have "rows g2 = rows g" "cols g2 = cols g" "isVisited (cells g2 p) = (p = c \<or> isVisited (cells g p))"
    "isWall (cells g2 p) = isWall (cells g p)" for p
    by (auto simp: setters)
  with 1 f nf sh show ?thesis by (simp add: search_state_def)
qed

lemma dijkstra_rel_search:
  assumes "dijkstra_loop_rel y x" "search_state g0 s x"
  shows "search_state g0 s y \<and> fst y = fst x"
  using assms
proof (cases rule: dijkstra_loop_rel.cases)
  case (1 f g os vis c rest)
  from search_state_skip[OF assms(2)[unfolded 1(2)] 1(3)[unfolded sortNodesByDistance_def]] 1
  show ?thesis by simp
next
  case (2 f g os vis c rest)
  from search_state_skip[OF assms(2)[unfolded 2(2)] 2(3)[unfolded sortNodesByDistance_def]] 2
  show ?thesis by simp
next
  case (3 f g os vis c rest g1 vis1 g2 os2)
  from assms(2) have inv: "search_inv g s os {}" by (simp add: 3(2) search_state_def)
  have "search_state g0 s (f, g2, os2, vis1)"
    by (rule search_state_expand[of c "dijkstra_relax c", OF dijkstra_relax_spec
          assms(2)[unfolded 3(2)] 3(3)[unfolded sortNodesByDistance_def] 3(6) 3(4) 3(9)
          dijkstra_head_optimal[OF inv 3(3) 3(6)]
          3(10)[unfolded dijkstra_updateUnvisitedNeighbors_def 3(7)]])
  with 3(1,2) show ?thesis by simp
qed

lemma astar_relax_totals:
  assumes "totals_ok f (fst st)"
  shows "totals_ok f (fst (astar_relax f c v st))"
  using assms by (cases st) (auto simp: totals_ok_def setters Let_def)

lemma astar_fold_totals:
  assumes "totals_ok f (fst st)"
  shows "totals_ok f (fst (fold (astar_relax f c) vs st))"
  using assms by (induction vs arbitrary: st) (simp_all add: astar_relax_totals)

lemma astar_rel_search:
  assumes "astar_loop_rel y x" "search_state g0 s x" "totals_ok (fst x) (fst (snd x))"
  shows "search_state g0 s y \<and> fst y = fst x \<and> totals_ok (fst y) (fst (snd y))"
  using assms
proof (cases rule: astar_loop_rel.cases)
  case (1 f g os vis c rest)
  from search_state_skip[OF assms(2)[unfolded 1(2)] 1(3)[unfolded sortNodesByTotalDistance_def]] 1
    assms(3)
  show ?thesis by simp
next
  case (2 f g os vis c rest)
  from search_state_skip[OF assms(2)[unfolded 2(2)] 2(3)[unfolded sortNodesByTotalDistance_def]] 2
    assms(3)
  show ?thesis by simp
next
  case (3 f g os vis c rest g1 vis1 g2 os2)
  from assms(2) have inv: "search_inv g s os {}" by (simp add: 3(2) search_state_def)
  from assms(3) have tot: "totals_ok f g" by (simp add: 3(2))
  note res = 3(9)[unfolded astar_updateUnvisitedNeighbors_def 3(6)]
  have "search_state g0 s (f, g2, os2, vis1)"
    by (rule search_state_expand[of c "astar_relax f c", OF astar_relax_spec
          assms(2)[unfolded 3(2)] 3(3)[unfolded sortNodesByTotalDistance_def] 3(5) 3(4) 3(8)
          astar_head_optimal[OF inv tot 3(3) 3(5)] res])
  moreover have "totals_ok f (fst (setIsVisited c True g, rest))"
    using tot by (simp add: totals_ok_def setters)
  from astar_fold_totals[OF this, of c "getUnvisitedNeighbors c (setIsVisited c True g)"] res[symmetric]
  have "totals_ok f g2" by simp
  ultimately show ?thesis using 3(1,2) by simp
qed

lemma dijkstra_reached_search:
  assumes "dijkstra_loop_rel\<^sup>*\<^sup>* st e" "search_state g0 s e"
  shows "search_state g0 s st \<and> fst st = fst e"
  using assms
proof (induction rule: converse_rtranclp_induct)
  case base then show ?case by simp
next
  case (step y z)
  from step(3)[OF step(4)] have z: "search_state g0 s z" "fst z = fst e" by auto
  from dijkstra_rel_search[OF step(1) z(1)] z(2) show ?case by simp
qed

lemma astar_reached_search:
  assumes "astar_loop_rel\<^sup>*\<^sup>* st e" "search_state g0 s e" "totals_ok (fst e) (fst (snd e))"
  shows "search_state g0 s st \<and> fst st = fst e \<and> totals_ok (fst st) (fst (snd st))"
  using assms
proof (induction rule: converse_rtranclp_induct)
  case base then show ?case by simp
next
  case (step y z)
  from step(3)[OF step(4,5)] have z: "search_state g0 s z" "fst z = fst e"
    "totals_ok (fst z) (fst (snd z))" by auto
  from astar_rel_search[OF step(1) z(1,3)] z(2) show ?case by auto
qed

subsection \<open>The entry states\<close>

lemma entry_search_inv:
  assumes "fresh g" "\<not> isWall (cells g s)"
    and d: "\<And>p. distance (cells g' p) = (if p = s then 0 else \<infinity>)"
    and rest: "\<And>p. isVisited (cells g' p) = isVisited (cells g p)"
      "\<And>p. isWall (cells g' p) = isWall (cells g p)"
      "\<And>p. previousNode (cells g' p) = previousNode (cells g p)"
  shows "search_inv g' s [s] {}"
proof (rule search_invI)
  fix v n assume "distance (cells g' v) = enat n" "\<not> isWall (cells g' v)"
  then have "v = s \<and> n = 0" by (auto simp: d zero_enat_def split: if_splits)
  then show "v \<in> set (walkEnds g' s n)" by simp
qed (use assms in \<open>auto simp: fresh_def split: if_splits\<close>)

lemma dijkstra_entry_search:
  assumes "fresh g" "\<not> isWall (cells g s)"
  shows "search_state g s (dijkstra_entry g s f)"
proof -
  have "search_inv (setDistance s 0 g) s [s] {}"
    by (rule entry_search_inv[OF assms]) (use assms(1) in \<open>simp_all add: setters fresh_def\<close>)
  with assms(1) show ?thesis
    by (simp add: search_state_def dijkstra_entry_def setters fresh_def)
qed

lemma astar_entry_search:
  assumes "fresh g" "\<not> isWall (cells g s)"
  shows "search_state g s (astar_entry g s f) \<and>
         totals_ok (fst (astar_entry g s f)) (fst (snd (astar_entry g s f)))"
proof -
  obtain g0 where g0: "astar_entry g s f = (f, g0, [s], [])" by (simp add: astar_entry_def Let_def)
  then have e: "g0 = setTotalDistance s
                 (distance (cells (setHeuristicDistance s (enat (getManhattanDistance s f)) (setDistance s 0 g)) s) +
                  heuristicDistance (cells (setHeuristicDistance s (enat (getManhattanDistance s f)) (setDistance s 0 g)) s))
                 (setHeuristicDistance s (enat (getManhattanDistance s f)) (setDistance s 0 g))"
    by (simp add: astar_entry_def Let_def)
  have "search_inv g0 s [s] {}"
    by (rule entry_search_inv[OF assms]) (use assms(1) in \<open>simp_all add: e setters fresh_def\<close>)
  moreover have "totals_ok f g0" using assms(1)
    by (auto simp: totals_ok_def e setters fresh_def zero_enat_def split: if_splits)
  ultimately show ?thesis using assms(1)
    by (simp add: g0 search_state_def) (simp add: e setters fresh_def)
qed

subsection \<open>The path that is returned\<close>

lemma walk_length:
  assumes inv: "search_inv g s os P"
  shows "distance (cells g v) = enat n \<Longrightarrow>
         \<exists>path. walkPrevious g (Some v) acc = Some (path @ acc) \<and> length path = Suc n"
proof (induction n arbitrary: v acc)
  case 0
  note i = search_invD[OF inv]
  have "v = s"
  proof (rule ccontr)
    assume "v \<noteq> s"
    from i(6)[OF this] 0 obtain u where "distance (cells g v) = distance (cells g u) + 1" by auto
    with 0 show False by (cases "distance (cells g u)") (auto simp: one_enat_def zero_enat_def)
  qed
  then have "walkPrevious g (Some v) acc = Some ([v] @ acc)"
    using i(3) by (subst walkPrevious.simps, simp, subst walkPrevious.simps, simp)
  then show ?case by (intro exI[of _ "[v]"]) simp
next
  case (Suc n)
  note i = search_invD[OF inv]
  have "v \<noteq> s" using Suc.prems i(1) by (auto simp: zero_enat_def)
  from i(6)[OF this] Suc.prems obtain u where u: "previousNode (cells g v) = Some u"
    "distance (cells g v) = distance (cells g u) + 1" by auto
  with Suc.prems have "distance (cells g u) = enat n"
    by (cases "distance (cells g u)") (auto simp: one_enat_def)
  from Suc.IH[OF this, of "v # acc"] obtain path where
    path: "walkPrevious g (Some u) (v # acc) = Some (path @ v # acc)" "length path = Suc n" by blast
  have "walkPrevious g (Some v) acc = Some ((path @ [v]) @ acc)"
    using u(1) path(1) by (subst walkPrevious.simps) simp
  with path(2) show ?case by (intro exI[of _ "path @ [v]"]) simp
qed

lemma empty_shortest:
  assumes "search_inv g s os {}" "sort_key key os = []" "\<not> isVisited (cells g f)"
  shows "f \<notin> set (walkEnds g s n)"
proof
  assume "f \<in> set (walkEnds g s n)"
  from lower_bound[OF assms(1) this] assms(3) sort_key_Nil[OF assms(2)] show False by simp
qed

lemma found_shortest:
  assumes inv: "search_inv g s os {}" and sorted: "sort_key key os = f # rest"
    and nv: "\<not> isVisited (cells g f)" and nw: "\<not> isWall (cells g f)"
    and opt: "\<And>n. f \<in> set (walkEnds g s n) \<Longrightarrow> distance (cells g f) \<le> enat n"
    and path: "getNodesInShortestPathOrder (setIsVisited f True g) f = Some path"
  shows "\<exists>L. length path = Suc L \<and> f \<in> set (walkEnds g s L) \<and>
             (\<forall>n. f \<in> set (walkEnds g s n) \<longrightarrow> L \<le> n)"
proof -
  from sort_head_set[OF sorted] have hd: "f \<in> set os" "set rest \<subseteq> set os" by auto
  have "set (sort_key key os) = set os" by simp
  then have os: "set os \<subseteq> insert f (set rest)" unfolding sorted by auto
  note i = search_invD[OF inv]
  from i(11)[OF hd(1)] obtain L where L: "distance (cells g f) = enat L"
    by (cases "distance (cells g f)") auto
  note inv1 = search_inv_close[OF inv hd(1) os hd(2) nv nw opt]
  have "distance (cells (setIsVisited f True g) f) = enat L" using L by (simp add: setters)
  from walk_length[OF inv1 this, of "[]"] path have "length path = Suc L"
    by (simp add: getNodesInShortestPathOrder_def)
  moreover from i(5)[OF L nw] have "f \<in> set (walkEnds g s L)" .
  moreover have "L \<le> n" if "f \<in> set (walkEnds g s n)" for n using opt[OF that] by (simp add: L)
  ultimately show ?thesis by blast
qed

lemma dijkstra_shortest:
  assumes "fresh g" "in_grid g s" "\<not> isWall (cells g s)"
  shows "shortest_path_run g s f (dijkstra g s f)"
proof -
  from dijkstra_run_inv[OF assms(1,2), of f] obtain r where r: "dijkstra g s f = Some r" by blast
  have d: "dijkstra g s f = dijkstra_loop f (setDistance s 0 g) [s] []" by (simp add: dijkstra_def)
  from dijkstra_loop_exit[OF r[unfolded d]]
  obtain st where st: "dijkstra_loop_rel\<^sup>*\<^sup>* st (dijkstra_entry g s f)" "dijkstra_exit st r"
    by (auto simp: dijkstra_entry_def)
  obtain f' g' os' vis' where st': "st = (f', g', os', vis')" by (cases st)
  from dijkstra_reached_search[OF st(1) dijkstra_entry_search[OF assms(1,3)]]
  have ss: "search_state g s (f, g', os', vis')" and f': "f' = f"
    by (auto simp: st' dijkstra_entry_def)
  then have inv: "search_inv g' s os' {}" and nf: "\<not> isVisited (cells g' f)"
    and sh: "rows g' = rows g" "cols g' = cols g" "\<And>p. isWall (cells g' p) = isWall (cells g p)"
    by (simp_all add: search_state_def)
  have we: "walkEnds g' s n = walkEnds g s n" for n by (rule walkEnds_cong[OF sh])
  show ?thesis
  proof (cases "sortNodesByDistance g' os'")
    case Nil
    with st(2) have "nodesInShortestPathOrder r = []"
      by (simp add: dijkstra_exit_def st' exit_empty_def)
    moreover have "f \<notin> set (walkEnds g s n)" for n
      using empty_shortest[OF inv Nil[unfolded sortNodesByDistance_def] nf, of n] by (simp add: we)
    ultimately show ?thesis by (simp add: shortest_path_run_def r)
  next
    case (Cons c rest)
    from sort_head_set(1)[OF Cons[unfolded sortNodesByDistance_def]] search_invD(11)[OF inv]
    have "distance (cells g' c) \<noteq> \<infinity>" by blast
    with st(2) Cons have "exit_found f g' vis' c r" by (simp add: dijkstra_exit_def st' f')
    then obtain path where c: "c = f" "\<not> isWall (cells g' f)"
      and path: "getNodesInShortestPathOrder (setIsVisited f True g') f = Some path"
      and rp: "nodesInShortestPathOrder r = path"
      by (auto simp: exit_found_def)
    from found_shortest[OF inv Cons[unfolded sortNodesByDistance_def c(1)] nf c(2)
        dijkstra_head_optimal[OF inv Cons[unfolded c(1)] nf] path]
    show ?thesis by (simp add: shortest_path_run_def r rp we)
  qed
qed

lemma astar_shortest:
  assumes "fresh g" "in_grid g s" "\<not> isWall (cells g s)"
  shows "shortest_path_run g s f (astar g s f)"
proof -
  from astar_run_inv[OF assms(1,2), of f] obtain r where r: "astar g s f = Some r" by blast
  obtain g0 where g0: "astar_entry g s f = (f, g0, [s], [])" by (simp add: astar_entry_def Let_def)
  have d: "astar g s f = astar_loop f g0 [s] []"
    using g0 by (simp add: astar_def astar_entry_def Let_def)
  from astar_loop_exit[OF r[unfolded d]]
  obtain st where st: "astar_loop_rel\<^sup>*\<^sup>* st (astar_entry g s f)" "astar_exit st r"
    by (auto simp: g0)
  obtain f' g' os' vis' where st': "st = (f', g', os', vis')" by (cases st)
  note e = astar_entry_search[OF assms(1,3), of f]
  from astar_reached_search[OF st(1) e[THEN conjunct1] e[THEN conjunct2]]
  have ss: "search_state g s (f, g', os', vis')" and f': "f' = f" and tot: "totals_ok f g'"
    by (auto simp: st' g0)
  then have inv: "search_inv g' s os' {}" and nf: "\<not> isVisited (cells g' f)"
    and sh: "rows g' = rows g" "cols g' = cols g" "\<And>p. isWall (cells g' p) = isWall (cells g p)"
    by (simp_all add: search_state_def)
  have we: "walkEnds g' s n = walkEnds g s n" for n by (rule walkEnds_cong[OF sh])
  show ?thesis
  proof (cases "sortNodesByTotalDistance g' os'")
    case Nil
    with st(2) have "nodesInShortestPathOrder r = []"
      by (simp add: astar_exit_def st' exit_empty_def)
    moreover have "f \<notin> set (walkEnds g s n)" for n
      using empty_shortest[OF inv Nil[unfolded sortNodesByTotalDistance_def] nf, of n] by (simp add: we)
    ultimately show ?thesis by (simp add: shortest_path_run_def r)
  next
    case (Cons c rest)
    with st(2) have "exit_found f g' vis' c r" by (simp add: astar_exit_def st' f')
    then obtain path where c: "c = f" "\<not> isWall (cells g' f)"
      and path: "getNodesInShortestPathOrder (setIsVisited f True g') f = Some path"
      and rp: "nodesInShortestPathOrder r = path"
      by (auto simp: exit_found_def)
    from found_shortest[OF inv Cons[unfolded sortNodesByTotalDistance_def c(1)] nf c(2)
        astar_head_optimal[OF inv tot Cons[unfolded c(1)] nf] path]
    show ?thesis by (simp add: shortest_path_run_def r rp we)
  qed
qed

section \<open>A* agrees with Dijkstra\<close>

text \<open>
  C1. Let every node of the grid be reset and the start node be a cell of the grid that is
  not a wall. Then \<open>dijkstra\<close> and \<open>astar\<close> both return, their paths have the same length, and
  each path is a shortest walk: empty when no walk through cells that are not walls leads
  from the start to the finish, and otherwise one node longer than the least number of
  steps of such a walk. In particular both paths are empty when there is no walk.
\<close>

theorem C1_astar_agrees_with_dijkstra:
  assumes "fresh g" "in_grid g s" "\<not> isWall (cells g s)"
  shows "\<exists>rd ra. dijkstra g s f = Some rd \<and> astar g s f = Some ra \<and>
           length (nodesInShortestPathOrder ra) = length (nodesInShortestPathOrder rd) \<and>
           shortest_path_run g s f (dijkstra g s f) \<and> shortest_path_run g s f (astar g s f) \<and>
           ((\<forall>n. f \<notin> set (walkEnds g s n)) \<longrightarrow>
              nodesInShortestPathOrder rd = [] \<and> nodesInShortestPathOrder ra = [])"
proof -
  note d = dijkstra_shortest[OF assms, of f] and a = astar_shortest[OF assms, of f]
  from d obtain rd where rd: "dijkstra g s f = Some rd"
    by (auto simp: shortest_path_run_def split: option.splits)
  from a obtain ra where ra: "astar g s f = Some ra"
    by (auto simp: shortest_path_run_def split: option.splits)
  from d rd have d': "(nodesInShortestPathOrder rd = [] \<and> (\<forall>n. f \<notin> set (walkEnds g s n))) \<or>
          (\<exists>L. length (nodesInShortestPathOrder rd) = Suc L \<and> f \<in> set (walkEnds g s L) \<and>
               (\<forall>n. f \<in> set (walkEnds g s n) \<longrightarrow> L \<le> n))"
    by (simp add: shortest_path_run_def)
  from a ra have a': "(nodesInShortestPathOrder ra = [] \<and> (\<forall>n. f \<notin> set (walkEnds g s n))) \<or>
          (\<exists>L. length (nodesInShortestPathOrder ra) = Suc L \<and> f \<in> set (walkEnds g s L) \<and>
               (\<forall>n. f \<in> set (walkEnds g s n) \<longrightarrow> L \<le> n))"
    by (simp add: shortest_path_run_def)
  have len: "length (nodesInShortestPathOrder ra) = length (nodesInShortestPathOrder rd)"
    using d'
  proof
    assume e: "nodesInShortestPathOrder rd = [] \<and> (\<forall>n. f \<notin> set (walkEnds g s n))"
    with a' have "nodesInShortestPathOrder ra = []" by blast
    with e show ?thesis by simp
  next
    assume "\<exists>L. length (nodesInShortestPathOrder rd) = Suc L \<and> f \<in> set (walkEnds g s L) \<and>
               (\<forall>n. f \<in> set (walkEnds g s n) \<longrightarrow> L \<le> n)"
    then obtain L where L: "length (nodesInShortestPathOrder rd) = Suc L" "f \<in> set (walkEnds g s L)"
      "\<And>n. f \<in> set (walkEnds g s n) \<Longrightarrow> L \<le> n" by blast
    with a' obtain L' where L': "length (nodesInShortestPathOrder ra) = Suc L'"
      "f \<in> set (walkEnds g s L')" "\<And>n. f \<in> set (walkEnds g s n) \<Longrightarrow> L' \<le> n" by blast
    from L(3)[OF L'(2)] L'(3)[OF L(2)] have "L = L'" by simp
    with L(1) L'(1) show ?thesis by simp
  qed
  have emp: "nodesInShortestPathOrder rd = [] \<and> nodesInShortestPathOrder ra = []"
    if "\<forall>n. f \<notin> set (walkEnds g s n)"
    using d' a' that by blast
  from rd ra len d a emp show ?thesis by blast
qed

theorem C1_astar_agrees_with_dijkstra_witness:
  "fresh detour \<and> in_grid detour (0, 0) \<and> \<not> isWall (cells detour (0, 0)) \<and>
   (\<exists>rd ra. dijkstra detour (0, 0) (0, 2) = Some rd \<and> astar detour (0, 0) (0, 2) = Some ra \<and>
      length (nodesInShortestPathOrder ra) = length (nodesInShortestPathOrder rd) \<and>
      nodesInShortestPathOrder rd = [(0, 0), (1, 0), (1, 1), (1, 2), (0, 2)])"
proof -
  have fr: "fresh detour"
    by (simp add: fresh_def detour_def withWalls_def getInitialGrid_def createNode_def)
  have ig: "in_grid detour (0, 0)" by (simp add: in_grid_def detour_def withWalls_def getInitialGrid_def)
  have nw: "\<not> isWall (cells detour (0, 0))"
    by (simp add: detour_def withWalls_def getInitialGrid_def createNode_def)
  have p: "pathOf (dijkstra detour (0, 0) (0, 2)) = Some [(0, 0), (1, 0), (1, 1), (1, 2), (0, 2)]"
    by code_simp
  from C1_astar_agrees_with_dijkstra[OF fr ig nw, of "(0, 2)"] p fr ig nw
  show ?thesis by (auto simp: pathOf_def)
qed

section \<open>BaseCase returns\<close>

subsection \<open>The operations of the heap keep the weight of its entries\<close>

lemma sum_list_swap:
  fixes w :: "'a \<Rightarrow> nat"
  assumes "i < length es" "j < length es"
  shows "sum_list (map w (es[i := es ! j, j := es ! i])) = sum_list (map w es)"
proof (cases "i = j")
  case True
  then show ?thesis by simp
next
  case False
  have wi: "w (es ! i) \<le> sum_list (map w es)"
    using assms(1) by (intro member_le_sum_list) simp_all
  have "sum_list (map w (es[i := es ! j, j := es ! i]))
        = sum_list ((map w es)[i := w (es ! j), j := w (es ! i)])"
    by (simp add: map_update)
  also have "\<dots> = sum_list ((map w es)[i := w (es ! j)]) + w (es ! i) - (map w es)[i := w (es ! j)] ! j"
    using assms by (subst sum_list_update) simp_all
  also have "(map w es)[i := w (es ! j)] ! j = w (es ! j)" using False assms by simp
  also have "sum_list ((map w es)[i := w (es ! j)]) = sum_list (map w es) + w (es ! j) - w (es ! i)"
    using assms by (subst sum_list_update) simp_all
  finally show ?thesis using wi by simp
qed

lemma bubbleUp_loop_weight:
  fixes w :: "pos \<times> enat \<Rightarrow> nat"
  shows "n < length es \<Longrightarrow> es ! n = e \<Longrightarrow>
         sum_list (map w (bubbleUp_loop e es n)) = sum_list (map w es)"
proof (induction e es n rule: bubbleUp_loop.induct)
  case (1 e es n)
  show ?case
  proof (cases "n > 0 \<and> \<not> snd e \<ge> snd (es ! ((n + 1) div 2 - 1))")
    case False
    then show ?thesis by (subst bubbleUp_loop.simps) (auto simp: Let_def)
  next
    case True
    let ?p = "(n + 1) div 2 - 1"
    let ?es = "es[?p := e, n := es ! ?p]"
    from True "1.prems" have p: "?p < length es" "?p \<noteq> n" by auto
    have e: "?es ! ?p = e" using p "1.prems" by simp
    have "sum_list (map w (bubbleUp_loop e ?es ?p)) = sum_list (map w ?es)"
      using True p e by (intro "1.IH"[OF _ refl refl]) auto
    also have "\<dots> = sum_list (map w es)"
      using sum_list_swap[OF p(1) "1.prems"(1), of w] "1.prems"(2) by simp
    finally show ?thesis using True by (subst bubbleUp_loop.simps) (simp add: Let_def)
  qed
qed

lemma bubbleDown_loop_weight:
  fixes w :: "pos \<times> enat \<Rightarrow> nat"
  shows "n < length es \<Longrightarrow> es ! n = e \<Longrightarrow>
         sum_list (map w (bubbleDown_loop e es n)) = sum_list (map w es)"
proof (induction e es n rule: bubbleDown_loop.induct)
  case (1 e es n)
  define c2 where "c2 = (n + 1) * 2"
  define swap1 where "swap1 = (if c2 - 1 < length es \<and> snd (es ! (c2 - 1)) < snd e then Some (c2 - 1) else None)"
  define swap2 where "swap2 = (if c2 < length es \<and> snd (es ! c2) <
       (case swap1 of None \<Rightarrow> snd e | Some _ \<Rightarrow> snd (es ! (c2 - 1))) then Some c2 else swap1)"
  have unfold: "bubbleDown_loop e es n =
      (case swap2 of None \<Rightarrow> es
       | Some swap \<Rightarrow> bubbleDown_loop e (es[n := es ! swap, swap := e]) swap)"
    by (subst bubbleDown_loop.simps) (simp add: Let_def swap2_def swap1_def c2_def)
  show ?case
  proof (cases swap2)
    case None
    with unfold show ?thesis by auto
  next
    case (Some sw)
    then have "(sw = c2 \<and> c2 < length es) \<or> swap1 = Some sw"
      unfolding swap2_def by (metis option.inject)
    moreover have "swap1 = Some sw \<Longrightarrow> sw < length es"
      unfolding swap1_def by (metis option.distinct(1) option.inject)
    ultimately have lt: "sw < length es" by blast
    let ?es = "es[n := es ! sw, sw := e]"
    have e: "?es ! sw = e" using lt by simp
    have "sum_list (map w (bubbleDown_loop e ?es sw)) = sum_list (map w ?es)"
      using lt e
      by (intro "1.IH"[OF refl refl refl refl refl Some[unfolded swap2_def swap1_def c2_def]]) auto
    also have "\<dots> = sum_list (map w es)"
      using sum_list_swap[OF "1.prems"(1) lt, of w] "1.prems"(2) by simp
    finally show ?thesis using unfold Some by simp
  qed
qed

lemma heap_push_weight:
  fixes w :: "pos \<times> enat \<Rightarrow> nat"
  shows "sum_list (map w (heap_push h n d)) = sum_list (map w h) + w (n, d)"
  using bubbleUp_loop_weight[of "length h" "h @ [(n, d)]" "(n, d)" w]
  by (simp add: heap_push_def bubbleUp_def)

lemma heap_pop_weight:
  fixes w :: "pos \<times> enat \<Rightarrow> nat"
  assumes "heap_pop h = (Some m, h1)"
  shows "sum_list (map w h1) + w m = sum_list (map w h)"
proof -
  from assms have ne: "h \<noteq> []" by (auto simp: heap_pop_def split: if_splits)
  then have m: "m = hd h" using assms by (auto simp: heap_pop_def Let_def split: if_splits)
  have split: "sum_list (map w h) = sum_list (map w (butlast h)) + w (last h)"
    using ne by (subst (1) append_butlast_last_id[OF ne, symmetric]) (simp del: append_butlast_last_id)
  show ?thesis
  proof (cases "butlast h = []")
    case True
    with assms ne have "h1 = []" by (auto simp: heap_pop_def Let_def)
    moreover from True ne have "h = [hd h]" by (cases h) (auto split: if_splits)
    then have "sum_list (map w h) = w (hd h)" by (metis list.simps(8,9) sum_list.Cons sum_list.Nil add.right_neutral)
    ultimately show ?thesis by (simp add: m)
  next
    case False
    then have len: "0 < length (butlast h)" by (rule length_greater_0_conv[THEN iffD2])
    then have "(butlast h)[0 := last h] ! 0 = last h" by (rule nth_list_update_eq)
    with False have h1: "h1 = bubbleDown_loop (last h) ((butlast h)[0 := last h]) 0"
      using assms ne by (auto simp: heap_pop_def Let_def bubbleDown_def)
    have hd: "butlast h ! 0 = hd h" using False ne by (cases h) (auto split: if_splits)
    have "sum_list (map w h1) = sum_list (map w ((butlast h)[0 := last h]))"
      unfolding h1 using len by (intro bubbleDown_loop_weight) simp_all
    also have "\<dots> = sum_list ((map w (butlast h))[0 := w (last h)])" by (simp add: map_update)
    also have "\<dots> = sum_list (map w (butlast h)) + w (last h) - w (hd h)"
      using len hd by (subst sum_list_update) simp_all
    finally have "sum_list (map w h1) = sum_list (map w h) - w (hd h)" using split by simp
    moreover have "w (hd h) \<le> sum_list (map w h)"
      using ne by (intro member_le_sum_list) simp_all
    ultimately show ?thesis by (simp add: m)
  qed
qed

lemma heap_decreaseKey_weight:
  fixes w :: "pos \<Rightarrow> nat"
  shows "sum_list (map (\<lambda>e. w (fst e)) (heap_decreaseKey h v d)) = sum_list (map (\<lambda>e. w (fst e)) h)"
proof (cases "findIndex (\<lambda>e. fst e = v) h")
  case None
  then show ?thesis by (simp add: heap_decreaseKey_def)
next
  case (Some idx)
  from findIndex_Some[OF Some] have idx: "idx < length h" "fst (h ! idx) = v" by auto
  show ?thesis
  proof (cases "d < snd (h ! idx)")
    case False
    with Some show ?thesis by (simp add: heap_decreaseKey_def)
  next
    case True
    let ?h = "h[idx := (fst (h ! idx), d)]"
    have "map (\<lambda>e. w (fst e)) ?h = (map (\<lambda>e. w (fst e)) h)[idx := (map (\<lambda>e. w (fst e)) h) ! idx]"
      using idx by (simp add: map_update)
    then have same: "map (\<lambda>e. w (fst e)) ?h = map (\<lambda>e. w (fst e)) h" by simp
    have "sum_list (map (\<lambda>e. w (fst e)) (bubbleUp_loop (?h ! idx) ?h idx)) = sum_list (map (\<lambda>e. w (fst e)) ?h)"
      using idx by (intro bubbleUp_loop_weight) simp_all
    with same Some True show ?thesis by (simp add: heap_decreaseKey_def bubbleUp_def)
  qed
qed

subsection \<open>The measure of a labelling\<close>

lemma finPart_mono:
  "a \<le> b \<Longrightarrow> b \<noteq> \<infinity> \<Longrightarrow> finPart a \<le> finPart b"
  by (cases a; cases b) (auto simp: finPart_def)

lemma finPart_strict:
  "a < b \<Longrightarrow> b \<noteq> \<infinity> \<Longrightarrow> finPart a < finPart b"
  by (cases a; cases b) (auto simp: finPart_def)

lemma label_measure_less:
  assumes fin: "finite R" and le: "\<And>p. l' p \<le> l p" and v: "v \<in> R" "l' v < l v"
  shows "infCount l' R < infCount l R \<or>
         (infCount l' R = infCount l R \<and> finSum l' R < finSum l R)"
proof -
  have inf: "l p = \<infinity>" if "l' p = \<infinity>" for p using le[of p] that by simp
  then have sub: "{p \<in> R. l' p = \<infinity>} \<subseteq> {p \<in> R. l p = \<infinity>}" by blast
  show ?thesis
  proof (cases "{p \<in> R. l' p = \<infinity>} = {p \<in> R. l p = \<infinity>}")
    case False
    with sub have "{p \<in> R. l' p = \<infinity>} \<subset> {p \<in> R. l p = \<infinity>}" by blast
    then have "card {p \<in> R. l' p = \<infinity>} < card {p \<in> R. l p = \<infinity>}"
      using fin by (intro psubset_card_mono) simp_all
    then show ?thesis by (simp add: infCount_def)
  next
    case True
    then have same: "l' p = \<infinity> \<longleftrightarrow> l p = \<infinity>" if "p \<in> R" for p using that by blast
    have mono: "finPart (l' p) \<le> finPart (l p)" if "p \<in> R" for p
    proof (cases "l p = \<infinity>")
      case True
      with same[OF that] show ?thesis by simp
    next
      case False
      with le[of p] show ?thesis by (rule finPart_mono)
    qed
    have "l v \<noteq> \<infinity>"
    proof
      assume "l v = \<infinity>"
      with same[OF v(1)] v(2) show False by simp
    qed
    with v(2) have "finPart (l' v) < finPart (l v)" by (rule finPart_strict)
    with mono v(1) fin have "(\<Sum>p\<in>R. finPart (l' p)) < (\<Sum>p\<in>R. finPart (l p))"
      by (intro sum_strict_mono_ex1) auto
    with True show ?thesis by (simp add: infCount_def finSum_def)
  qed
qed

lemma finPart_le_maxFin:
  assumes "finite R" "p \<in> R"
  shows "finPart (l p) \<le> maxFin l R"
  unfolding maxFin_def using assms by (intro Max_ge) auto

lemma nodeWeight_pos: "0 < nodeWeight l R p"
  by (simp add: nodeWeight_def)

subsection \<open>One relaxation, one scan, one round\<close>

lemma baseCase_relax_measure:
  assumes res: "baseCase_relax B u v (c, h) = (c', h')"
  shows "rows (gridRef c') = rows (gridRef c) \<and> cols (gridRef c') = cols (gridRef c) \<and>
         (\<forall>p. labels (gridRef c') p \<le> labels (gridRef c) p) \<and>
         fst ` set h' \<subseteq> insert v (fst ` set h) \<and>
         (labels (gridRef c') v < labels (gridRef c) v \<or>
          labels (gridRef c') = labels (gridRef c) \<and>
          (h' = h \<or>
           labels (gridRef c) v = labels (gridRef c) u + 1 \<and> labels (gridRef c) v \<noteq> \<infinity> \<and>
           (\<forall>w::pos \<Rightarrow> nat. sum_list (map (\<lambda>e. w (fst e)) h')
                 \<le> sum_list (map (\<lambda>e. w (fst e)) h) + w v)))"
proof (cases "distance (cells (gridRef c) u) + 1 \<le> distance (cells (gridRef c) v) \<and>
              distance (cells (gridRef c) u) + 1 < B")
  case False
  with res have "c' = c" "h' = h" by (auto simp: Let_def)
  then show ?thesis by auto
next
  case True
  let ?g = "gridRef c"
  let ?d = "distance (cells ?g u) + 1"
  let ?g1 = "relaxTo u v ?g"
  from res True have c': "gridRef c' = ?g1"
    and h': "h' = (if heap_contains h v then heap_decreaseKey h v (distance (cells ?g1 v))
                   else heap_push h v (distance (cells ?g1 v)))"
    by (auto simp: Let_def)
  have l1: "distance (cells ?g1 p) = (if p = v then ?d else distance (cells ?g p))" for p
    by (simp add: relaxTo_def setters)
  have sh: "rows ?g1 = rows ?g" "cols ?g1 = cols ?g" by (simp_all add: relaxTo_def setters)
  have le: "labels ?g1 p \<le> labels ?g p" for p using True by (simp add: labels_def l1)
  have nodes: "fst ` set h' \<subseteq> insert v (fst ` set h)"
    unfolding h' using heap_decreaseKey_nodes[of h v] heap_push_nodes[of h v] by auto
  have wt: "sum_list (map (\<lambda>e. w (fst e)) h') \<le> sum_list (map (\<lambda>e. w (fst e)) h) + w v"
    for w :: "pos \<Rightarrow> nat"
    unfolding h' using heap_decreaseKey_weight[of w h v] heap_push_weight[of "\<lambda>e. w (fst e)" h v]
    by simp
  have fin: "?d \<noteq> \<infinity>" using True by (rule_tac notI) simp
  show ?thesis
  proof (cases "?d < distance (cells ?g v)")
    case True
    then have "labels ?g1 v < labels ?g v" by (simp add: labels_def l1)
    with sh le nodes show ?thesis unfolding c' by blast
  next
    case False
    with True have eq: "distance (cells ?g v) = ?d" by simp
    have "labels ?g1 = labels ?g" by (rule ext) (simp add: labels_def l1 eq)
    moreover have "labels ?g v = labels ?g u + 1" "labels ?g v \<noteq> \<infinity>"
      using eq fin by (simp_all add: labels_def)
    ultimately show ?thesis using sh le nodes wt unfolding c' by blast
  qed
qed

lemma baseCase_fold_measure:
  assumes fin: "finite R"
  shows "set vs \<subseteq> R \<Longrightarrow> fold (baseCase_relax B u) vs (c, h) = (c', h') \<Longrightarrow>
     rows (gridRef c') = rows (gridRef c) \<and> cols (gridRef c') = cols (gridRef c) \<and>
     (\<forall>p. labels (gridRef c') p \<le> labels (gridRef c) p) \<and>
     fst ` set h' \<subseteq> set vs \<union> fst ` set h \<and>
     ((\<exists>p\<in>R. labels (gridRef c') p < labels (gridRef c) p) \<or>
      labels (gridRef c') = labels (gridRef c) \<and>
      (heapWeight (labels (gridRef c)) R h' = heapWeight (labels (gridRef c)) R h \<or>
       labels (gridRef c) u \<noteq> \<infinity> \<and>
       finPart (labels (gridRef c) u) < maxFin (labels (gridRef c)) R \<and>
       heapWeight (labels (gridRef c)) R h'
         \<le> heapWeight (labels (gridRef c)) R h +
            length vs * 5 ^ (maxFin (labels (gridRef c)) R - Suc (finPart (labels (gridRef c) u)))))"
proof (induction vs arbitrary: c h)
  case Nil
  then show ?case by simp
next
  case (Cons v vs)
  obtain c1 h1 where r1: "baseCase_relax B u v (c, h) = (c1, h1)"
    by (cases "baseCase_relax B u v (c, h)")
  with Cons.prems(2) have r2: "fold (baseCase_relax B u) vs (c1, h1) = (c', h')" by simp
  from Cons.prems(1) have vR: "v \<in> R" and vsR: "set vs \<subseteq> R" by simp_all
  let ?l = "labels (gridRef c)"
  let ?l1 = "labels (gridRef c1)"
  let ?l' = "labels (gridRef c')"
  let ?q = "5 ^ (maxFin ?l R - Suc (finPart (?l u)))"
  note m1 = baseCase_relax_measure[OF r1]
  note m2 = Cons.IH[OF vsR r2]
  from m1 m2 have sh: "rows (gridRef c') = rows (gridRef c)" "cols (gridRef c') = cols (gridRef c)"
    by simp_all
  have le: "?l' p \<le> ?l p" for p
  proof -
    from m2 have "?l' p \<le> ?l1 p" by blast
    also from m1 have "\<dots> \<le> ?l p" by blast
    finally show ?thesis .
  qed
  have nodes: "fst ` set h' \<subseteq> set (v # vs) \<union> fst ` set h"
  proof -
    from m2 have "fst ` set h' \<subseteq> set vs \<union> fst ` set h1" by blast
    moreover from m1 have "fst ` set h1 \<subseteq> insert v (fst ` set h)" by blast
    ultimately show ?thesis by auto
  qed
  from m1 have "?l1 v < ?l v \<or>
      ?l1 = ?l \<and> (h1 = h \<or> ?l v = ?l u + 1 \<and> ?l v \<noteq> \<infinity> \<and>
           (\<forall>w::pos \<Rightarrow> nat. sum_list (map (\<lambda>e. w (fst e)) h1)
                 \<le> sum_list (map (\<lambda>e. w (fst e)) h) + w v))" by blast
  then have "(\<exists>p\<in>R. ?l' p < ?l p) \<or>
      ?l' = ?l \<and>
      (heapWeight ?l R h' = heapWeight ?l R h \<or>
       ?l u \<noteq> \<infinity> \<and> finPart (?l u) < maxFin ?l R \<and>
       heapWeight ?l R h' \<le> heapWeight ?l R h + length (v # vs) * ?q)"
  proof
    assume "?l1 v < ?l v"
    moreover from m2 have "?l' v \<le> ?l1 v" by blast
    ultimately have "?l' v < ?l v" by simp
    with vR show ?thesis by blast
  next
    assume a: "?l1 = ?l \<and> (h1 = h \<or> ?l v = ?l u + 1 \<and> ?l v \<noteq> \<infinity> \<and>
           (\<forall>w::pos \<Rightarrow> nat. sum_list (map (\<lambda>e. w (fst e)) h1)
                 \<le> sum_list (map (\<lambda>e. w (fst e)) h) + w v))"
    then have l1: "?l1 = ?l" by blast
    have step1: "heapWeight ?l R h1 = heapWeight ?l R h \<or>
        ?l u \<noteq> \<infinity> \<and> finPart (?l u) < maxFin ?l R \<and> heapWeight ?l R h1 \<le> heapWeight ?l R h + ?q"
    proof (cases "h1 = h")
      case True then show ?thesis by simp
    next
      case False
      with a have v: "?l v = ?l u + 1" "?l v \<noteq> \<infinity>"
        and w: "sum_list (map (\<lambda>e. nodeWeight ?l R (fst e)) h1)
                 \<le> sum_list (map (\<lambda>e. nodeWeight ?l R (fst e)) h) + nodeWeight ?l R v" by blast+
      from v have u: "?l u \<noteq> \<infinity>" by (rule_tac notI) simp
      with v(1) have fp: "finPart (?l v) = Suc (finPart (?l u))"
        by (cases "?l u") (auto simp: finPart_def one_enat_def)
      from finPart_le_maxFin[OF fin vR, of ?l] fp have lt: "finPart (?l u) < maxFin ?l R" by simp
      have "nodeWeight ?l R v = ?q" by (simp add: nodeWeight_def fp)
      with w u lt show ?thesis by (simp add: heapWeight_def)
    qed
    from m2 have "(\<exists>p\<in>R. ?l' p < ?l1 p) \<or>
      ?l' = ?l1 \<and>
      (heapWeight ?l1 R h' = heapWeight ?l1 R h1 \<or>
       ?l1 u \<noteq> \<infinity> \<and> finPart (?l1 u) < maxFin ?l1 R \<and>
       heapWeight ?l1 R h' \<le> heapWeight ?l1 R h1 + length vs * 5 ^ (maxFin ?l1 R - Suc (finPart (?l1 u))))"
      by blast
    then show ?thesis unfolding l1
    proof
      assume "\<exists>p\<in>R. ?l' p < ?l p" then show ?thesis by blast
    next
      assume b: "?l' = ?l \<and>
        (heapWeight ?l R h' = heapWeight ?l R h1 \<or>
         ?l u \<noteq> \<infinity> \<and> finPart (?l u) < maxFin ?l R \<and>
         heapWeight ?l R h' \<le> heapWeight ?l R h1 + length vs * ?q)"
      then have "heapWeight ?l R h' = heapWeight ?l R h \<or>
         ?l u \<noteq> \<infinity> \<and> finPart (?l u) < maxFin ?l R \<and>
         heapWeight ?l R h' \<le> heapWeight ?l R h + (?q + length vs * ?q)"
        using step1 by (elim conjE disjE) auto
      with b show ?thesis by simp
    qed
  qed
  with sh le nodes show ?case by blast
qed

lemma length_getNeighbors: "length (getNeighbors u g) \<le> 4"
proof -
  have "length (adjacentCells g u) \<le> 4" by (cases u) simp
  moreover have "length (getNeighbors u g) \<le> length (adjacentCells g u)"
    unfolding getNeighbors_def by (rule length_filter_le)
  ultimately show ?thesis by simp
qed

lemma markVisited_labels:
  "labels (gridRef (markVisited u c)) = labels (gridRef c)"
  "rows (gridRef (markVisited u c)) = rows (gridRef c)"
  "cols (gridRef (markVisited u c)) = cols (gridRef c)"
  by (auto simp: markVisited_def labels_def setters)

lemma baseCase_round_decreases:
  assumes fin: "finite R" and hR: "fst ` set h \<subseteq> R"
    and closed: "\<And>p. p \<in> R \<Longrightarrow> set (adjacentCells (gridRef c) p) \<subseteq> R"
    and pop: "heap_pop h = (Some (u, d), h1)"
    and res: "fold (baseCase_relax B u) (getNeighbors u (gridRef (markVisited u c)))
                (markVisited u c, h1) = (c2, h2)"
  shows "rows (gridRef c2) = rows (gridRef c) \<and> cols (gridRef c2) = cols (gridRef c) \<and>
         fst ` set h2 \<subseteq> R \<and>
         (infCount (labels (gridRef c2)) R < infCount (labels (gridRef c)) R \<or>
          infCount (labels (gridRef c2)) R = infCount (labels (gridRef c)) R \<and>
          (finSum (labels (gridRef c2)) R < finSum (labels (gridRef c)) R \<or>
           finSum (labels (gridRef c2)) R = finSum (labels (gridRef c)) R \<and>
           heapWeight (labels (gridRef c2)) R h2 < heapWeight (labels (gridRef c)) R h))"
proof -
  let ?c1 = "markVisited u c"
  let ?l = "labels (gridRef c)"
  let ?vs = "getNeighbors u (gridRef ?c1)"
  let ?M = "maxFin ?l R"
  let ?a = "finPart (?l u)"
  from heap_pop_subset[OF pop] have u: "u \<in> R" and h1: "fst ` set h1 \<subseteq> R" using hR by auto
  have "adjacentCells (gridRef ?c1) u = adjacentCells (gridRef c) u"
    by (rule adjacentCells_shape) (simp_all add: markVisited_labels)
  with closed[OF u] have vs: "set ?vs \<subseteq> R" by (auto simp: getNeighbors_def)
  note m = baseCase_fold_measure[OF fin vs res, unfolded markVisited_labels]
  from m have sh: "rows (gridRef c2) = rows (gridRef c)" "cols (gridRef c2) = cols (gridRef c)"
    by simp_all
  from m vs h1 have h2: "fst ` set h2 \<subseteq> R" by blast
  from heap_pop_weight[OF pop, of "\<lambda>e. nodeWeight ?l R (fst e)"]
  have w1: "heapWeight ?l R h1 + nodeWeight ?l R u = heapWeight ?l R h" by (simp add: heapWeight_def)
  from m have le: "\<And>p. labels (gridRef c2) p \<le> ?l p" by blast
  from m have "(\<exists>p\<in>R. labels (gridRef c2) p < ?l p) \<or>
      labels (gridRef c2) = ?l \<and>
      (heapWeight ?l R h2 = heapWeight ?l R h1 \<or>
       ?l u \<noteq> \<infinity> \<and> ?a < ?M \<and> heapWeight ?l R h2 \<le> heapWeight ?l R h1 + length ?vs * 5 ^ (?M - Suc ?a))"
    by blast
  then have "infCount (labels (gridRef c2)) R < infCount ?l R \<or>
          infCount (labels (gridRef c2)) R = infCount ?l R \<and>
          (finSum (labels (gridRef c2)) R < finSum ?l R \<or>
           finSum (labels (gridRef c2)) R = finSum ?l R \<and>
           heapWeight (labels (gridRef c2)) R h2 < heapWeight ?l R h)"
  proof
    assume "\<exists>p\<in>R. labels (gridRef c2) p < ?l p"
    then obtain p where "p \<in> R" "labels (gridRef c2) p < ?l p" by blast
    from label_measure_less[of R "labels (gridRef c2)" ?l p, OF fin le this] show ?thesis by blast
  next
    assume a: "labels (gridRef c2) = ?l \<and>
      (heapWeight ?l R h2 = heapWeight ?l R h1 \<or>
       ?l u \<noteq> \<infinity> \<and> ?a < ?M \<and> heapWeight ?l R h2 \<le> heapWeight ?l R h1 + length ?vs * 5 ^ (?M - Suc ?a))"
    then have same: "labels (gridRef c2) = ?l" by blast
    have "heapWeight ?l R h2 < heapWeight ?l R h"
    proof (cases "heapWeight ?l R h2 = heapWeight ?l R h1")
      case True
      with w1 nodeWeight_pos[of ?l R u] show ?thesis by simp
    next
      case False
      with a have lt: "?a < ?M"
        and b: "heapWeight ?l R h2 \<le> heapWeight ?l R h1 + length ?vs * 5 ^ (?M - Suc ?a)" by blast+
      from lt have "?M - ?a = Suc (?M - Suc ?a)" by simp
      then have nw: "nodeWeight ?l R u = 5 * 5 ^ (?M - Suc ?a)" by (simp add: nodeWeight_def)
      have "length ?vs * 5 ^ (?M - Suc ?a) \<le> 4 * 5 ^ (?M - Suc ?a)"
        using length_getNeighbors[of u "gridRef ?c1"] by (intro mult_right_mono) simp_all
      also have "\<dots> < 5 * 5 ^ (?M - Suc ?a)" by simp
      finally have "length ?vs * 5 ^ (?M - Suc ?a) < nodeWeight ?l R u" unfolding nw .
      with b w1 show ?thesis by simp
    qed
    then show ?thesis unfolding same by simp
  qed
  with sh h2 show ?thesis by blast
qed

lemma baseCase_loop_returns:
  assumes fin: "finite R"
  shows "fst ` set h \<subseteq> R \<Longrightarrow> (\<And>p. p \<in> R \<Longrightarrow> set (adjacentCells (gridRef c) p) \<subseteq> R) \<Longrightarrow>
         \<exists>r. baseCase_loop k B c h U0 = Some r"
proof -
  have "wf (less_than <*lex*> less_than <*lex*> less_than)" by auto
  then show "fst ` set h \<subseteq> R \<Longrightarrow> (\<And>p. p \<in> R \<Longrightarrow> set (adjacentCells (gridRef c) p) \<subseteq> R) \<Longrightarrow>
         \<exists>r. baseCase_loop k B c h U0 = Some r"
proof (induction "(infCount (labels (gridRef c)) R, finSum (labels (gridRef c)) R,
                   heapWeight (labels (gridRef c)) R h)"
       arbitrary: c h U0 rule: wf_induct_rule)
  case less
  note IH = less.hyps and hR = less.prems(1) and closed = less.prems(2)
  show ?case
  proof (cases "h \<noteq> [] \<and> length U0 < k + 1")
    case False
    then show ?thesis by (subst baseCase_loop.simps) auto
  next
    case True
    show ?thesis
    proof (cases "heap_pop h")
      case (Pair m h1)
      show ?thesis
      proof (cases m)
        case None
        with True Pair show ?thesis by (subst baseCase_loop.simps) auto
      next
        case (Some e)
        obtain u d where e: "e = (u, d)" by (cases e)
        show ?thesis
        proof (cases "B \<le> d")
          case True
          with \<open>h \<noteq> [] \<and> length U0 < k + 1\<close> Pair Some e show ?thesis
            by (subst baseCase_loop.simps) auto
        next
          case False
          obtain c2 h2 where f: "fold (baseCase_relax B u) (getNeighbors u (gridRef (markVisited u c)))
                                   (markVisited u c, h1) = (c2, h2)"
            by (cases "fold (baseCase_relax B u) (getNeighbors u (gridRef (markVisited u c))) (markVisited u c, h1)")
          note d = baseCase_round_decreases[OF fin hR closed Pair[unfolded Some e] f]
          have cl2: "set (adjacentCells (gridRef c2) p) \<subseteq> R" if "p \<in> R" for p
          proof -
            have "adjacentCells (gridRef c2) p = adjacentCells (gridRef c) p"
              using d by (intro adjacentCells_shape) simp_all
            with closed[OF that] show ?thesis by simp
          qed
          have "\<exists>r. baseCase_loop k B c2 h2 (set_add u U0) = Some r"
            by (rule IH[OF _ _ cl2]) (use d in auto)
          with True Pair Some e False f show ?thesis
            by (subst baseCase_loop.simps) (simp add: Let_def)
        qed
      qed
    qed
  qed
qed
qed

section \<open>The result of BaseCase\<close>

text \<open>
  C9: for every bound \<open>B\<close>, every source list \<open>S\<close> and every state of the grid, \<open>baseCase\<close>
  returns. It returns the boundary \<open>B\<close> together with the whole closed set \<open>U0\<close> when the
  closed set ends with at most \<open>k\<close> members; otherwise it returns the maximum finite
  distance among the closed nodes as the boundary, together with exactly the closed nodes
  whose distance is strictly below it. The closed set is the \<open>Set\<close> \<open>U0\<close> with which the
  loop ends; it has no duplicates and contains the sources. (A maximum over no finite
  distance at all is the initial value 0 of the scan.)
\<close>

theorem C9_baseCase_result:
  "\<exists>boundary U c' U0.
     baseCase k B S c = Some ((boundary, U), c') \<and>
     baseCase_loop k B c
       (fold (\<lambda>node h. heap_push h node (distance (cells (gridRef c) node))) S [])
       (newSet S) = Some (c', U0) \<and>
     distinct U0 \<and> set S \<subseteq> set U0 \<and>
     (if card (set U0) \<le> k then boundary = B \<and> U = U0
      else boundary = Max (insert 0 (finiteDistances (gridRef c') U0)) \<and>
           U = filter (\<lambda>n. distance (cells (gridRef c') n) < boundary) U0)"
proof -
  let ?h = "fold (\<lambda>node h. heap_push h node (distance (cells (gridRef c) node))) S []"
  let ?R = "reach_box (gridRef c) S"
  have hR: "fst ` set ?h \<subseteq> ?R"
    using heap_of_sources[of "\<lambda>node. distance (cells (gridRef c) node)" S "[]"]
      reach_box_member[of _ S "gridRef c"] by auto
  from baseCase_loop_returns[OF finite_reach_box hR reach_box_adjacent, of k B "newSet S"]
  obtain r where r: "baseCase_loop k B c ?h (newSet S) = Some r" by blast
  obtain boundary U where res: "baseCase_result k B (gridRef (fst r)) (snd r) = (boundary, U)"
    by (cases "baseCase_result k B (gridRef (fst r)) (snd r)")
  with r have run: "baseCase k B S c = Some ((boundary, U), fst r)" by (simp add: baseCase_def)
  from baseCase_result_shape[OF run] run show ?thesis by blast
qed

theorem C9_baseCase_result_witness:
  "\<exists>U0 c'. baseCase 2 \<infinity> [(0, 0)]
              \<lparr>gridRef = setDistance (0, 0) 0 (getInitialGrid 2 2 (0, 0) (1, 1)), visitedList = []\<rparr>
            = Some ((1, [(0, 0)]), c') \<and>
           distinct U0 \<and> \<not> card (set U0) \<le> 2 \<and>
           1 = Max (insert 0 (finiteDistances (gridRef c') U0))"
proof -
  let ?c = "\<lparr>gridRef = setDistance (0, 0) 0 (getInitialGrid 2 2 (0, 0) (1, 1)), visitedList = []\<rparr>"
  have v: "map_option fst (baseCase 2 \<infinity> [(0, 0)] ?c) = Some (1, [(0, 0)])"
    by code_simp
  from C9_baseCase_result[of 2 \<infinity> "[(0, 0)]" ?c] obtain boundary U c' U0 where
    run: "baseCase 2 \<infinity> [(0, 0)] ?c = Some ((boundary, U), c')"
    and d: "distinct U0"
    and r: "if card (set U0) \<le> 2 then boundary = \<infinity> \<and> U = U0
            else boundary = Max (insert 0 (finiteDistances (gridRef c') U0)) \<and>
                 U = filter (\<lambda>n. distance (cells (gridRef c') n) < boundary) U0"
    by blast
  from v run have b: "boundary = 1" "U = [(0, 0)]" by simp_all
  from r have "\<not> card (set U0) \<le> 2 \<and> 1 = Max (insert 0 (finiteDistances (gridRef c') U0))"
    unfolding b by (auto split: if_splits)
  with run d show ?thesis unfolding b by blast
qed
end
